(* ===== verification/Prelude.thy ===== *)
theory Prelude
  imports Main "HOL-Library.Word"
begin

text \<open>
  Shared vocabulary of the development: the machine integers of the Rust sources
  (\<open>usize\<close> and \<open>u64\<close> are 64 bits wide on both targets, x86-64 and AArch64), the
  type of a code fragment that runs one atomic instruction at a time, and the generic
  lemmas on words and on sums over threads that the component theories use.
\<close>

type_synonym u8 = "8 word"
type_synonym u64 = "64 word"
type_synonym usize = "64 word"

text \<open>
  A piece of code that other threads can interrupt is a step function: at program point
  \<open>k\<close> with shared state \<open>c\<close> it executes one atomic instruction and yields the new
  shared state together with the next program point (\<open>Inl\<close>) or its return value
  (\<open>Inr\<close>). \<open>None\<close> means that the instruction is blocked (a mutex is taken).
\<close>

type_synonym ('k, 'c, 'r) code = "'k \<Rightarrow> 'c \<Rightarrow> ('c \<times> ('k + 'r)) option"

text \<open>The uninterrupted execution of such a fragment up to its return.\<close>

inductive runs :: "('k, 'c, 'r) code \<Rightarrow> 'k \<Rightarrow> 'c \<Rightarrow> 'c \<Rightarrow> 'r \<Rightarrow> bool"
  for os :: "('k, 'c, 'r) code" where
  runs_return: "os k c = Some (c', Inr r) \<Longrightarrow> runs os k c c' r"
| runs_next: "os k c = Some (c1, Inl k1) \<Longrightarrow> runs os k1 c1 c' r \<Longrightarrow> runs os k c c' r"

lemma runs_deterministic:
  "runs os k c c1 r1 \<Longrightarrow> runs os k c c2 r2 \<Longrightarrow> c1 = c2 \<and> r1 = r2"
proof (induction rule: runs.induct)
  case (runs_return k c c' r)
  then show ?case by (auto elim: runs.cases)
next
  case (runs_next k c c1 k1 c' r)
  from runs_next.prems runs_next.hyps(1) have "runs os k1 c1 c2 r2"
    by (auto elim: runs.cases)
  then show ?case by (rule runs_next.IH)
qed

text \<open>
  Calling a function from another one: its program points are embedded by \<open>into\<close>, and its
  return value selects the caller's next program point (\<open>call\<close>) or is the caller's own
  return value (\<open>tail_call\<close>).
\<close>

definition call ::
  "('k1 \<Rightarrow> 'k2) \<Rightarrow> ('r1 \<Rightarrow> 'k2) \<Rightarrow> ('c \<times> ('k1 + 'r1)) option \<Rightarrow> ('c \<times> ('k2 + 'r2)) option" where
  "call into ret = map_option (\<lambda>(c, x). (c, Inl (case x of Inl k \<Rightarrow> into k | Inr r \<Rightarrow> ret r)))"

definition tail_call ::
  "('k1 \<Rightarrow> 'k2) \<Rightarrow> ('r1 \<Rightarrow> 'r2) \<Rightarrow> ('c \<times> ('k1 + 'r1)) option \<Rightarrow> ('c \<times> ('k2 + 'r2)) option" where
  "tail_call into ret = map_option (\<lambda>(c, x). (c, map_sum into ret x))"

lemma call_eq_Some:
  "call into ret x = Some (c, y) \<longleftrightarrow>
     (\<exists>k. x = Some (c, Inl k) \<and> y = Inl (into k)) \<or> (\<exists>r. x = Some (c, Inr r) \<and> y = Inl (ret r))"
  by (cases x) (auto simp: call_def split: sum.splits prod.splits)

lemma tail_call_eq_Some:
  "tail_call into ret x = Some (c, y) \<longleftrightarrow>
     (\<exists>k. x = Some (c, Inl k) \<and> y = Inl (into k)) \<or> (\<exists>r. x = Some (c, Inr r) \<and> y = Inr (ret r))"
  by (cases x) (auto simp: tail_call_def map_sum_def split: sum.splits prod.splits)

lemma call_eq_None [simp]: "call into ret x = None \<longleftrightarrow> x = None"
  by (simp add: call_def)

lemma tail_call_eq_None [simp]: "tail_call into ret x = None \<longleftrightarrow> x = None"
  by (simp add: tail_call_def)

text \<open>Unfolding a run by one known instruction.\<close>

lemma runs_step:
  "os k c = Some (c1, Inl k1) \<Longrightarrow> runs os k c c' r \<longleftrightarrow> runs os k1 c1 c' r"
  by (auto elim: runs.cases intro: runs_next)

lemma runs_last: "os k c = Some (c1, Inr r1) \<Longrightarrow> runs os k c c' r \<longleftrightarrow> c' = c1 \<and> r = r1"
  by (auto elim: runs.cases intro: runs_return)

lemma runs_call:
  assumes "runs os1 k c c1 r1" and "\<And>k c. os2 (into k) c = call into ret (os1 k c)"
    and "runs os2 (ret r1) c1 c' r"
  shows "runs os2 (into k) c c' r"
  using assms(1,3)
proof (induction rule: runs.induct)
  case (runs_return k c c1 r1)
  then show ?case by (simp add: runs_step assms(2) call_def)
next
  case (runs_next k c c1 k1 c2 r1)
  then show ?case by (simp add: runs_step assms(2) call_def)
qed

lemma runs_tail_call:
  assumes "runs os1 k c c' r1" and "\<And>k c. os2 (into k) c = tail_call into ret (os1 k c)"
  shows "runs os2 (into k) c c' (ret r1)"
  using assms(1)
proof (induction rule: runs.induct)
  case (runs_return k c c' r1)
  then show ?case by (simp add: runs_last assms(2) tail_call_def)
next
  case (runs_next k c c1 k1 c2 r1)
  then show ?case by (simp add: runs_step assms(2) tail_call_def)
qed

subsection \<open>Facts collected for the component proofs\<close>

named_theorems step_simps \<open>one-instruction equations of the step functions\<close>

subsection \<open>Words\<close>

lemma unat_inc_no_wrap: "unat (x :: 64 word) < 2 ^ 64 - 1 \<Longrightarrow> unat (x + 1) = unat x + 1"
  by (simp add: unat_word_ariths)

lemma unat_add_no_wrap:
  "unat (x :: 64 word) + unat y < 2 ^ 64 \<Longrightarrow> unat (x + y) = unat x + unat y"
  by (simp add: unat_word_ariths)

lemma unat_dec: "(x :: 64 word) \<noteq> 0 \<Longrightarrow> unat (x - 1) = unat x - 1"
  by (simp add: unat_minus_one)

lemma unat_Suc_dec:
  assumes "(x :: 64 word) \<noteq> 0"
  shows "unat x = Suc (unat (x - 1))"
proof -
  have "unat x \<noteq> 0" using assms by (simp add: unat_eq_zero)
  with unat_dec [OF assms] show ?thesis by linarith
qed

lemma unat_pos_iff: "0 < unat (x :: 64 word) \<longleftrightarrow> x \<noteq> 0"
  by (simp add: unat_gt_0)

lemma uint_inc_no_wrap: "uint (x :: 64 word) < 2 ^ 64 - 1 \<Longrightarrow> uint (x + 1) = uint x + 1"
  by (simp add: uint_word_ariths)

lemma unat_inc_uint:
  assumes "uint (x :: 64 word) < 2 ^ 64 - 1"
  shows "unat (x + 1) = unat x + 1"
proof -
  have "int (unat x) < int (2 ^ 64 - 1)" using assms by simp
  then show ?thesis by (intro unat_inc_no_wrap) (simp only: of_nat_less_iff)
qed

lemma uint_add_no_wrap:
  "uint (x :: 64 word) + uint y < 2 ^ 64 \<Longrightarrow> uint (x + y) = uint x + uint y"
  by (simp add: uint_word_ariths)

lemma uint_dec:
  assumes "(x :: 64 word) \<noteq> 0"
  shows "uint (x - 1) = uint x - 1"
proof -
  have "0 < uint x" using assms by (simp add: word_greater_zero_iff [symmetric] word_less_def)
  then show ?thesis using uint_lt2p [of x] by (simp add: uint_word_ariths)
qed

text \<open>\<open>ids a n\<close>: the \<open>n\<close> consecutive 64-bit identifiers from \<open>a\<close> on, wrapping around.\<close>

definition ids :: "u64 \<Rightarrow> nat \<Rightarrow> u64 list" where
  "ids a n = map (\<lambda>i. a + of_nat i) [0..<n]"

lemma ids_0 [simp]: "ids a 0 = []"
  by (simp add: ids_def)

lemma ids_Suc: "ids a (Suc n) = ids a n @ [a + of_nat n]"
  by (simp add: ids_def)

lemma ids_Suc_Cons: "ids a (Suc n) = a # ids (a + 1) n"
proof -
  have "[0..<Suc n] = 0 # map Suc [0..<n]" by (simp add: upt_conv_Cons map_Suc_upt)
  then show ?thesis by (simp add: ids_def algebra_simps)
qed

lemma length_ids [simp]: "length (ids a n) = n"
  by (simp add: ids_def)

lemma ids_append: "ids a (m + n) = ids a m @ ids (a + of_nat m) n"
  by (induction n) (simp_all add: ids_Suc algebra_simps)

lemma distinct_ids:
  assumes "n \<le> 2 ^ 64"
  shows "distinct (ids a n)"
proof -
  have "i = j" if "i < n" "j < n" "(of_nat i :: u64) = of_nat j" for i j
  proof -
    have "i mod 2 ^ 64 = j mod 2 ^ 64"
      using arg_cong [OF that(3), of unat] by (simp only: unat_of_nat len_of_numeral_defs) simp
    with that(1,2) assms show ?thesis by simp
  qed
  then show ?thesis by (auto simp: ids_def distinct_map inj_on_def)
qed

subsection \<open>Sums over threads\<close>

lemma sum_fun_upd:
  fixes f :: "'b \<Rightarrow> int"
  assumes "finite A" and "a \<in> A"
  shows "(\<Sum>i\<in>A. f ((g(a := x)) i)) = (\<Sum>i\<in>A. f (g i)) - f (g a) + f x"
proof -
  have "(\<Sum>i\<in>A. f ((g(a := x)) i)) = f x + (\<Sum>i\<in>A - {a}. f ((g(a := x)) i))"
    using assms by (simp add: sum.remove)
  also have "(\<Sum>i\<in>A - {a}. f ((g(a := x)) i)) = (\<Sum>i\<in>A - {a}. f (g i))"
    by (rule sum.cong) auto
  also have "(\<Sum>i\<in>A - {a}. f (g i)) = (\<Sum>i\<in>A. f (g i)) - f (g a)"
    using assms by (simp add: sum.remove)
  finally show ?thesis by simp
qed

lemma sum_le_mult:
  fixes f :: "'a \<Rightarrow> int"
  assumes "finite A" and "\<And>i. i \<in> A \<Longrightarrow> f i \<le> b"
  shows "(\<Sum>i\<in>A. f i) \<le> int (card A) * b"
  using sum_mono [of A f "\<lambda>_. b"] assms by simp

subsection \<open>Ownership of a lock\<close>

text \<open>A lock bit and its owners: what a step must do to the two so that there is at most one owner.\<close>

lemma owner_update:
  assumes "lo \<longleftrightarrow> (\<exists>t. H t)" and "\<forall>t u. H t \<longrightarrow> H u \<longrightarrow> t = u"
    and "lo' \<longleftrightarrow> (if H t = h' then lo else h')" and "\<not> H t \<longrightarrow> h' \<longrightarrow> \<not> lo"
  shows "(lo' \<longleftrightarrow> (\<exists>u. (H(t := h')) u)) \<and> (\<forall>v u. (H(t := h')) v \<longrightarrow> (H(t := h')) u \<longrightarrow> v = u)"
  using assms by (cases "H t"; cases h') (auto simp: fun_upd_def)

end
