(* ===== verification/SoftLock.thy ===== *)
theory SoftLock
  imports Prelude
begin

text \<open>
  The generic soft-lock of \<^verbatim>\<open>softlock-std-demo/src/main.rs\<close>: \<open>SoftLock<T>\<close>,
  \<open>AccessGuard\<close> and its \<open>Drop\<close>. The content type and the code that runs inside an access
  (the closure given to \<open>with_access\<close> and the content's \<open>run_pended_op\<close>) are parameters,
  as the trait bound \<open>T: AllowPendOp\<close> makes them in the source.
  Every atomic operation of the source is one step, so that threads interleave between any
  two of them. All orderings used by the lock are \<open>SeqCst\<close>, which is interleaving semantics.
\<close>

section \<open>The lock and its guard\<close>

record 'c soft_lock =
  content :: 'c
  pending :: bool
  locked :: bool

definition soft_lock_new :: "'c \<Rightarrow> 'c soft_lock" where
  "soft_lock_new c = \<lparr>content = c, pending = False, locked = False\<rparr>"

text \<open>\<open>AccessGuard::guard\<close>: one compare-and-exchange; the flag is \<open>lock_held\<close>.\<close>

definition guard :: "'c soft_lock \<Rightarrow> 'c soft_lock \<times> bool" where
  "guard l = (if locked l then (l, False) else (l\<lparr>locked := True\<rparr>, True))"

text \<open>
  The \<open>Access\<close> that \<open>with_access\<close> builds from the guard and passes to the closure; the accessors
  inside it are references to the content. The closure's match on it selects one of its two arms.
\<close>

datatype access = Full | PendOnly

definition access_for :: "bool \<Rightarrow> access" where
  "access_for lock_held = (if lock_held then Full else PendOnly)"

fun arm_of :: "'k \<Rightarrow> 'k \<Rightarrow> access \<Rightarrow> 'k" where
  "arm_of f p Full = f"
| "arm_of f p PendOnly = p"

lemma arm_of_access [simp]: "arm_of f p (access_for lock_held) = (if lock_held then f else p)"
  by (simp add: access_for_def)

text \<open>
  Where a thread stands inside \<open>with_access(op)\<close>. The closure \<open>op\<close> is a match on the
  access with two arms: \<open>AtGuard f p\<close> carries their entry points (Full and PendOnly).
  Once the closure has returned, its value travels with the remaining program points, since
  \<open>with_access\<close> drops the guard between computing \<open>output\<close> and returning it.
\<close>

datatype ('k, 'd, 'r) guard_pc =
    AtGuard 'k 'k
  | InOp bool 'k
  | AtSwap 'r
  | InDrain 'd 'r
  | AtRelease 'r
  | AtRecheck 'r
  | AtReacquire 'r
  | AtPendStore 'r
  | Returned 'r

text \<open>\<open>impl Drop for AccessGuard\<close>: the release loop of a Full guard, the flag of the other.\<close>

fun drop_step ::
  "('d, 'c, unit) code \<Rightarrow> 'd \<Rightarrow> 'c soft_lock \<Rightarrow> ('k, 'd, 'r) guard_pc
     \<Rightarrow> ('c soft_lock \<times> ('k, 'd, 'r) guard_pc) option" where
  "drop_step ds d0 l (AtSwap r) =
     Some (l\<lparr>pending := False\<rparr>, if pending l then InDrain d0 r else AtRelease r)"
| "drop_step ds d0 l (InDrain d r) =
     (case ds d (content l) of
        None \<Rightarrow> None
      | Some (c, Inl d') \<Rightarrow> Some (l\<lparr>content := c\<rparr>, InDrain d' r)
      | Some (c, Inr _) \<Rightarrow> Some (l\<lparr>content := c\<rparr>, AtRelease r))"
| "drop_step ds d0 l (AtRelease r) = Some (l\<lparr>locked := False\<rparr>, AtRecheck r)"
| "drop_step ds d0 l (AtRecheck r) = Some (l, if pending l then AtReacquire r else Returned r)"
| "drop_step ds d0 l (AtReacquire r) =
     (case guard l of (l', held) \<Rightarrow> Some (l', if held then AtSwap r else AtReacquire r))"
| "drop_step ds d0 l (AtPendStore r) = Some (l\<lparr>pending := True\<rparr>, Returned r)"
| "drop_step ds d0 l _ = None"

text \<open>\<open>SoftLock::with_access\<close>: guard, the arm that the guard selects, drop.\<close>

fun guard_step ::
  "('k, 'c, 'r) code \<Rightarrow> ('d, 'c, unit) code \<Rightarrow> 'd \<Rightarrow> 'c soft_lock \<Rightarrow> ('k, 'd, 'r) guard_pc
     \<Rightarrow> ('c soft_lock \<times> ('k, 'd, 'r) guard_pc) option" where
  "guard_step os ds d0 l (AtGuard f p) =
     (case guard l of (l', held) \<Rightarrow> Some (l', InOp held (arm_of f p (access_for held))))"
| "guard_step os ds d0 l (InOp held k) =
     (case os k (content l) of
        None \<Rightarrow> None
      | Some (c, Inl k') \<Rightarrow> Some (l\<lparr>content := c\<rparr>, InOp held k')
      | Some (c, Inr r) \<Rightarrow> Some (l\<lparr>content := c\<rparr>, if held then AtSwap r else AtPendStore r))"
| "guard_step os ds d0 l pc = drop_step ds d0 l pc"

text \<open>The program points at which a thread owns Full access.\<close>

fun holds :: "('k, 'd, 'r) guard_pc \<Rightarrow> bool" where
  "holds (InOp held _) = held"
| "holds (AtSwap _) = True"
| "holds (InDrain _ _) = True"
| "holds (AtRelease _) = True"
| "holds _ = False"

text \<open>The program points of a PendOnly access that has not yet raised the pending flag.\<close>

fun will_flag :: "('k, 'd, 'r) guard_pc \<Rightarrow> bool" where
  "will_flag (InOp held _) = (\<not> held)"
| "will_flag (AtPendStore _) = True"
| "will_flag _ = False"

text \<open>One instruction and the lock bit.\<close>

lemma guard_cases:
  "guard l = (l', h) \<Longrightarrow> (h \<and> \<not> locked l \<and> l' = l\<lparr>locked := True\<rparr>) \<or> (\<not> h \<and> locked l \<and> l' = l)"
  by (auto simp: guard_def split: if_splits)

lemma guard_simps [step_simps]:
  "locked l \<Longrightarrow> guard l = (l, False)"
  "\<not> locked l \<Longrightarrow> guard l = (l\<lparr>locked := True\<rparr>, True)"
  by (simp_all add: guard_def)

lemma guard_step_locked:
  assumes "guard_step os ds d0 l pc = Some (l', pc')"
  shows "locked l' \<longleftrightarrow> (if holds pc = holds pc' then locked l else holds pc')"
    and "\<not> holds pc \<Longrightarrow> holds pc' \<Longrightarrow> \<not> locked l"
  using assms
  by (cases pc; auto dest!: guard_cases split: option.splits sum.splits prod.splits if_splits)+

lemma guard_step_op:
  assumes "guard_step os ds d0 l (InOp held k) = Some (l', pc')"
  obtains c x where "os k (content l) = Some (c, x)" and "l' = l\<lparr>content := c\<rparr>"
    and "pc' = (case x of Inl k' \<Rightarrow> InOp held k' | Inr r \<Rightarrow> if held then AtSwap r else AtPendStore r)"
  using assms by (auto split: option.splits sum.splits prod.splits)

section \<open>What the content promises: AllowPendOp and RunPendedOp\<close>

text \<open>
  \<open>backlog c\<close> counts the intents recorded in the content and not yet executed. The trait
  separates the two kinds of access: an arm reached through the Full accessor records
  nothing, and \<open>run_pended_op\<close> (code \<open>ds\<close>, entry \<open>d0\<close>) takes over everything recorded at some
  point of its execution; until then it is \<open>fresh\<close>. The PendOnly arm is unconstrained.
\<close>

locale pend_op =
  fixes os :: "'e \<Rightarrow> ('k, 'c, 'r) code"
    and ds :: "('d, 'c, unit) code"
    and d0 :: 'd
    and arms :: "'k \<Rightarrow> 'k \<Rightarrow> bool"
    and full_arm :: "'k \<Rightarrow> bool"
    and fresh :: "'d \<Rightarrow> bool"
    and backlog :: "'c \<Rightarrow> nat"
  assumes arms_full: "arms f p \<Longrightarrow> full_arm f"
    and full_next: "full_arm k \<Longrightarrow> os e k c = Some (c', Inl k') \<Longrightarrow> full_arm k'"
    and full_silent: "full_arm k \<Longrightarrow> os e k c = Some (c', x) \<Longrightarrow> backlog c = 0 \<Longrightarrow> backlog c' = 0"
    and drain_start: "fresh d0"
    and drain_next: "ds d c = Some (c', Inl d') \<Longrightarrow> backlog c = 0 \<or> fresh d \<Longrightarrow> backlog c' = 0 \<or> fresh d'"
    and drain_done: "ds d c = Some (c', Inr u) \<Longrightarrow> backlog c = 0 \<or> fresh d \<Longrightarrow> backlog c' = 0"
begin

text \<open>An access that is bound to raise the flag, or to take the recorded intents over.\<close>

definition settles :: "('k, 'd, 'r) guard_pc \<Rightarrow> bool" where
  "settles pc \<longleftrightarrow> will_flag pc \<or> (case pc of InDrain d _ \<Rightarrow> fresh d | _ \<Rightarrow> False)"

definition arm_ok :: "('k, 'd, 'r) guard_pc \<Rightarrow> bool" where
  "arm_ok pc \<longleftrightarrow> (case pc of AtGuard f _ \<Rightarrow> full_arm f | InOp held k \<Rightarrow> held \<longrightarrow> full_arm k | _ \<Rightarrow> True)"

lemma arm_ok_step: "arm_ok pc \<Longrightarrow> guard_step (os e) ds d0 l pc = Some (l', pc') \<Longrightarrow> arm_ok pc'"
  by (cases pc) (auto simp: arm_ok_def dest: full_next dest!: guard_cases
    split: option.splits sum.splits prod.splits if_splits)

lemma settled_step:
  assumes "arm_ok pc" and "guard_step (os e) ds d0 l pc = Some (l', pc')"
    and "backlog (content l) = 0 \<or> pending l \<or> settles pc"
  shows "backlog (content l') = 0 \<or> pending l' \<or> settles pc'"
  using assms
  by (cases pc) (auto simp: settles_def arm_ok_def drain_start
    dest: full_silent drain_next drain_done dest!: guard_cases
    split: option.splits sum.splits prod.splits if_splits)

lemma unsettled_step:
  assumes "guard_step (os e) ds d0 l pc = Some (l', pc')" and "pending l"
  shows "pending l' \<or> settles pc' \<or> (\<exists>r. pc = AtSwap r)"
  using assms by (cases pc) (auto dest!: guard_cases
    split: option.splits sum.splits prod.splits if_splits)

end

section \<open>An access that is not interrupted\<close>

inductive guard_runs ::
  "('k, 'c, 'r) code \<Rightarrow> ('d, 'c, unit) code \<Rightarrow> 'd \<Rightarrow> 'c soft_lock \<Rightarrow> ('k, 'd, 'r) guard_pc
     \<Rightarrow> 'c soft_lock \<Rightarrow> 'r \<Rightarrow> bool"
  for os ds d0 where
  guard_runs_return: "guard_runs os ds d0 l (Returned r) l r"
| guard_runs_next: "guard_step os ds d0 l pc = Some (l1, pc1) \<Longrightarrow> guard_runs os ds d0 l1 pc1 l' r
     \<Longrightarrow> guard_runs os ds d0 l pc l' r"

text \<open>
  The contract of \<open>with_access\<close> in one equation: \<open>full\<close>, \<open>pend\<close> and \<open>drain\<close> are what the two
  arms of the closure and \<open>run_pended_op\<close> compute when nothing interrupts them.
\<close>

definition with_access_spec ::
  "('c \<Rightarrow> 'c \<times> 'r) \<Rightarrow> ('c \<Rightarrow> 'c \<times> 'r) \<Rightarrow> ('c \<Rightarrow> 'c) \<Rightarrow> 'c soft_lock \<Rightarrow> 'c soft_lock \<times> 'r" where
  "with_access_spec full pend drain l =
     (if locked l
      then (case pend (content l) of (c, r) \<Rightarrow> (l\<lparr>content := c, pending := True\<rparr>, r))
      else (case full (content l) of (c, r) \<Rightarrow>
              (l\<lparr>content := if pending l then drain c else c, pending := False, locked := False\<rparr>, r)))"

text \<open>
  Simplification unfolds a run by one instruction wherever the next instruction is known;
  the run is over at \<open>Returned\<close>.
\<close>

lemma guard_runs_first:
  "guard_step os ds d0 l pc = Some (l1, pc1) \<Longrightarrow>
   guard_runs os ds d0 l pc l' r \<longleftrightarrow> guard_runs os ds d0 l1 pc1 l' r"
  by (auto elim: guard_runs.cases intro: guard_runs_next)

lemma guard_runs_op:
  assumes "runs os k c c' r"
    and "guard_runs os ds d0 (l\<lparr>content := c'\<rparr>) (if held then AtSwap r else AtPendStore r) l' r"
  shows "guard_runs os ds d0 (l\<lparr>content := c\<rparr>) (InOp held k) l' r"
  using assms
proof (induction rule: runs.induct)
  case (runs_return k c c' r)
  then show ?case by (simp add: guard_runs_first)
next
  case (runs_next k c c1 k1 c' r)
  from runs_next.IH [OF runs_next.prems] runs_next.hyps(1) show ?case
    by (simp add: guard_runs_first)
qed

lemma guard_runs_drain:
  assumes "runs ds d c c' u" and "guard_runs os ds d0 (l\<lparr>content := c'\<rparr>) (AtRelease r) l' r"
  shows "guard_runs os ds d0 (l\<lparr>content := c\<rparr>) (InDrain d r) l' r"
  using assms
proof (induction rule: runs.induct)
  case (runs_return k c c' u)
  then show ?case by (simp add: guard_runs_first)
next
  case (runs_next k c c1 k1 c' u)
  from runs_next.IH [OF runs_next.prems] runs_next.hyps(1) show ?case
    by (simp add: guard_runs_first)
qed

lemma guard_runs_release:
  "\<not> pending l \<Longrightarrow> guard_runs os ds d0 l (AtRelease r) (l\<lparr>locked := False\<rparr>) r"
  by (simp add: guard_runs_first guard_runs_return)

lemma guard_runs_swap:
  assumes "pending l \<Longrightarrow> runs ds d0 (content l) (drain (content l)) ()"
  shows "guard_runs os ds d0 l (AtSwap r)
    (l\<lparr>content := if pending l then drain (content l) else content l, pending := False, locked := False\<rparr>) r"
proof (cases "pending l")
  case True
  let ?l = "l\<lparr>pending := False\<rparr>"
  have "guard_runs os ds d0 (?l\<lparr>content := content l\<rparr>) (InDrain d0 r)
      (?l\<lparr>content := drain (content l), locked := False\<rparr>) r"
    by (rule guard_runs_drain [OF assms [OF True]], rule guard_runs_release) simp
  with True show ?thesis by (cases l) (simp add: guard_runs_first)
next
  case False
  with guard_runs_release [of "l\<lparr>pending := False\<rparr>" os ds d0 r] show ?thesis
    by (simp add: guard_runs_first)
qed

lemma guard_runs_with_access:
  assumes full: "\<not> locked l \<Longrightarrow> runs os f (content l) (fst (full (content l))) (snd (full (content l)))"
    and pend: "locked l \<Longrightarrow> runs os p (content l) (fst (pend (content l))) (snd (pend (content l)))"
    and drain: "\<not> locked l \<Longrightarrow> pending l \<Longrightarrow>
      runs ds d0 (fst (full (content l))) (drain (fst (full (content l)))) ()"
  shows "guard_runs os ds d0 l (AtGuard f p)
    (fst (with_access_spec full pend drain l)) (snd (with_access_spec full pend drain l))"
proof (cases "locked l")
  case True
  obtain c r where cr: "pend (content l) = (c, r)" by force
  have "guard_runs os ds d0 (l\<lparr>content := c\<rparr>) (AtPendStore r) (l\<lparr>content := c, pending := True\<rparr>) r"
    by (simp add: guard_runs_first guard_runs_return)
  then have "guard_runs os ds d0 (l\<lparr>content := content l\<rparr>) (InOp False p)
      (l\<lparr>content := c, pending := True\<rparr>) r"
    using pend [OF True] cr by (intro guard_runs_op) auto
  with True cr show ?thesis
    by (simp add: guard_runs_first with_access_spec_def guard_simps)
next
  case False
  obtain c r where cr: "full (content l) = (c, r)" by force
  let ?l = "l\<lparr>locked := True\<rparr>"
  have "guard_runs os ds d0 (?l\<lparr>content := c\<rparr>) (AtSwap r)
      (?l\<lparr>content := if pending l then drain c else c, pending := False, locked := False\<rparr>) r"
    using guard_runs_swap [of "?l\<lparr>content := c\<rparr>" ds d0 drain os r] drain [OF False] cr
    by (cases l) (simp split: if_splits)
  then have "guard_runs os ds d0 (?l\<lparr>content := content l\<rparr>) (InOp True f)
      (?l\<lparr>content := if pending l then drain c else c, pending := False, locked := False\<rparr>) r"
    using full [OF False] cr by (intro guard_runs_op) auto
  with False cr show ?thesis
    by (simp add: guard_runs_first with_access_spec_def guard_simps)
qed

lemma guard_step_Returned [simp]: "guard_step os ds d0 l (Returned r) = None"
  by simp

lemma guard_runs_deterministic:
  "guard_runs os ds d0 l pc l1 r1 \<Longrightarrow> guard_runs os ds d0 l pc l2 r2 \<Longrightarrow> l1 = l2 \<and> r1 = r2"
proof (induction rule: guard_runs.induct)
  case (guard_runs_return l r)
  then show ?case by (auto elim: guard_runs.cases)
next
  case (guard_runs_next l pc l1 pc1 l' r)
  from guard_runs_next.prems guard_runs_next.hyps(1) have "guard_runs os ds d0 l1 pc1 l2 r2"
    by (auto elim: guard_runs.cases)
  then show ?case by (rule guard_runs_next.IH)
qed

text \<open>The uninterrupted access as an equation: it returns, and with one result only.\<close>

lemma guard_runs_with_access_iff:
  assumes "\<not> locked l \<Longrightarrow> runs os f (content l) (fst (full (content l))) (snd (full (content l)))"
    and "locked l \<Longrightarrow> runs os p (content l) (fst (pend (content l))) (snd (pend (content l)))"
    and "\<not> locked l \<Longrightarrow> pending l \<Longrightarrow>
      runs ds d0 (fst (full (content l))) (drain (fst (full (content l)))) ()"
  shows "guard_runs os ds d0 l (AtGuard f p) l' r \<longleftrightarrow> (l', r) = with_access_spec full pend drain l"
proof -
  have "guard_runs os ds d0 l (AtGuard f p)
      (fst (with_access_spec full pend drain l)) (snd (with_access_spec full pend drain l))"
    using assms by (rule guard_runs_with_access)
  then show ?thesis by (metis guard_runs_deterministic prod.collapse prod.inject)
qed

end
