(* ===== verification/DemoInner.thy ===== *)
theory DemoInner
  imports SoftLock
begin

text \<open>
  The content that the demo puts under the soft-lock: \<open>DemoInner\<close> with its Full and PendOnly
  accessors (\<^verbatim>\<open>softlock-std-demo/src/main.rs\<close>). Each accessor function is given as code, one
  atomic operation per step (\<open>_code\<close>), and by what it computes alone (\<open>_spec\<close>); the
  \<open>Mutex<VecDeque<u64>>\<close> is the queue together with its lock bit, whose \<open>lock()\<close> blocks.
\<close>

section \<open>State\<close>

record demo_inner =
  pending_submit :: usize
  queue :: "u64 list"
  queue_locked :: bool
  next_id :: u64
  processed :: usize
  drained_items :: usize
  drained_batches :: usize
  direct_items :: usize
  full_entries :: usize
  pend_entries :: usize

definition demo_inner_new :: demo_inner where
  "demo_inner_new =
     \<lparr>pending_submit = 0, queue = [], queue_locked = False, next_id = 1, processed = 0,
      drained_items = 0, drained_batches = 0, direct_items = 0, full_entries = 0, pend_entries = 0\<rparr>"

section \<open>The Full accessor\<close>

text \<open>
  \<open>submit_direct\<close>: take an id, lock the queue, push, count; the queue guard is dropped at
  the end of the function.
\<close>

datatype submit_pc = SdNext | SdLock u64 | SdPush u64 | SdCount | SdUnlock

fun submit_direct_code :: "(submit_pc, demo_inner, unit) code" where
  "submit_direct_code SdNext c = Some (c\<lparr>next_id := next_id c + 1\<rparr>, Inl (SdLock (next_id c)))"
| "submit_direct_code (SdLock i) c =
     (if queue_locked c then None else Some (c\<lparr>queue_locked := True\<rparr>, Inl (SdPush i)))"
| "submit_direct_code (SdPush i) c = Some (c\<lparr>queue := queue c @ [i]\<rparr>, Inl SdCount)"
| "submit_direct_code SdCount c = Some (c\<lparr>direct_items := direct_items c + 1\<rparr>, Inl SdUnlock)"
| "submit_direct_code SdUnlock c = Some (c\<lparr>queue_locked := False\<rparr>, Inr ())"

text \<open>
  \<open>process_some(budget)\<close>: the program points of the loop carry the remaining budget and
  \<open>processed_now\<close>.
\<close>

datatype process_pc = PsLock usize | PsPop usize usize | PsCount usize usize | PsUnlock usize

fun process_some_code :: "(process_pc, demo_inner, usize) code" where
  "process_some_code (PsLock budget) c =
     (if queue_locked c then None else Some (c\<lparr>queue_locked := True\<rparr>, Inl (PsPop budget 0)))"
| "process_some_code (PsPop budget now) c =
     (if budget > 0 then
        (case queue c of
           [] \<Rightarrow> Some (c, Inl (PsUnlock now))
         | _ # q \<Rightarrow> Some (c\<lparr>queue := q\<rparr>, Inl (PsCount budget now)))
      else Some (c, Inl (PsUnlock now)))"
| "process_some_code (PsCount budget now) c =
     Some (c\<lparr>processed := processed c + 1\<rparr>, Inl (PsPop (budget - 1) (now + 1)))"
| "process_some_code (PsUnlock now) c = Some (c\<lparr>queue_locked := False\<rparr>, Inr now)"

text \<open>\<open>queue_len\<close>.\<close>

datatype len_pc = QlLock | QlLen | QlUnlock usize

fun queue_len_code :: "(len_pc, demo_inner, usize) code" where
  "queue_len_code QlLock c =
     (if queue_locked c then None else Some (c\<lparr>queue_locked := True\<rparr>, Inl QlLen))"
| "queue_len_code QlLen c = Some (c, Inl (QlUnlock (of_nat (length (queue c)))))"
| "queue_len_code (QlUnlock n) c = Some (c\<lparr>queue_locked := False\<rparr>, Inr n)"

text \<open>
  \<open>run_pended_op\<close>: take the whole count over; for each intent, one id and one push. The loop's
  program points carry the number of iterations that remain.
\<close>

datatype drain_pc = RpSwap | RpBatches usize | RpItems usize | RpLock usize | RpNext usize
  | RpPush usize u64

fun run_pended_op_code :: "(drain_pc, demo_inner, unit) code" where
  "run_pended_op_code RpSwap c =
     Some (c\<lparr>pending_submit := 0\<rparr>,
       if pending_submit c = 0 then Inr () else Inl (RpBatches (pending_submit c)))"
| "run_pended_op_code (RpBatches n) c =
     Some (c\<lparr>drained_batches := drained_batches c + 1\<rparr>, Inl (RpItems n))"
| "run_pended_op_code (RpItems n) c =
     Some (c\<lparr>drained_items := drained_items c + n\<rparr>, Inl (RpLock n))"
| "run_pended_op_code (RpLock n) c =
     (if queue_locked c then None else Some (c\<lparr>queue_locked := True\<rparr>, Inl (RpNext n)))"
| "run_pended_op_code (RpNext n) c =
     (if n = 0 then Some (c\<lparr>queue_locked := False\<rparr>, Inr ())
      else Some (c\<lparr>next_id := next_id c + 1\<rparr>, Inl (RpPush (n - 1) (next_id c))))"
| "run_pended_op_code (RpPush n i) c = Some (c\<lparr>queue := queue c @ [i]\<rparr>, Inl (RpNext n))"

section \<open>The PendOnly accessor\<close>

definition pend_submit :: "demo_inner \<Rightarrow> demo_inner" where
  "pend_submit c = c\<lparr>pending_submit := pending_submit c + 1\<rparr>"

section \<open>What the accessor functions compute when nothing interrupts them\<close>

definition submit_direct_spec :: "demo_inner \<Rightarrow> demo_inner" where
  "submit_direct_spec c =
     c\<lparr>queue := queue c @ [next_id c], next_id := next_id c + 1, direct_items := direct_items c + 1\<rparr>"

definition process_some_spec :: "usize \<Rightarrow> demo_inner \<Rightarrow> demo_inner \<times> usize" where
  "process_some_spec budget c =
     (let k = min (unat budget) (length (queue c))
      in (c\<lparr>queue := drop k (queue c), processed := processed c + of_nat k\<rparr>, of_nat k))"

definition run_pended_op_spec :: "demo_inner \<Rightarrow> demo_inner" where
  "run_pended_op_spec c =
     (let n = pending_submit c
      in if n = 0 then c
         else c\<lparr>pending_submit := 0, drained_batches := drained_batches c + 1,
                drained_items := drained_items c + n,
                queue := queue c @ ids (next_id c) (unat n), next_id := next_id c + n\<rparr>)"

lemma submit_direct_runs:
  "\<not> queue_locked c \<Longrightarrow> runs submit_direct_code SdNext c (submit_direct_spec c) ()"
  by (cases c) (simp add: runs_step runs_last submit_direct_spec_def)

lemma queue_len_runs:
  "\<not> queue_locked c \<Longrightarrow> runs queue_len_code QlLock c c (of_nat (length (queue c)))"
  by (cases c) (simp add: runs_step runs_last)

lemma drain_loop_runs:
  "queue_locked c \<Longrightarrow> runs run_pended_op_code (RpNext n) c
     (c\<lparr>queue := queue c @ ids (next_id c) (unat n), next_id := next_id c + n, queue_locked := False\<rparr>) ()"
proof (induction "unat n" arbitrary: n c)
  case 0
  then have "n = 0" by (simp add: unat_eq_zero)
  then show ?case by (cases c) (simp add: runs_last)
next
  case (Suc m)
  then have nz: "n \<noteq> 0" by auto
  then have m: "m = unat (n - 1)" using Suc.hyps(2) by (simp add: unat_dec)
  have n: "unat n = Suc (unat (n - 1))" using Suc.hyps(2) m by simp
  let ?c = "c\<lparr>next_id := next_id c + 1, queue := queue c @ [next_id c]\<rparr>"
  have "runs run_pended_op_code (RpNext (n - 1)) ?c
      (?c\<lparr>queue := queue ?c @ ids (next_id ?c) (unat (n - 1)), next_id := next_id ?c + (n - 1),
          queue_locked := False\<rparr>) ()"
    by (rule Suc.hyps(1) [OF m]) (simp add: Suc.prems)
  with nz show ?case unfolding n by (cases c) (simp add: runs_step ids_Suc_Cons)
qed

lemma run_pended_op_runs:
  assumes "\<not> queue_locked c"
  shows "runs run_pended_op_code RpSwap c (run_pended_op_spec c) ()"
proof (cases "pending_submit c = 0")
  case True
  then show ?thesis by (cases c) (simp add: runs_last run_pended_op_spec_def)
next
  case False
  let ?n = "pending_submit c"
  let ?c = "c\<lparr>pending_submit := 0, drained_batches := drained_batches c + 1,
     drained_items := drained_items c + ?n, queue_locked := True\<rparr>"
  from drain_loop_runs [of ?c ?n] assms False show ?thesis
    by (cases c) (simp add: runs_step run_pended_op_spec_def Let_def)
qed

lemma process_loop_runs:
  "queue_locked c \<Longrightarrow>
   runs process_some_code (PsPop budget now) c
     (c\<lparr>queue := drop (unat budget) (queue c),
        processed := processed c + of_nat (min (unat budget) (length (queue c))), queue_locked := False\<rparr>)
     (now + of_nat (min (unat budget) (length (queue c))))"
proof (induction "queue c" arbitrary: budget now c)
  case Nil
  then show ?case by (cases c) (cases "budget > 0"; simp add: runs_step runs_last)
next
  case (Cons x q)
  show ?case
  proof (cases "budget = 0")
    case True
    with Cons show ?thesis by (cases c) (simp add: runs_step runs_last)
  next
    case False
    then have b: "unat budget = Suc (unat (budget - 1))"
      by (rule unat_Suc_dec)
    let ?c = "c\<lparr>queue := q, processed := processed c + 1\<rparr>"
    have "runs process_some_code (PsPop (budget - 1) (now + 1)) ?c
       (?c\<lparr>queue := drop (unat (budget - 1)) (queue ?c),
           processed := processed ?c + of_nat (min (unat (budget - 1)) (length (queue ?c))),
           queue_locked := False\<rparr>)
       (now + 1 + of_nat (min (unat (budget - 1)) (length (queue ?c))))"
      by (rule Cons.hyps(1)) (simp_all add: Cons.prems)
    with False Cons.hyps(2) [symmetric] show ?thesis unfolding b
      by (cases c) (simp add: runs_step word_gt_0 add_ac)
  qed
qed

lemma process_some_runs:
  assumes "\<not> queue_locked c"
  shows "runs process_some_code (PsLock budget) c
    (fst (process_some_spec budget c)) (snd (process_some_spec budget c))"
proof -
  have "drop (min (unat budget) (length (queue c))) (queue c) = drop (unat budget) (queue c)"
    by (simp add: min_def)
  with process_loop_runs [of "c\<lparr>queue_locked := True\<rparr>" budget 0] assms show ?thesis
    by (cases c) (simp add: runs_step process_some_spec_def Let_def)
qed

lemma spec_frames [simp]:
  "queue_locked (submit_direct_spec c) = queue_locked c"
  "queue_locked (fst (process_some_spec b c)) = queue_locked c"
  "queue_locked (run_pended_op_spec c) = queue_locked c"
  by (simp_all add: submit_direct_spec_def process_some_spec_def run_pended_op_spec_def Let_def)

end
