(* ===== verification/Scenario.thy ===== *)
theory Scenario
  imports Prelude
begin

text \<open>
  The scenario of both benchmarks of \<^verbatim>\<open>softlock-std-demo/src/main.rs\<close>: its parameters, the total number
  of operations as the code computes it (with machine arithmetic) and as a number, and the three
  scenarios that \<open>main\<close> runs.
\<close>

record scenario =
  scenario_name :: string
  producers :: usize
  ops_per_producer :: usize
  producer_pause_every :: usize
  consumer_budget :: usize
  consumer_hold_spin :: usize

definition total_ops_of :: "scenario \<Rightarrow> usize" where
  "total_ops_of s = producers s * ops_per_producer s"

definition total_nat :: "scenario \<Rightarrow> nat" where
  "total_nat s = unat (producers s) * unat (ops_per_producer s)"

text \<open>
  \<open>spin_n\<close>: a program point of the caller's loop with \<open>n\<close> iterations left goes on to \<open>after\<close> or to the
  point with one iteration less; an iteration is the processor hint \<open>spin_loop\<close> and touches nothing.
\<close>

definition spin_n :: "usize \<Rightarrow> 'k \<Rightarrow> (usize \<Rightarrow> 'k) \<Rightarrow> 'k" where
  [simp]: "spin_n n after again = (if n = 0 then after else again (n - 1))"

text \<open>
  The only condition on a scenario: its total number of operations, and with it every counter
  and the next id, stay below the range of \<open>usize\<close>.
\<close>

definition fits :: "scenario \<Rightarrow> bool" where
  "fits s \<longleftrightarrow> total_nat s + 2 < 2 ^ 64"

lemma fits_int:
  assumes "fits s"
  shows "int (total_nat s) < 2 ^ 64 - 2"
proof -
  have "int (total_nat s + 2) < int (2 ^ 64)" using assms unfolding fits_def by (simp only: of_nat_less_iff)
  then show ?thesis by simp
qed

lemma uint_total:
  assumes "fits s"
  shows "uint (total_ops_of s) = int (total_nat s)"
proof -
  have "int (total_nat s) < 2 ^ 64" using assms unfolding fits_def by simp
  then have "uint (producers s) * uint (ops_per_producer s) < 2 ^ 64" by (simp add: total_nat_def)
  then show ?thesis
    by (simp add: total_ops_of_def total_nat_def uint_word_ariths)
qed

text \<open>The consumer can serve: its budget is not 0, or there is nothing to serve.\<close>

definition can_serve :: "scenario \<Rightarrow> bool" where
  "can_serve s \<longleftrightarrow> consumer_budget s \<noteq> 0 \<or> total_ops_of s = 0"

lemma can_serve_iff:
  assumes "fits s"
  shows "can_serve s \<longleftrightarrow> consumer_budget s \<noteq> 0 \<or> total_nat s = 0"
proof -
  have "total_ops_of s = 0 \<longleftrightarrow> total_nat s = 0"
    using uint_total [OF assms] by (metis of_nat_eq_0_iff uint_0_iff)
  then show ?thesis by (simp add: can_serve_def)
qed

text \<open>The table in \<open>main\<close>.\<close>

definition main_scenarios :: "scenario list" where
  "main_scenarios =
     [\<lparr>scenario_name = ''Low contention, tiny critical work'', producers = 2, ops_per_producer = 200000,
        producer_pause_every = 1024, consumer_budget = 64, consumer_hold_spin = 0\<rparr>,
      \<lparr>scenario_name = ''High contention, tiny critical work'', producers = 8, ops_per_producer = 200000,
        producer_pause_every = 0, consumer_budget = 64, consumer_hold_spin = 0\<rparr>,
      \<lparr>scenario_name = ''High contention, heavy full-holder critical section'', producers = 8,
        ops_per_producer = 200000, producer_pause_every = 0, consumer_budget = 64,
        consumer_hold_spin = 700\<rparr>]"

lemma main_scenarios_fit: "s \<in> set main_scenarios \<Longrightarrow> fits s"
  by (auto simp: main_scenarios_def fits_def total_nat_def)

end
