(* ===== verification/SoftLockThreads.thy ===== *)
theory SoftLockThreads
  imports SoftLock
begin

text \<open>
  The soft-lock used by any number of threads under an arbitrary scheduler: mutual
  exclusion of Full access, the accounting of recorded intents (the contract of
  \<open>AllowPendOp\<close> and \<open>RunPendedOp\<close> as a locale), and what a solo access computes.
\<close>

section \<open>Threads that access one lock\<close>

record ('t, 'c, 'k, 'd, 'r) world =
  lk :: "'c soft_lock"
  act :: "'t \<Rightarrow> ('k, 'd, 'r) guard_pc option"

text \<open>
  One step of one thread: it calls \<open>with_access\<close> with a closure (its two arms, restricted by
  \<open>arms\<close>), executes one instruction of the call, or leaves it. The code of the closures may
  also read an environment \<open>e\<close> that other threads change at any time.
\<close>

inductive access_step ::
  "('e \<Rightarrow> ('k, 'c, 'r) code) \<Rightarrow> ('d, 'c, unit) code \<Rightarrow> 'd \<Rightarrow> ('k \<Rightarrow> 'k \<Rightarrow> bool)
     \<Rightarrow> ('t, 'c, 'k, 'd, 'r) world \<Rightarrow> ('t, 'c, 'k, 'd, 'r) world \<Rightarrow> bool"
  for os ds d0 arms where
  enter: "act w t = None \<Longrightarrow> arms f p \<Longrightarrow>
     access_step os ds d0 arms w (w\<lparr>act := (act w)(t \<mapsto> AtGuard f p)\<rparr>)"
| run: "act w t = Some pc \<Longrightarrow> guard_step (os e) ds d0 (lk w) pc = Some (l', pc') \<Longrightarrow>
     access_step os ds d0 arms w (w\<lparr>lk := l', act := (act w)(t \<mapsto> pc')\<rparr>)"
| leave: "act w t = Some (Returned r) \<Longrightarrow>
     access_step os ds d0 arms w (w\<lparr>act := (act w)(t := None)\<rparr>)"

definition world_new :: "'c \<Rightarrow> ('t, 'c, 'k, 'd, 'r) world" where
  "world_new c = \<lparr>lk = soft_lock_new c, act = (\<lambda>_. None)\<rparr>"

inductive access_reach ::
  "('e \<Rightarrow> ('k, 'c, 'r) code) \<Rightarrow> ('d, 'c, unit) code \<Rightarrow> 'd \<Rightarrow> ('k \<Rightarrow> 'k \<Rightarrow> bool) \<Rightarrow> 'c
     \<Rightarrow> ('t, 'c, 'k, 'd, 'r) world \<Rightarrow> bool"
  for os ds d0 arms c0 where
  reach_new: "access_reach os ds d0 arms c0 (world_new c0)"
| reach_step: "access_reach os ds d0 arms c0 w \<Longrightarrow> access_step os ds d0 arms w w'
     \<Longrightarrow> access_reach os ds d0 arms c0 w'"

section \<open>Mutual exclusion\<close>

text \<open>Thread \<open>t\<close> owns Full access.\<close>

definition full_holder :: "('t, 'c, 'k, 'd, 'r) world \<Rightarrow> 't \<Rightarrow> bool" where
  "full_holder w t = (case act w t of None \<Rightarrow> False | Some pc \<Rightarrow> holds pc)"

definition lock_inv :: "('t, 'c, 'k, 'd, 'r) world \<Rightarrow> bool" where
  "lock_inv w \<longleftrightarrow> (locked (lk w) \<longleftrightarrow> (\<exists>t. full_holder w t)) \<and>
     (\<forall>t u. full_holder w t \<longrightarrow> full_holder w u \<longrightarrow> t = u)"

lemma full_holder_upd:
  "full_holder (w\<lparr>act := (act w)(t := x)\<rparr>) = (full_holder w)(t := case x of None \<Rightarrow> False | Some pc \<Rightarrow> holds pc)"
  "full_holder (w\<lparr>lk := l', act := (act w)(t := x)\<rparr>) =
     (full_holder w)(t := case x of None \<Rightarrow> False | Some pc \<Rightarrow> holds pc)"
  by (auto simp: full_holder_def fun_eq_iff)

lemma lock_inv_new: "lock_inv (world_new c)"
  by (simp add: lock_inv_def world_new_def soft_lock_new_def full_holder_def)

lemma lock_inv_step:
  assumes "access_step os ds d0 arms w w'" and "lock_inv w"
  shows "lock_inv w'"
  using assms
proof (induction rule: access_step.induct)
  case (enter w t f p)
  then have "(full_holder w)(t := False) = full_holder w"
    by (auto simp: full_holder_def fun_eq_iff)
  with enter show ?case by (simp add: lock_inv_def full_holder_upd)
next
  case (run w t pc e l' pc')
  note step = guard_step_locked [OF run.hyps(2)]
  have "full_holder w t = holds pc" using run.hyps(1) by (simp add: full_holder_def)
  with run.prems step show ?case
    unfolding lock_inv_def full_holder_upd
    by (intro owner_update [where lo = "locked (lk w)"]) auto
next
  case (leave w t r)
  then have "(full_holder w)(t := False) = full_holder w"
    by (auto simp: full_holder_def fun_eq_iff)
  with leave show ?case by (simp add: lock_inv_def full_holder_upd)
qed

lemma lock_inv_reach: "access_reach os ds d0 arms c0 w \<Longrightarrow> lock_inv w"
  by (induction rule: access_reach.induct) (auto intro: lock_inv_new lock_inv_step)

section \<open>Recorded intents under threads\<close>

context pend_op
begin

definition flag_inv :: "('t, 'c, 'k, 'd, 'r) world \<Rightarrow> bool" where
  "flag_inv w \<longleftrightarrow>
     (\<forall>t pc. act w t = Some pc \<longrightarrow> arm_ok pc) \<and>
     (backlog (content (lk w)) = 0 \<or> pending (lk w) \<or> (\<exists>t pc. act w t = Some pc \<and> settles pc))"

lemma settler_kept:
  assumes "a u = Some qc" "settles qc" and "\<And>pc. a t = Some pc \<Longrightarrow> \<not> settles pc"
  shows "\<exists>u qc. (a(t := x)) u = Some qc \<and> settles qc"
  using assms by (intro exI [of _ u] exI [of _ qc]) auto

lemma flag_inv_upd:
  assumes "flag_inv w" and "\<And>pc. act w t = Some pc \<Longrightarrow> \<not> settles pc" and "\<And>pc. x = Some pc \<Longrightarrow> arm_ok pc"
  shows "flag_inv (w\<lparr>act := (act w)(t := x)\<rparr>)"
proof -
  have arms: "arm_ok pc" if "((act w)(t := x)) u = Some pc" for u pc
    using that assms(1,3) by (cases "u = t") (auto simp: flag_inv_def)
  have "\<exists>u qc. ((act w)(t := x)) u = Some qc \<and> settles qc" if "act w u = Some qc" "settles qc" for u qc
    using settler_kept [of "act w" u qc t x] that assms(2) by blast
  with assms(1) have "backlog (content (lk w)) = 0 \<or> pending (lk w) \<or>
      (\<exists>u qc. ((act w)(t := x)) u = Some qc \<and> settles qc)"
    unfolding flag_inv_def by blast
  with arms show ?thesis by (simp add: flag_inv_def del: fun_upd_apply)
qed

lemma flag_inv_new: "backlog c = 0 \<Longrightarrow> flag_inv (world_new c)"
  by (simp add: flag_inv_def world_new_def soft_lock_new_def)

lemma flag_inv_step:
  assumes "access_step os ds d0 arms w w'" and "flag_inv w"
  shows "flag_inv w'"
  using assms
proof (induction rule: access_step.induct)
  case (enter w t f p)
  then show ?case
    by (intro flag_inv_upd) (auto simp: arm_ok_def dest: arms_full)
next
  case (run w t pc e l' pc')
  from run.prems run.hyps(1) have ok: "arm_ok pc" by (simp add: flag_inv_def)
  have "backlog (content l') = 0 \<or> pending l' \<or>
      (\<exists>u qc. ((act w)(t \<mapsto> pc')) u = Some qc \<and> settles qc)"
  proof (cases "backlog (content (lk w)) = 0 \<or> pending (lk w) \<or> settles pc")
    case True
    from settled_step [OF ok run.hyps(2) True] show ?thesis by auto
  next
    case False
    with run.prems obtain u qc where "act w u = Some qc" "settles qc" by (auto simp: flag_inv_def)
    with False run.hyps(1) show ?thesis
      using settler_kept [of "act w" u qc t "Some pc'"] by auto
  qed
  with run.prems arm_ok_step [OF ok run.hyps(2)] show ?case
    by (auto simp: flag_inv_def)
next
  case (leave w t r)
  then show ?case by (intro flag_inv_upd) (auto simp: settles_def)
qed

lemma flag_inv_reach:
  "access_reach os ds d0 arms c0 w \<Longrightarrow> backlog c0 = 0 \<Longrightarrow> flag_inv w"
  by (induction rule: access_reach.induct) (auto intro: flag_inv_new flag_inv_step)

text \<open>
  What the protocol guarantees to threads: when no access is in progress, work that is still
  recorded is announced by the pending flag, so the next Full access will run it.
\<close>

lemma quiescent_backlog_flagged:
  assumes "access_reach os ds d0 arms c0 w" and "backlog c0 = 0"
    and "\<And>t pc. act w t = Some pc \<Longrightarrow> \<exists>r. pc = Returned r" and "0 < backlog (content (lk w))"
  shows "pending (lk w)"
  using flag_inv_reach [OF assms(1,2)] assms(3,4) by (force simp: flag_inv_def settles_def)

end

section \<open>Data owned through the lock\<close>

text \<open>
  The contract that makes Full access worth having: while nobody owns the lock the content
  satisfies \<open>res\<close>; the owner may break it and finds it at every program point in the state
  its own code left it in (\<open>own\<close>, \<open>own_drain\<close>), because the PendOnly arms of the others do
  not touch what these predicates speak about.
\<close>

locale exclusive =
  fixes os :: "'e \<Rightarrow> ('k, 'c, 'r) code"
    and ds :: "('d, 'c, unit) code"
    and d0 :: 'd
    and arms :: "'k \<Rightarrow> 'k \<Rightarrow> bool"
    and pend_arm :: "'k \<Rightarrow> bool"
    and own :: "'k \<Rightarrow> 'c \<Rightarrow> bool"
    and own_drain :: "'d \<Rightarrow> 'c \<Rightarrow> bool"
    and res :: "'c \<Rightarrow> bool"
  assumes arms_own: "arms f p \<Longrightarrow> res c \<Longrightarrow> own f c"
    and arms_pend: "arms f p \<Longrightarrow> pend_arm p"
    and own_next: "own k c \<Longrightarrow> os e k c = Some (c', Inl k') \<Longrightarrow> own k' c'"
    and own_done: "own k c \<Longrightarrow> os e k c = Some (c', Inr r) \<Longrightarrow> res c'"
    and own_free: "own k c \<Longrightarrow> os e k c \<noteq> None"
    and drain_own: "res c \<Longrightarrow> own_drain d0 c"
    and drain_own_next: "own_drain d c \<Longrightarrow> ds d c = Some (c', Inl d') \<Longrightarrow> own_drain d' c'"
    and drain_own_done: "own_drain d c \<Longrightarrow> ds d c = Some (c', Inr u) \<Longrightarrow> res c'"
    and drain_free: "own_drain d c \<Longrightarrow> ds d c \<noteq> None"
    and pend_next: "pend_arm k \<Longrightarrow> os e k c = Some (c', Inl k') \<Longrightarrow> pend_arm k'"
    and pend_res: "pend_arm k \<Longrightarrow> os e k c = Some (c', x) \<Longrightarrow> res c \<Longrightarrow> res c'"
    and pend_own: "pend_arm k \<Longrightarrow> os e k c = Some (c', x) \<Longrightarrow> own j c \<Longrightarrow> own j c'"
    and pend_own_drain: "pend_arm k \<Longrightarrow> os e k c = Some (c', x) \<Longrightarrow> own_drain d c \<Longrightarrow> own_drain d c'"
    and pend_free: "pend_arm k \<Longrightarrow> os e k c \<noteq> None"
begin

fun region :: "('k, 'd, 'r) guard_pc \<Rightarrow> 'c \<Rightarrow> bool" where
  "region (AtGuard f p) c = arms f p"
| "region (InOp held k) c = (if held then own k c else pend_arm k)"
| "region (InDrain d r) c = own_drain d c"
| "region (AtSwap r) c = res c"
| "region (AtRelease r) c = res c"
| "region pc c = True"

definition region_inv :: "('t, 'c, 'k, 'd, 'r) world \<Rightarrow> bool" where
  "region_inv w \<longleftrightarrow> (\<forall>t pc. act w t = Some pc \<longrightarrow> region pc (content (lk w))) \<and>
     (\<not> locked (lk w) \<longrightarrow> res (content (lk w)))"

lemma region_content: "\<not> holds pc \<Longrightarrow> region pc c \<longleftrightarrow> region pc c'"
  by (cases pc) auto

text \<open>The instruction of an owner, or one that takes or hands back ownership.\<close>

lemma region_owner_step:
  assumes "guard_step (os e) ds d0 l pc = Some (l', pc')" and "region pc (content l)"
    and "\<not> locked l \<longrightarrow> res (content l)" and "holds pc \<Longrightarrow> locked l"
  shows "region pc' (content l')"
    and "holds pc \<Longrightarrow> \<not> locked l' \<Longrightarrow> res (content l')"
proof -
  have "region pc' (content l') \<and> (holds pc \<longrightarrow> \<not> locked l' \<longrightarrow> res (content l'))"
  proof (cases pc)
    case (AtGuard f p)
    with assms show ?thesis by (auto simp: guard_def intro: arms_own arms_pend split: if_splits)
  next
    case (InOp held k)
    with assms show ?thesis
      by (auto split: option.splits sum.splits prod.splits if_splits
          dest: own_next own_done pend_next)
  next
    case (InDrain d r)
    with assms show ?thesis
      by (auto split: option.splits sum.splits prod.splits dest: drain_own_next drain_own_done)
  next
    case (AtReacquire r)
    with assms show ?thesis by (auto simp: guard_def split: if_splits)
  qed (use assms in \<open>auto intro: drain_own split: if_splits\<close>)
  then show "region pc' (content l')" and "holds pc \<Longrightarrow> \<not> locked l' \<Longrightarrow> res (content l')"
    by blast+
qed

text \<open>The instruction of a thread that owns nothing leaves the owner's data alone.\<close>

lemma region_other_step:
  assumes "guard_step (os e) ds d0 l pc = Some (l', pc')" and "region pc (content l)" and "\<not> holds pc"
  shows "region qc (content l) \<Longrightarrow> region qc (content l')"
    and "res (content l) \<Longrightarrow> res (content l')"
proof -
  have *: "content l' = content l \<or>
      (\<exists>k x. pend_arm k \<and> os e k (content l) = Some (content l', x))"
    using assms by (cases pc) (auto dest!: guard_cases
      split: option.splits sum.splits prod.splits if_splits)
  show "region qc (content l) \<Longrightarrow> region qc (content l')"
    using * by (cases qc) (auto split: if_splits dest: pend_res pend_own pend_own_drain)
  show "res (content l) \<Longrightarrow> res (content l')"
    using * by (auto dest: pend_res)
qed

lemma region_inv_step:
  assumes "access_step os ds d0 arms w w'" and "lock_inv w" and "region_inv w"
  shows "region_inv w'"
  using assms
proof (induction rule: access_step.induct)
  case (enter w t f p)
  then show ?case by (auto simp: region_inv_def)
next
  case (run w t pc e l' pc')
  from run.prems(2) run.hyps(1) have reg: "region pc (content (lk w))"
    and free: "\<not> locked (lk w) \<longrightarrow> res (content (lk w))" by (auto simp: region_inv_def)
  have "holds pc \<Longrightarrow> locked (lk w)"
    using run.hyps(1) run.prems(1) by (auto simp: lock_inv_def full_holder_def split: option.splits)
  note own = region_owner_step [OF run.hyps(2) reg free this]
  note other = region_other_step [OF run.hyps(2) reg]
  have others: "region qc (content l')" if "u \<noteq> t" "act w u = Some qc" for u qc
  proof (cases "holds pc")
    case True
    with run.hyps(1) run.prems(1) that have "\<not> holds qc"
      by (auto simp: lock_inv_def full_holder_def split: option.splits)
    with that run.prems(2) show ?thesis
      by (auto simp: region_inv_def region_content [of qc "content l'" "content (lk w)"])
  next
    case False
    with other that run.prems(2) show ?thesis by (auto simp: region_inv_def)
  qed
  have "res (content l')" if "\<not> locked l'"
  proof (cases "holds pc")
    case True
    with own that show ?thesis by simp
  next
    case False
    with guard_step_locked [OF run.hyps(2)] that have "\<not> locked (lk w)" by (auto split: if_splits)
    with False other free show ?thesis by simp
  qed
  with own others show ?case by (auto simp: region_inv_def)
next
  case (leave w t r)
  then show ?case by (auto simp: region_inv_def)
qed

lemma region_inv_reach:
  assumes "access_reach os ds d0 arms c0 w" and "res c0"
  shows "region_inv w"
  using assms
proof (induction rule: access_reach.induct)
  case reach_new
  then show ?case by (simp add: region_inv_def world_new_def soft_lock_new_def)
next
  case (reach_step w w')
  then show ?case by (blast intro: region_inv_step lock_inv_reach)
qed

text \<open>No instruction of an access is ever blocked by a lock inside the content.\<close>

lemma never_blocked:
  assumes "access_reach os ds d0 arms c0 w" and "res c0"
    and "act w t = Some pc" and "guard_step (os e) ds d0 (lk w) pc = None"
  shows "\<exists>r. pc = Returned r"
proof -
  have "region pc (content (lk w))"
    using region_inv_reach [OF assms(1,2)] assms(3) by (simp add: region_inv_def)
  with assms(4) show ?thesis
    by (cases pc) (auto simp: own_free pend_free drain_free guard_def
        split: option.splits sum.splits prod.splits if_splits)
qed

end

section \<open>Accounts\<close>

text \<open>
  A counter of the content lags behind another one while some thread stands between the two
  updates. \<open>weight\<close> is what a thread at a given program point has outstanding; an account is a
  balance of the content that every instruction changes by exactly the change of its thread's
  own weight. \<open>room\<close> is the condition under which the machine arithmetic does not wrap.
\<close>

fun weight :: "('k \<Rightarrow> int) \<Rightarrow> ('d \<Rightarrow> int) \<Rightarrow> ('r \<Rightarrow> int) \<Rightarrow> ('k, 'd, 'r) guard_pc \<Rightarrow> int" where
  "weight wk wd wr (AtGuard f p) = 0"
| "weight wk wd wr (InOp held k) = wk k"
| "weight wk wd wr (InDrain d r) = wd d + wr r"
| "weight wk wd wr (AtSwap r) = wr r"
| "weight wk wd wr (AtRelease r) = wr r"
| "weight wk wd wr (AtRecheck r) = wr r"
| "weight wk wd wr (AtReacquire r) = wr r"
| "weight wk wd wr (AtPendStore r) = wr r"
| "weight wk wd wr (Returned r) = wr r"

definition weight_opt ::
  "('k \<Rightarrow> int) \<Rightarrow> ('d \<Rightarrow> int) \<Rightarrow> ('r \<Rightarrow> int) \<Rightarrow> ('k, 'd, 'r) guard_pc option \<Rightarrow> int" where
  "weight_opt wk wd wr = case_option 0 (weight wk wd wr)"

lemma weight_opt_simps [simp]:
  "weight_opt wk wd wr None = 0"
  "weight_opt wk wd wr (Some pc) = weight wk wd wr pc"
  by (simp_all add: weight_opt_def)

locale accounted =
  fixes os :: "'e \<Rightarrow> ('k, 'c, 'r) code"
    and ds :: "('d, 'c, unit) code"
    and d0 :: 'd
    and arms :: "'k \<Rightarrow> 'k \<Rightarrow> bool"
    and bal :: "'c \<Rightarrow> int"
    and wk :: "'k \<Rightarrow> int"
    and wd :: "'d \<Rightarrow> int"
    and wr :: "'r \<Rightarrow> int"
    and room :: "'k \<Rightarrow> 'c \<Rightarrow> bool"
    and room_drain :: "'d \<Rightarrow> 'c \<Rightarrow> bool"
  assumes arms_zero: "arms f p \<Longrightarrow> wk f = 0 \<and> wk p = 0"
    and op_next: "room k c \<Longrightarrow> os e k c = Some (c', Inl k') \<Longrightarrow> bal c' - wk k' = bal c - wk k"
    and op_done: "room k c \<Longrightarrow> os e k c = Some (c', Inr r) \<Longrightarrow> bal c' - wr r = bal c - wk k"
    and drain_zero: "wd d0 = 0"
    and drain_step: "room_drain d c \<Longrightarrow> ds d c = Some (c', Inl d') \<Longrightarrow> bal c' - wd d' = bal c - wd d"
    and drain_end: "room_drain d c \<Longrightarrow> ds d c = Some (c', Inr u) \<Longrightarrow> bal c' = bal c - wd d"
begin

definition roomy :: "('k, 'd, 'r) guard_pc \<Rightarrow> 'c \<Rightarrow> bool" where
  "roomy pc c = (case pc of AtGuard f p \<Rightarrow> arms f p | InOp _ k \<Rightarrow> room k c | InDrain d _ \<Rightarrow> room_drain d c | _ \<Rightarrow> True)"

lemma balance_step:
  assumes "guard_step (os e) ds d0 l pc = Some (l', pc')" and "roomy pc (content l)"
  shows "bal (content l') - weight wk wd wr pc' = bal (content l) - weight wk wd wr pc"
proof (cases pc)
  case (AtGuard f p)
  with assms show ?thesis by (auto simp: guard_def roomy_def dest: arms_zero split: if_splits)
next
  case (InOp held k)
  with assms show ?thesis
    by (auto simp: roomy_def split: option.splits sum.splits prod.splits if_splits
        dest: op_next op_done)
next
  case (InDrain d r)
  with assms show ?thesis
    by (auto simp: roomy_def split: option.splits sum.splits prod.splits dest: drain_step drain_end)
next
  case (AtReacquire r)
  with assms show ?thesis by (auto simp: guard_def split: if_splits)
qed (use assms in \<open>auto simp: drain_zero split: if_splits\<close>)

text \<open>The same for the whole system: one thread of a finite set moves.\<close>

lemma balance_update:
  assumes "guard_step (os e) ds d0 l pc = Some (l', pc')" and "roomy pc (content l)"
    and "finite T" and "t \<in> T" and "a t = Some pc"
  shows "bal (content l') - (\<Sum>u\<in>T. weight_opt wk wd wr ((a(t \<mapsto> pc')) u)) =
    bal (content l) - (\<Sum>u\<in>T. weight_opt wk wd wr (a u))"
  using balance_step [OF assms(1,2)] assms(5)
  by (simp add: sum_fun_upd [OF assms(3,4)] del: fun_upd_apply)

end

end
