(* ===== verification/SoftLockInterrupts.thy ===== *)
theory SoftLockInterrupts
  imports SoftLock
begin

text \<open>
  The soft-lock under the interrupt discipline that the Hopter design assumes (and that the
  demo's README contrasts with threads): one processor, where an interrupt handler may start
  between any two instructions and runs to its end before the interrupted code continues.
  The accesses in progress form a stack and only its top executes.
\<close>

section \<open>Nested accesses\<close>

type_synonym ('c, 'k, 'd, 'r) nest = "'c soft_lock \<times> ('k, 'd, 'r) guard_pc list"

inductive isr_step ::
  "('e \<Rightarrow> ('k, 'c, 'r) code) \<Rightarrow> ('d, 'c, unit) code \<Rightarrow> 'd \<Rightarrow> ('k \<Rightarrow> 'k \<Rightarrow> bool)
     \<Rightarrow> ('c, 'k, 'd, 'r) nest \<Rightarrow> ('c, 'k, 'd, 'r) nest \<Rightarrow> bool"
  for os ds d0 arms where
  preempt: "arms f p \<Longrightarrow> isr_step os ds d0 arms (l, pcs) (l, AtGuard f p # pcs)"
| execute: "guard_step (os e) ds d0 l pc = Some (l', pc') \<Longrightarrow>
     isr_step os ds d0 arms (l, pc # pcs) (l', pc' # pcs)"
| resume: "isr_step os ds d0 arms (l, Returned r # pcs) (l, pcs)"

inductive isr_reach ::
  "('e \<Rightarrow> ('k, 'c, 'r) code) \<Rightarrow> ('d, 'c, unit) code \<Rightarrow> 'd \<Rightarrow> ('k \<Rightarrow> 'k \<Rightarrow> bool) \<Rightarrow> 'c
     \<Rightarrow> ('c, 'k, 'd, 'r) nest \<Rightarrow> bool"
  for os ds d0 arms c0 where
  isr_new: "isr_reach os ds d0 arms c0 (soft_lock_new c0, [])"
| isr_next: "isr_reach os ds d0 arms c0 w \<Longrightarrow> isr_step os ds d0 arms w w'
     \<Longrightarrow> isr_reach os ds d0 arms c0 w'"

section \<open>The shape of the stack\<close>

text \<open>
  Below a Full owner only accesses that own nothing are suspended; above it only PendOnly
  accesses run; the release loop past the unlocking store is never above an owner.
\<close>

fun nested :: "bool \<Rightarrow> ('k, 'd, 'r) guard_pc list \<Rightarrow> bool" where
  "nested lo [] = (\<not> lo)"
| "nested lo (AtGuard _ _ # pcs) = nested lo pcs"
| "nested lo (Returned _ # pcs) = nested lo pcs"
| "nested lo (AtRecheck _ # pcs) = (\<not> lo \<and> nested False pcs)"
| "nested lo (AtReacquire _ # pcs) = (\<not> lo \<and> nested False pcs)"
| "nested lo (AtPendStore _ # pcs) = (lo \<and> nested True pcs)"
| "nested lo (InOp held _ # pcs) = (lo \<and> nested (\<not> held) pcs)"
| "nested lo (_ # pcs) = (lo \<and> nested False pcs)"

lemma nested_execute:
  assumes "nested (locked l) (pc # pcs)" and "guard_step os ds d0 l pc = Some (l', pc')"
  shows "nested (locked l') (pc' # pcs)"
  using assms
  by (cases pc) (auto dest!: guard_cases split: option.splits sum.splits prod.splits if_splits)

lemma nested_step:
  "isr_step os ds d0 arms w w' \<Longrightarrow> nested (locked (fst w)) (snd w) \<Longrightarrow> nested (locked (fst w')) (snd w')"
  by (induction rule: isr_step.induct) (auto dest: nested_execute)

lemma nested_reach: "isr_reach os ds d0 arms c0 w \<Longrightarrow> nested (locked (fst w)) (snd w)"
  by (induction rule: isr_reach.induct) (auto simp: soft_lock_new_def dest: nested_step)

lemma nested_False_holds: "nested False pcs \<Longrightarrow> pc \<in> set pcs \<Longrightarrow> \<not> holds pc \<and> \<not> will_flag pc"
  by (induction "False" pcs rule: nested.induct) auto

text \<open>The reacquiring compare-and-exchange of the release loop never spins.\<close>

lemma reacquire_free:
  "isr_reach os ds d0 arms c0 (l, AtReacquire r # pcs) \<Longrightarrow> \<not> locked l"
  by (drule nested_reach) simp

section \<open>No intent is lost\<close>

fun releasing :: "('k, 'd, 'r) guard_pc \<Rightarrow> bool" where
  "releasing (AtRecheck _) = True"
| "releasing (AtReacquire _) = True"
| "releasing _ = False"

text \<open>While the lock is free, a raised flag is in sight of a suspended release loop.\<close>

definition watched :: "('c, 'k, 'd, 'r) nest \<Rightarrow> bool" where
  "watched w \<longleftrightarrow> (\<not> locked (fst w) \<longrightarrow> pending (fst w) \<longrightarrow> (\<exists>pc\<in>set (snd w). releasing pc))"

lemma watched_execute:
  assumes "nested (locked l) (pc # pcs)" and "guard_step os ds d0 l pc = Some (l', pc')"
    and "watched (l, pc # pcs)"
  shows "watched (l', pc' # pcs)"
  using assms
  by (cases pc) (auto simp: watched_def dest!: guard_cases
    split: option.splits sum.splits prod.splits if_splits)

lemma watched_step:
  "isr_step os ds d0 arms w w' \<Longrightarrow> nested (locked (fst w)) (snd w) \<Longrightarrow> watched w \<Longrightarrow> watched w'"
proof (induction rule: isr_step.induct)
  case (execute e l pc l' pc' pcs)
  then show ?case
    using watched_execute [OF _ execute.hyps(1)] by simp
qed (auto simp: watched_def)

lemma watched_reach: "isr_reach os ds d0 arms c0 w \<Longrightarrow> watched w"
proof (induction rule: isr_reach.induct)
  case isr_new
  show ?case by (simp add: watched_def soft_lock_new_def)
next
  case (isr_next w w')
  then show ?case by (blast intro: watched_step nested_reach)
qed

context pend_op
begin

definition nest_inv :: "('c, 'k, 'd, 'r) nest \<Rightarrow> bool" where
  "nest_inv w \<longleftrightarrow> (\<forall>pc\<in>set (snd w). arm_ok pc) \<and>
     (backlog (content (fst w)) = 0 \<or> pending (fst w) \<or> (\<exists>pc\<in>set (snd w). settles pc))"

lemma nest_inv_step:
  assumes "isr_step os ds d0 arms w w'" and "nest_inv w"
  shows "nest_inv w'"
  using assms
proof (induction rule: isr_step.induct)
  case (preempt f p l pcs)
  then show ?case by (auto simp: nest_inv_def arm_ok_def dest: arms_full)
next
  case (execute e l pc l' pc' pcs)
  then have ok: "arm_ok pc" by (simp add: nest_inv_def)
  with execute show ?case
    using settled_step [OF ok execute.hyps] arm_ok_step [OF ok execute.hyps]
      unsettled_step [OF execute.hyps]
    by (auto simp: nest_inv_def)
next
  case (resume l r pcs)
  then show ?case by (auto simp: nest_inv_def settles_def)
qed

lemma nest_inv_reach: "isr_reach os ds d0 arms c0 w \<Longrightarrow> backlog c0 = 0 \<Longrightarrow> nest_inv w"
proof (induction rule: isr_reach.induct)
  case isr_new
  then show ?case by (simp add: nest_inv_def soft_lock_new_def)
next
  case (isr_next w w')
  then show ?case by (blast intro: nest_inv_step)
qed

text \<open>
  When the outermost access has returned, every intent recorded by any handler has been
  executed, the flag is down and the lock is free.
\<close>

lemma isr_quiescent:
  assumes "isr_reach os ds d0 arms c0 (l, [])" and "backlog c0 = 0"
  shows "\<not> locked l \<and> \<not> pending l \<and> backlog (content l) = 0"
  using nested_reach [OF assms(1)] watched_reach [OF assms(1)] nest_inv_reach [OF assms]
  by (simp add: watched_def nest_inv_def)

end

end
