(* ===== verification/SoftOps.thy ===== *)
theory SoftOps
  imports DemoInner Scenario SoftLockThreads SoftLockInterrupts
begin

text \<open>
  The three closures that \<open>run_softlock_bench\<close> passes to \<open>with_access\<close> (producer, consumer and
  the final report) as instruction-level code over \<open>DemoInner\<close>, and the proofs that they and
  \<open>run_pended_op\<close> fulfil the contracts \<open>pend_op\<close>, \<open>exclusive\<close> and \<open>accounted\<close>.
\<close>

section \<open>The closures\<close>

text \<open>The producer: \<open>PrFull\<close> and \<open>PrPend\<close> are the entries of the two arms.\<close>

datatype producer_pc = PrFull | PrSubmit submit_pc | PrPend | PrPendSubmit

fun producer_code :: "(producer_pc, demo_inner, unit) code" where
  "producer_code PrFull c = Some (c\<lparr>full_entries := full_entries c + 1\<rparr>, Inl (PrSubmit SdNext))"
| "producer_code (PrSubmit k) c = tail_call PrSubmit id (submit_direct_code k c)"
| "producer_code PrPend c = Some (c\<lparr>pend_entries := pend_entries c + 1\<rparr>, Inl PrPendSubmit)"
| "producer_code PrPendSubmit c = Some (pend_submit c, Inr ())"

text \<open>
  The consumer: its locals \<open>pending_before\<close>, \<open>producers_finished\<close> and \<open>pending\<close> travel in the
  program points; \<open>finished\<close> is the value of \<open>consumer_done\<close> at the moment of the instruction. The
  result says whether the consumer's loop goes on.
\<close>

datatype consumer_pc = CoLoad | CoDrain usize drain_pc | CoProcess usize process_pc | CoSpin usize
  | CoProcessed | CoDone | CoPending bool | CoLen bool usize len_pc | CoPendOnly

fun consumer_code :: "scenario \<Rightarrow> usize \<Rightarrow> bool \<Rightarrow> (consumer_pc, demo_inner, bool) code" where
  "consumer_code s total_ops finished CoLoad c = Some (c, Inl (CoDrain (pending_submit c) RpSwap))"
| "consumer_code s total_ops finished (CoDrain prior d) c =
     call (CoDrain prior) (\<lambda>_. CoProcess prior (PsLock (consumer_budget s))) (run_pended_op_code d c)"
| "consumer_code s total_ops finished (CoProcess prior k) c =
     call (CoProcess prior)
       (\<lambda>now. if prior > 0 \<or> now > 0 then CoSpin (consumer_hold_spin s) else CoProcessed)
       (process_some_code k c)"
| "consumer_code s total_ops finished (CoSpin n) c =
     Some (c, Inl (spin_n n CoProcessed CoSpin))"
| "consumer_code s total_ops finished CoProcessed c =
     Some (c, if processed c \<ge> total_ops then Inr False else Inl CoDone)"
| "consumer_code s total_ops finished CoDone c = Some (c, Inl (CoPending finished))"
| "consumer_code s total_ops finished (CoPending fin) c = Some (c, Inl (CoLen fin (pending_submit c) QlLock))"
| "consumer_code s total_ops finished (CoLen fin p k) c =
     tail_call (CoLen fin p) (\<lambda>n. \<not> (fin \<and> p = 0 \<and> n = 0)) (queue_len_code k c)"
| "consumer_code s total_ops finished CoPendOnly c = Some (c, Inr True)"

text \<open>The report at the end of the benchmark: the seven loads in the order of the tuple.\<close>

record counts =
  ct_processed :: usize
  ct_pending :: usize
  ct_queue_left :: usize
  ct_full_entries :: usize
  ct_pend_entries :: usize
  ct_drained_items :: usize
  ct_drained_batches :: usize

datatype report = Counts counts | Unreachable

datatype report_pc = ReProcessed | RePending usize | ReLen usize usize len_pc
  | ReFull usize usize usize | RePend usize usize usize usize
  | ReItems usize usize usize usize usize | ReBatches usize usize usize usize usize usize
  | ReUnreachable

fun report_code :: "(report_pc, demo_inner, report) code" where
  "report_code ReProcessed c = Some (c, Inl (RePending (processed c)))"
| "report_code (RePending x) c = Some (c, Inl (ReLen x (pending_submit c) QlLock))"
| "report_code (ReLen x y k) c = call (ReLen x y) (ReFull x y) (queue_len_code k c)"
| "report_code (ReFull x y z) c = Some (c, Inl (RePend x y z (full_entries c)))"
| "report_code (RePend x y z f) c = Some (c, Inl (ReItems x y z f (pend_entries c)))"
| "report_code (ReItems x y z f p) c = Some (c, Inl (ReBatches x y z f p (drained_items c)))"
| "report_code (ReBatches x y z f p i) c =
     Some (c, Inr (Counts \<lparr>ct_processed = x, ct_pending = y, ct_queue_left = z, ct_full_entries = f,
       ct_pend_entries = p, ct_drained_items = i, ct_drained_batches = drained_batches c\<rparr>))"
| "report_code ReUnreachable c = Some (c, Inr Unreachable)"

text \<open>All closures under one lock.\<close>

datatype op_pc = OpProducer producer_pc | OpConsumer consumer_pc | OpReport report_pc
datatype op_result = RProducer | RConsumer bool | RReport report

fun op_code :: "scenario \<Rightarrow> usize \<Rightarrow> bool \<Rightarrow> (op_pc, demo_inner, op_result) code" where
  "op_code s total_ops finished (OpProducer k) c = tail_call OpProducer (\<lambda>_. RProducer) (producer_code k c)"
| "op_code s total_ops finished (OpConsumer k) c =
     tail_call OpConsumer RConsumer (consumer_code s total_ops finished k c)"
| "op_code s total_ops finished (OpReport k) c = tail_call OpReport RReport (report_code k c)"

definition bench_arms :: "op_pc \<Rightarrow> op_pc \<Rightarrow> bool" where
  "bench_arms f p \<longleftrightarrow>
     (f, p) \<in> {(OpProducer PrFull, OpProducer PrPend), (OpConsumer CoLoad, OpConsumer CoPendOnly),
              (OpReport ReProcessed, OpReport ReUnreachable)}"

section \<open>Which arm a program point belongs to\<close>

fun op_pend :: "op_pc \<Rightarrow> bool" where
  "op_pend (OpProducer PrPend) = True"
| "op_pend (OpProducer PrPendSubmit) = True"
| "op_pend (OpConsumer CoPendOnly) = True"
| "op_pend (OpReport ReUnreachable) = True"
| "op_pend _ = False"

text \<open>
  The frame of the PendOnly accessor: the arms that run without ownership touch nothing but
  the two counters that are theirs.
\<close>

definition same_full_state :: "demo_inner \<Rightarrow> demo_inner \<Rightarrow> bool" where
  "same_full_state c c' \<longleftrightarrow>
     c' = c\<lparr>pending_submit := pending_submit c', pend_entries := pend_entries c'\<rparr>"

lemma op_pend_frame:
  "op_pend k \<Longrightarrow> op_code s total_ops finished k c = Some (c', x) \<Longrightarrow> same_full_state c c'"
  by (cases k rule: op_pend.cases)
    (auto simp: same_full_state_def tail_call_eq_Some pend_submit_def)

section \<open>Contract 1: intents\<close>

fun rp_fresh :: "drain_pc \<Rightarrow> bool" where
  "rp_fresh RpSwap = True"
| "rp_fresh _ = False"

definition demo_backlog :: "demo_inner \<Rightarrow> nat" where
  "demo_backlog c = unat (pending_submit c)"

lemma pending_submit_direct:
  "submit_direct_code k c = Some (c', x) \<Longrightarrow> pending_submit c' = pending_submit c"
  by (cases k) (auto split: if_splits)

lemma pending_submit_process:
  "process_some_code k c = Some (c', x) \<Longrightarrow> pending_submit c' = pending_submit c"
  by (cases k) (auto split: if_splits list.splits)

lemma pending_submit_len:
  "queue_len_code k c = Some (c', x) \<Longrightarrow> pending_submit c' = pending_submit c"
  by (cases k) (auto split: if_splits)

lemma pending_submit_drain:
  "run_pended_op_code k c = Some (c', x) \<Longrightarrow>
     pending_submit c' = (if rp_fresh k then 0 else pending_submit c)"
  by (cases k) (auto split: if_splits)

lemmas pending_submit_codes =
  pending_submit_direct pending_submit_process pending_submit_len pending_submit_drain

interpretation dl: pend_op "op_code s total_ops" run_pended_op_code RpSwap bench_arms
  "\<lambda>k. \<not> op_pend k" rp_fresh demo_backlog
proof
  fix f p :: op_pc assume "bench_arms f p" then show "\<not> op_pend f" by (auto simp: bench_arms_def)
next
  fix k k' e c c' assume "\<not> op_pend k" "op_code s total_ops e k c = Some (c', Inl k')"
  then show "\<not> op_pend k'"
    by (cases k rule: op_pend.cases) (auto simp: tail_call_eq_Some call_eq_Some split: if_splits)
next
  fix k e c c' x
  assume "\<not> op_pend k" "op_code s total_ops e k c = Some (c', x)" "demo_backlog c = 0"
  then show "demo_backlog c' = 0"
    by (cases k rule: op_pend.cases)
      (auto simp: tail_call_eq_Some call_eq_Some demo_backlog_def pending_submit_codes
        split: if_splits)
qed (auto simp: demo_backlog_def pending_submit_codes elim!: run_pended_op_code.elims split: if_splits)

section \<open>Contract 2: the queue belongs to the Full owner\<close>

text \<open>
  The queue holds the most recent ids in the order they were drawn; \<open>a\<close> is one while an id has
  been drawn and is not yet in the queue.
\<close>

definition fifo :: "u64 \<Rightarrow> demo_inner \<Rightarrow> bool" where
  "fifo a c \<longleftrightarrow> queue c = ids (next_id c - of_nat (length (queue c)) - a) (length (queue c))"

definition demo_res :: "demo_inner \<Rightarrow> bool" where
  "demo_res c \<longleftrightarrow> \<not> queue_locked c \<and> fifo 0 c"

definition demo_busy :: "demo_inner \<Rightarrow> bool" where
  "demo_busy c \<longleftrightarrow> queue_locked c \<and> fifo 0 c"

lemma fifo_draw: "fifo 0 c \<Longrightarrow> fifo 1 (c\<lparr>next_id := next_id c + 1\<rparr>)"
  by (simp add: fifo_def algebra_simps)

lemma fifo_push: "fifo 1 c \<Longrightarrow> fifo 0 (c\<lparr>queue := queue c @ [next_id c - 1]\<rparr>)"
  by (simp add: fifo_def algebra_simps ids_Suc)

lemma fifo_pop: "fifo 0 c \<Longrightarrow> queue c = x # q \<Longrightarrow> fifo 0 (c\<lparr>queue := q\<rparr>)"
  by (simp add: fifo_def ids_Suc_Cons algebra_simps)

lemma fifo_other:
  "fifo a (c\<lparr>queue_locked := b\<rparr>) = fifo a c"
  "fifo a (c\<lparr>direct_items := n\<rparr>) = fifo a c"
  "fifo a (c\<lparr>processed := n\<rparr>) = fifo a c"
  "fifo a (c\<lparr>drained_items := n\<rparr>) = fifo a c"
  "fifo a (c\<lparr>drained_batches := n\<rparr>) = fifo a c"
  "fifo a (c\<lparr>full_entries := n\<rparr>) = fifo a c"
  "fifo a (c\<lparr>pend_entries := n\<rparr>) = fifo a c"
  "fifo a (c\<lparr>pending_submit := n\<rparr>) = fifo a c"
  by (simp_all add: fifo_def)

fun submit_own :: "submit_pc \<Rightarrow> demo_inner \<Rightarrow> bool" where
  "submit_own SdNext c = demo_res c"
| "submit_own (SdLock i) c = (\<not> queue_locked c \<and> fifo 1 c \<and> i = next_id c - 1)"
| "submit_own (SdPush i) c = (queue_locked c \<and> fifo 1 c \<and> i = next_id c - 1)"
| "submit_own _ c = demo_busy c"

fun process_own :: "process_pc \<Rightarrow> demo_inner \<Rightarrow> bool" where
  "process_own (PsLock _) c = demo_res c"
| "process_own _ c = demo_busy c"

fun len_own :: "len_pc \<Rightarrow> demo_inner \<Rightarrow> bool" where
  "len_own QlLock c = demo_res c"
| "len_own _ c = demo_busy c"

fun drain_own :: "drain_pc \<Rightarrow> demo_inner \<Rightarrow> bool" where
  "drain_own (RpNext _) c = demo_busy c"
| "drain_own (RpPush _ i) c = (queue_locked c \<and> fifo 1 c \<and> i = next_id c - 1)"
| "drain_own _ c = demo_res c"

fun op_own :: "op_pc \<Rightarrow> demo_inner \<Rightarrow> bool" where
  "op_own (OpProducer (PrSubmit k)) c = submit_own k c"
| "op_own (OpConsumer (CoDrain _ d)) c = drain_own d c"
| "op_own (OpConsumer (CoProcess _ k)) c = process_own k c"
| "op_own (OpConsumer (CoLen _ _ k)) c = len_own k c"
| "op_own (OpReport (ReLen _ _ k)) c = len_own k c"
| "op_own k c = (\<not> op_pend k \<and> demo_res c)"

lemmas own_simps = demo_res_def demo_busy_def fifo_other fifo_draw fifo_push

lemma submit_own_step:
  "submit_own k c \<Longrightarrow> submit_direct_code k c = Some (c', x) \<Longrightarrow>
   (case x of Inl k' \<Rightarrow> submit_own k' c' | Inr _ \<Rightarrow> demo_res c')"
  by (cases k) (auto simp: own_simps)

lemma process_own_step:
  "process_own k c \<Longrightarrow> process_some_code k c = Some (c', x) \<Longrightarrow>
   (case x of Inl k' \<Rightarrow> process_own k' c' | Inr _ \<Rightarrow> demo_res c')"
  by (cases k) (auto simp: own_simps fifo_pop split: if_splits list.splits)

lemma len_own_step:
  "len_own k c \<Longrightarrow> queue_len_code k c = Some (c', x) \<Longrightarrow>
   (case x of Inl k' \<Rightarrow> len_own k' c' | Inr _ \<Rightarrow> demo_res c')"
  by (cases k) (auto simp: own_simps)

lemma drain_own_step:
  "drain_own k c \<Longrightarrow> run_pended_op_code k c = Some (c', x) \<Longrightarrow>
   (case x of Inl k' \<Rightarrow> drain_own k' c' | Inr _ \<Rightarrow> demo_res c')"
  by (cases k) (auto simp: own_simps split: if_splits)

lemma own_enabled:
  "submit_own k1 c \<Longrightarrow> submit_direct_code k1 c \<noteq> None"
  "process_own k2 c \<Longrightarrow> process_some_code k2 c \<noteq> None"
  "len_own k3 c \<Longrightarrow> queue_len_code k3 c \<noteq> None"
  "drain_own k4 c \<Longrightarrow> run_pended_op_code k4 c \<noteq> None"
     apply (cases k1; simp add: demo_res_def)
    apply (cases k2; simp add: demo_res_def split: list.splits)
   apply (cases k3; simp add: demo_res_def)
  apply (cases k4; simp add: demo_res_def)
  done

lemma op_own_step:
  "op_own k c \<Longrightarrow> op_code s total_ops e k c = Some (c', x) \<Longrightarrow>
   (case x of Inl k' \<Rightarrow> op_own k' c' | Inr _ \<Rightarrow> demo_res c')"
  by (cases "(k, c)" rule: op_own.cases)
    (auto simp: tail_call_eq_Some call_eq_Some own_simps split: if_splits
      dest: submit_own_step process_own_step len_own_step drain_own_step)

lemma own_frame:
  assumes "same_full_state c c'"
  shows "demo_res c \<Longrightarrow> demo_res c'" and "op_own k c \<Longrightarrow> op_own k c'" and "drain_own d c \<Longrightarrow> drain_own d c'"
proof -
  note eq = assms [unfolded same_full_state_def]
  have same: "queue c' = queue c" "queue_locked c' = queue_locked c" "next_id c' = next_id c"
    using arg_cong [OF eq, of queue] arg_cong [OF eq, of queue_locked] arg_cong [OF eq, of next_id]
    by simp_all
  then have *: "fifo a c' = fifo a c" "demo_res c' = demo_res c" "demo_busy c' = demo_busy c" for a
    by (simp_all add: fifo_def demo_res_def demo_busy_def)
  have "submit_own k1 c' = submit_own k1 c" for k1 by (cases k1) (simp_all add: * same)
  moreover have "process_own k2 c' = process_own k2 c" for k2 by (cases k2) (simp_all add: *)
  moreover have "len_own k3 c' = len_own k3 c" for k3 by (cases k3) (simp_all add: *)
  moreover have drain: "drain_own k4 c' = drain_own k4 c" for k4 by (cases k4) (simp_all add: * same)
  ultimately have "op_own k c' = op_own k c" by (cases "(k, c)" rule: op_own.cases) (simp_all add: *)
  with drain * show "demo_res c \<Longrightarrow> demo_res c'" and "op_own k c \<Longrightarrow> op_own k c'"
    and "drain_own d c \<Longrightarrow> drain_own d c'"
    by simp_all
qed

lemma op_pend_next:
  "op_pend k \<Longrightarrow> op_code s total_ops e k c = Some (c', Inl k') \<Longrightarrow> op_pend k'"
  by (cases k rule: op_pend.cases) (auto simp: tail_call_eq_Some)

lemma op_enabled:
  "op_own k c \<Longrightarrow> op_code s total_ops e k c \<noteq> None"
  "op_pend k \<Longrightarrow> op_code s total_ops e k c \<noteq> None"
  by (cases "(k, c)" rule: op_own.cases; simp add: own_enabled)
    (cases k rule: op_pend.cases; simp)

interpretation ex: exclusive "op_code s total_ops" run_pended_op_code RpSwap bench_arms
  op_pend op_own drain_own demo_res
proof
  show "op_own f c" if "bench_arms f p" "demo_res c" for f p c
    using that by (auto simp: bench_arms_def)
  show "op_pend p" if "bench_arms f p" for f p
    using that by (auto simp: bench_arms_def)
  show "op_own k' c'" if "op_own k c" "op_code s total_ops e k c = Some (c', Inl k')" for k c e c' k'
    using op_own_step [OF that] by simp
  show "demo_res c'" if "op_own k c" "op_code s total_ops e k c = Some (c', Inr r)" for k c e c' r
    using op_own_step [OF that] by simp
  show "drain_own d' c'" if "drain_own d c" "run_pended_op_code d c = Some (c', Inl d')" for d c c' d'
    using drain_own_step [OF that] by simp
  show "demo_res c'" if "drain_own d c" "run_pended_op_code d c = Some (c', Inr u)" for d c c' u
    using drain_own_step [OF that] by simp
  show "drain_own RpSwap c" if "demo_res c" for c
    using that by simp
  show "op_pend k'" if "op_pend k" "op_code s total_ops e k c = Some (c', Inl k')" for k e c c' k'
    using that by (rule op_pend_next)
qed (auto simp: own_enabled op_enabled dest: op_pend_frame own_frame)

section \<open>What the closures compute when nothing interrupts them\<close>

definition producer_full_spec :: "demo_inner \<Rightarrow> demo_inner" where
  "producer_full_spec c = submit_direct_spec (c\<lparr>full_entries := full_entries c + 1\<rparr>)"

definition producer_pend_spec :: "demo_inner \<Rightarrow> demo_inner" where
  "producer_pend_spec c = pend_submit (c\<lparr>pend_entries := pend_entries c + 1\<rparr>)"

definition consumer_full_spec :: "scenario \<Rightarrow> usize \<Rightarrow> bool \<Rightarrow> demo_inner \<Rightarrow> demo_inner \<times> bool" where
  "consumer_full_spec s total_ops finished c =
     (let c1 = fst (process_some_spec (consumer_budget s) (run_pended_op_spec c))
      in (c1, \<not> processed c1 \<ge> total_ops \<and>
              \<not> (finished \<and> pending_submit c1 = 0 \<and> (of_nat (length (queue c1)) :: usize) = 0)))"

lemma producer_full_runs:
  assumes "\<not> queue_locked c"
  shows "runs producer_code PrFull c (producer_full_spec c) ()"
proof -
  let ?c = "c\<lparr>full_entries := full_entries c + 1\<rparr>"
  have "runs submit_direct_code SdNext ?c (producer_full_spec c) ()"
    unfolding producer_full_spec_def by (rule submit_direct_runs) (simp add: assms)
  then have "runs producer_code (PrSubmit SdNext) ?c (producer_full_spec c) (id ())"
    by (rule runs_tail_call [where ret = id]) simp
  then show ?thesis by (simp add: runs_step)
qed

lemma producer_pend_runs: "runs producer_code PrPend c (producer_pend_spec c) ()"
  by (simp add: runs_step runs_last producer_pend_spec_def)

lemma consumer_spin_runs:
  "runs (consumer_code s T e) CoProcessed c c' r \<Longrightarrow> runs (consumer_code s T e) (CoSpin n) c c' r"
proof (induction "unat n" arbitrary: n)
  case 0
  then have "n = 0" by (simp add: unat_eq_zero)
  with 0 show ?case by (simp add: runs_step)
next
  case (Suc m)
  then have "n \<noteq> 0" by auto
  then have "m = unat (n - 1)" using Suc.hyps(2) by (simp add: unat_dec)
  from Suc.hyps(1) [OF this Suc.prems] \<open>n \<noteq> 0\<close> show ?case by (simp add: runs_step)
qed

lemma consumer_decide_runs:
  assumes "\<not> queue_locked c"
  shows "runs (consumer_code s T e) CoProcessed c c
    (\<not> processed c \<ge> T \<and> \<not> (e \<and> pending_submit c = 0 \<and> (of_nat (length (queue c)) :: usize) = 0))"
proof (cases "processed c \<ge> T")
  case True
  then show ?thesis by (simp add: runs_return)
next
  case False
  let ?r = "\<lambda>n :: usize. \<not> (e \<and> pending_submit c = 0 \<and> n = 0)"
  have "runs (consumer_code s T e) (CoLen e (pending_submit c) QlLock) c c (?r (of_nat (length (queue c))))"
    by (rule runs_tail_call [OF queue_len_runs [OF assms], where ret = ?r]) simp
  with False show ?thesis by (simp add: runs_step)
qed

lemma consumer_full_runs:
  assumes "\<not> queue_locked c"
  shows "runs (consumer_code s T e) CoLoad c
    (fst (consumer_full_spec s T e c)) (snd (consumer_full_spec s T e c))"
proof -
  let ?os = "consumer_code s T e"
  let ?c1 = "run_pended_op_spec c"
  let ?c2 = "fst (process_some_spec (consumer_budget s) ?c1)"
  let ?n = "snd (process_some_spec (consumer_budget s) ?c1)"
  let ?b = "pending_submit c"
  let ?r = "\<not> processed ?c2 \<ge> T \<and> \<not> (e \<and> pending_submit ?c2 = 0 \<and> (of_nat (length (queue ?c2)) :: usize) = 0)"
  have free: "\<not> queue_locked ?c1" "\<not> queue_locked ?c2" by (simp_all add: assms)
  have decide: "runs ?os CoProcessed ?c2 ?c2 ?r" by (rule consumer_decide_runs [OF free(2)])
  then have "runs ?os (if ?b > 0 \<or> ?n > 0 then CoSpin (consumer_hold_spin s) else CoProcessed) ?c2 ?c2 ?r"
    using consumer_spin_runs [OF decide] by simp
  then have "runs ?os (CoProcess ?b (PsLock (consumer_budget s))) ?c1 ?c2 ?r"
    by (intro runs_call [OF process_some_runs [OF free(1)]]) simp_all
  then have "runs ?os (CoDrain ?b RpSwap) c ?c2 ?r"
    by (intro runs_call [OF run_pended_op_runs [OF assms]]) simp_all
  then show ?thesis by (simp add: runs_step consumer_full_spec_def Let_def)
qed

text \<open>The same under \<open>op_code\<close>.\<close>

lemma op_producer_runs:
  "runs producer_code k c c' () \<Longrightarrow> runs (op_code s T e) (OpProducer k) c c' RProducer"
  by (rule runs_tail_call [where ret = "\<lambda>_. RProducer"]) simp_all

lemma op_consumer_runs:
  "runs (consumer_code s T e) k c c' r \<Longrightarrow> runs (op_code s T e) (OpConsumer k) c c' (RConsumer r)"
  by (rule runs_tail_call [where ret = RConsumer]) simp_all

lemma op_consumer_pend_runs: "runs (op_code s T e) (OpConsumer CoPendOnly) c c (RConsumer True)"
  by (simp add: runs_last tail_call_def)

end
