(* ===== verification/SoftAccounts.thy ===== *)
theory SoftAccounts
  imports SoftOps
begin

text \<open>
  The counters of \<open>DemoInner\<close> as accounts: for each pair of counters that the code updates one
  after the other, how much a thread at a given program point has outstanding between them.
  Machine words are read as integers; \<open>small\<close> says that an increment does not wrap.
\<close>

section \<open>Balances\<close>

definition bal_entry :: "demo_inner \<Rightarrow> int" where
  "bal_entry c = uint (full_entries c) + uint (pend_entries c)"

definition bal_full :: "demo_inner \<Rightarrow> int" where
  "bal_full c = uint (full_entries c) - uint (direct_items c)"

definition bal_pend :: "demo_inner \<Rightarrow> int" where
  "bal_pend c = uint (pend_entries c) - uint (pending_submit c) - uint (drained_items c)"

definition bal_queue :: "demo_inner \<Rightarrow> int" where
  "bal_queue c = uint (next_id c) - 1 - uint (processed c) - int (length (queue c))"

definition bal_id :: "demo_inner \<Rightarrow> int" where
  "bal_id c = uint (direct_items c) + uint (drained_items c) + 1 - uint (next_id c)"

definition small :: "demo_inner \<Rightarrow> bool" where
  "small c \<longleftrightarrow> uint (full_entries c) < 2 ^ 64 - 1 \<and> uint (pend_entries c) < 2 ^ 64 - 1 \<and>
     uint (direct_items c) < 2 ^ 64 - 1 \<and> uint (pending_submit c) < 2 ^ 64 - 1 \<and>
     uint (processed c) < 2 ^ 64 - 1 \<and> uint (next_id c) < 2 ^ 64 - 1"

section \<open>Weights of the program points\<close>

fun submit_lag :: "submit_pc \<Rightarrow> int" where
  "submit_lag SdUnlock = 0"
| "submit_lag _ = 1"

fun submit_drawn :: "submit_pc \<Rightarrow> int" where
  "submit_drawn (SdLock _) = 1"
| "submit_drawn (SdPush _) = 1"
| "submit_drawn _ = 0"

fun submit_due :: "submit_pc \<Rightarrow> int" where
  "submit_due SdNext = 0"
| "submit_due SdUnlock = 0"
| "submit_due _ = - 1"

fun process_popped :: "process_pc \<Rightarrow> int" where
  "process_popped (PsCount _ _) = 1"
| "process_popped _ = 0"

fun drain_taken :: "drain_pc \<Rightarrow> int" where
  "drain_taken (RpBatches n) = uint n"
| "drain_taken (RpItems n) = uint n"
| "drain_taken _ = 0"

fun drain_drawn :: "drain_pc \<Rightarrow> int" where
  "drain_drawn (RpPush _ _) = 1"
| "drain_drawn _ = 0"

fun drain_due :: "drain_pc \<Rightarrow> int" where
  "drain_due (RpLock n) = uint n"
| "drain_due (RpNext n) = uint n"
| "drain_due (RpPush n _) = uint n"
| "drain_due _ = 0"

fun op_entered :: "op_pc \<Rightarrow> int" where
  "op_entered (OpProducer (PrSubmit _)) = 1"
| "op_entered (OpProducer PrPendSubmit) = 1"
| "op_entered _ = 0"

fun result_entered :: "op_result \<Rightarrow> int" where
  "result_entered RProducer = 1"
| "result_entered _ = 0"

fun op_lag :: "op_pc \<Rightarrow> int" where
  "op_lag (OpProducer (PrSubmit k)) = submit_lag k"
| "op_lag _ = 0"

fun op_taken :: "op_pc \<Rightarrow> int" where
  "op_taken (OpProducer PrPendSubmit) = 1"
| "op_taken (OpConsumer (CoDrain _ d)) = drain_taken d"
| "op_taken _ = 0"

fun op_drawn :: "op_pc \<Rightarrow> int" where
  "op_drawn (OpProducer (PrSubmit k)) = submit_drawn k"
| "op_drawn (OpConsumer (CoDrain _ d)) = drain_drawn d"
| "op_drawn (OpConsumer (CoProcess _ k)) = process_popped k"
| "op_drawn _ = 0"

fun op_due :: "op_pc \<Rightarrow> int" where
  "op_due (OpProducer (PrSubmit k)) = submit_due k"
| "op_due (OpConsumer (CoDrain _ d)) = drain_due d"
| "op_due _ = 0"

definition drain_room :: "drain_pc \<Rightarrow> demo_inner \<Rightarrow> bool" where
  "drain_room d c \<longleftrightarrow> small c \<and> uint (drained_items c) + drain_taken d < 2 ^ 64"

definition op_room :: "op_pc \<Rightarrow> demo_inner \<Rightarrow> bool" where
  "op_room k c \<longleftrightarrow> small c \<and> uint (drained_items c) + op_taken k < 2 ^ 64"

section \<open>One instruction of each accessor function\<close>

lemmas bal_defs = bal_entry_def bal_full_def bal_pend_def bal_queue_def bal_id_def

lemma small_inc:
  assumes "small c"
  shows "uint (full_entries c + 1) = uint (full_entries c) + 1"
    and "uint (pend_entries c + 1) = uint (pend_entries c) + 1"
    and "uint (direct_items c + 1) = uint (direct_items c) + 1"
    and "uint (pending_submit c + 1) = uint (pending_submit c) + 1"
    and "uint (processed c + 1) = uint (processed c) + 1"
    and "uint (next_id c + 1) = uint (next_id c) + 1"
  using assms by (simp_all only: small_def uint_inc_no_wrap)

lemma drain_room_small: "drain_room k c \<Longrightarrow> small c"
  by (simp add: drain_room_def)

lemma drain_room_items:
  "drain_room (RpItems n) c \<Longrightarrow> uint (drained_items c + n) = uint (drained_items c) + uint n"
  by (simp add: drain_room_def uint_add_no_wrap)

lemma submit_accounts:
  assumes "submit_direct_code k c = Some (c', x)" and "small c"
  shows "bal_entry c' = bal_entry c" and "bal_pend c' = bal_pend c"
    and "bal_full c' - case_sum submit_lag (\<lambda>_. 0) x = bal_full c - submit_lag k"
    and "bal_queue c' - case_sum submit_drawn (\<lambda>_. 0) x = bal_queue c - submit_drawn k"
    and "bal_id c' - case_sum submit_due (\<lambda>_. 0) x = bal_id c - submit_due k"
  using assms
  by (cases k; auto simp: bal_defs small_inc split: if_splits)+

lemma process_accounts:
  assumes "process_some_code k c = Some (c', x)" and "small c"
  shows "bal_entry c' = bal_entry c" and "bal_pend c' = bal_pend c" and "bal_full c' = bal_full c"
    and "bal_queue c' - case_sum process_popped (\<lambda>_. 0) x = bal_queue c - process_popped k"
    and "bal_id c' = bal_id c"
  using assms
  by (cases k; auto simp: bal_defs small_inc split: if_splits list.splits)+

lemma len_accounts:
  assumes "queue_len_code k c = Some (c', x)"
  shows "bal_entry c' = bal_entry c" and "bal_pend c' = bal_pend c" and "bal_full c' = bal_full c"
    and "bal_queue c' = bal_queue c" and "bal_id c' = bal_id c"
  using assms
  by (cases k; auto simp: bal_defs split: if_splits)+

lemma drain_accounts:
  assumes "run_pended_op_code k c = Some (c', x)" and "drain_room k c"
  shows "bal_entry c' = bal_entry c" and "bal_full c' = bal_full c"
    and "bal_pend c' - case_sum drain_taken (\<lambda>_. 0) x = bal_pend c - drain_taken k"
    and "bal_queue c' - case_sum drain_drawn (\<lambda>_. 0) x = bal_queue c - drain_drawn k"
    and "bal_id c' - case_sum drain_due (\<lambda>_. 0) x = bal_id c - drain_due k"
  using assms drain_room_small [OF assms(2)]
  by (cases k; auto simp: bal_defs small_inc drain_room_items uint_dec split: if_splits)+

section \<open>One instruction of a closure\<close>

lemma op_room_small: "op_room k c \<Longrightarrow> small c"
  by (simp add: op_room_def)

lemma op_room_drain: "op_room (OpConsumer (CoDrain b d)) c \<longleftrightarrow> drain_room d c"
  by (simp add: op_room_def drain_room_def)

lemma op_account_entry:
  assumes "op_room k c" and "op_code s total_ops e k c = Some (c', x)"
  shows "bal_entry c' - case_sum op_entered result_entered x = bal_entry c - op_entered k"
  using assms op_room_small [OF assms(1)]
  by (cases k rule: op_pend.cases)
    (auto simp: tail_call_eq_Some call_eq_Some op_room_drain pend_submit_def bal_entry_def small_inc
      split: if_splits
      dest: submit_accounts(1) process_accounts(1) len_accounts(1) drain_accounts(1))

lemma op_account_full:
  assumes "op_room k c" and "op_code s total_ops e k c = Some (c', x)"
  shows "bal_full c' - case_sum op_lag (\<lambda>_. 0) x = bal_full c - op_lag k"
  using assms op_room_small [OF assms(1)]
  by (cases k rule: op_pend.cases)
    (auto simp: tail_call_eq_Some call_eq_Some op_room_drain pend_submit_def bal_full_def small_inc
      split: if_splits
      dest: submit_accounts(3) process_accounts(3) len_accounts(3) drain_accounts(2))

lemma op_account_pend:
  assumes "op_room k c" and "op_code s total_ops e k c = Some (c', x)"
  shows "bal_pend c' - case_sum op_taken (\<lambda>_. 0) x = bal_pend c - op_taken k"
  using assms op_room_small [OF assms(1)]
  by (cases k rule: op_pend.cases)
    (auto simp: tail_call_eq_Some call_eq_Some op_room_drain pend_submit_def bal_pend_def small_inc
      split: if_splits
      dest: submit_accounts(2) process_accounts(2) len_accounts(2) drain_accounts(3))

lemma op_account_queue:
  assumes "op_room k c" and "op_code s total_ops e k c = Some (c', x)"
  shows "bal_queue c' - case_sum op_drawn (\<lambda>_. 0) x = bal_queue c - op_drawn k"
  using assms op_room_small [OF assms(1)]
  by (cases k rule: op_pend.cases)
    (auto simp: tail_call_eq_Some call_eq_Some op_room_drain pend_submit_def bal_queue_def small_inc
      split: if_splits
      dest: submit_accounts(4) process_accounts(4) len_accounts(4) drain_accounts(4))

lemma op_account_id:
  assumes "op_room k c" and "op_code s total_ops e k c = Some (c', x)"
  shows "bal_id c' - case_sum op_due (\<lambda>_. 0) x = bal_id c - op_due k"
  using assms op_room_small [OF assms(1)]
  by (cases k rule: op_pend.cases)
    (auto simp: tail_call_eq_Some call_eq_Some op_room_drain pend_submit_def bal_id_def small_inc
      split: if_splits
      dest: submit_accounts(5) process_accounts(5) len_accounts(5) drain_accounts(5))

lemma bench_arms_weights:
  assumes "bench_arms f p"
  shows "op_entered f = 0" "op_entered p = 0" "op_lag f = 0" "op_lag p = 0" "op_taken f = 0"
    "op_taken p = 0" "op_drawn f = 0" "op_drawn p = 0" "op_due f = 0" "op_due p = 0"
  using assms by (auto simp: bench_arms_def)

section \<open>Contract 3: the five accounts\<close>

interpretation ae: accounted "op_code s total_ops" run_pended_op_code RpSwap bench_arms
  bal_entry op_entered "\<lambda>_. 0" result_entered op_room drain_room
  by unfold_locales (auto simp: bench_arms_weights dest: op_account_entry drain_accounts(1))

interpretation af: accounted "op_code s total_ops" run_pended_op_code RpSwap bench_arms
  bal_full op_lag "\<lambda>_. 0" "\<lambda>_. 0" op_room drain_room
  by unfold_locales (auto simp: bench_arms_weights dest: op_account_full drain_accounts(2))

interpretation ap: accounted "op_code s total_ops" run_pended_op_code RpSwap bench_arms
  bal_pend op_taken drain_taken "\<lambda>_. 0" op_room drain_room
  by unfold_locales (auto simp: bench_arms_weights dest: op_account_pend drain_accounts(3))

interpretation aq: accounted "op_code s total_ops" run_pended_op_code RpSwap bench_arms
  bal_queue op_drawn drain_drawn "\<lambda>_. 0" op_room drain_room
  by unfold_locales (auto simp: bench_arms_weights dest: op_account_queue drain_accounts(4))

interpretation ai: accounted "op_code s total_ops" run_pended_op_code RpSwap bench_arms
  bal_id op_due drain_due "\<lambda>_. 0" op_room drain_room
  by unfold_locales (auto simp: bench_arms_weights dest: op_account_id drain_accounts(5))

end
