(* ===== verification/SoftBench.thy ===== *)
theory SoftBench
  imports SoftAccounts
begin

text \<open>
  \<open>run_softlock_bench\<close>: the main thread, the consumer thread and the producer threads, each
  with its own program point outside \<open>with_access\<close>; inside an access the thread is an entry of
  the world of \<open>SoftLockThreads\<close>. A scheduler picks, at every step, any thread.
  Time measurement and the floating-point throughput are left out.
\<close>

section \<open>Threads\<close>

datatype tid = TMain | TConsumer | TProducer nat

text \<open>The producer's loop \<open>for i in 0..s.ops_per_producer\<close>.\<close>

datatype producer_state = PNew | PLoop nat | PCall nat | PYield nat | PExit

text \<open>The consumer's loop \<open>while consumer_lock.with_access(..) { yield_now() }\<close>.\<close>

datatype consumer_state = CNew | CLoop | CCall | CYield | CExit

text \<open>The body of \<open>run_softlock_bench\<close>; \<open>MPanic\<close> is a failed assertion or \<open>unreachable!\<close>.\<close>

datatype main_state = MSpawnConsumer | MSpawn nat | MJoin nat | MStoreDone | MJoinConsumer
  | MReport | MCall | MCheck counts | MReturn counts | MPanic string

type_synonym soft_world = "(tid, demo_inner, op_pc, drain_pc, op_result) world"

record bench =
  bw :: soft_world
  producers_done :: bool
  mpc :: main_state
  cpc :: consumer_state
  ppc :: "nat \<Rightarrow> producer_state"

definition bench_new :: bench where
  "bench_new = \<lparr>bw = world_new demo_inner_new, producers_done = False, mpc = MSpawnConsumer,
     cpc = CNew, ppc = (\<lambda>_. PNew)\<rparr>"

section \<open>Steps\<close>

definition enter_access :: "tid \<Rightarrow> op_pc \<Rightarrow> op_pc \<Rightarrow> soft_world \<Rightarrow> soft_world" where
  "enter_access t f p w = w\<lparr>act := (act w)(t \<mapsto> AtGuard f p)\<rparr>"

definition leave_access :: "tid \<Rightarrow> soft_world \<Rightarrow> soft_world" where
  "leave_access t w = w\<lparr>act := (act w)(t := None)\<rparr>"

definition access_instr :: "scenario \<Rightarrow> bool \<Rightarrow> tid \<Rightarrow> soft_world \<Rightarrow> soft_world option" where
  "access_instr s finished t w =
     (case act w t of
        None \<Rightarrow> None
      | Some pc \<Rightarrow>
          map_option (\<lambda>(l', pc'). w\<lparr>lk := l', act := (act w)(t \<mapsto> pc')\<rparr>)
            (guard_step (op_code s (total_ops_of s) finished) run_pended_op_code RpSwap (lk w) pc))"

definition producer_step :: "scenario \<Rightarrow> nat \<Rightarrow> bench \<Rightarrow> bench option" where
  "producer_step s p b =
     (case ppc b p of
        PNew \<Rightarrow> None
      | PLoop i \<Rightarrow>
          if i < unat (ops_per_producer s)
          then Some (b\<lparr>bw := enter_access (TProducer p) (OpProducer PrFull) (OpProducer PrPend) (bw b),
                       ppc := (ppc b)(p := PCall i)\<rparr>)
          else Some (b\<lparr>ppc := (ppc b)(p := PExit)\<rparr>)
      | PCall i \<Rightarrow>
          (case act (bw b) (TProducer p) of
             Some (Returned _) \<Rightarrow>
               Some (b\<lparr>bw := leave_access (TProducer p) (bw b),
                       ppc := (ppc b)(p :=
                         if producer_pause_every s \<noteq> 0 \<and> of_nat (i + p) mod producer_pause_every s = 0
                         then PYield i else PLoop (i + 1))\<rparr>)
           | _ \<Rightarrow> map_option (\<lambda>w. b\<lparr>bw := w\<rparr>) (access_instr s (producers_done b) (TProducer p) (bw b)))
      | PYield i \<Rightarrow> Some (b\<lparr>ppc := (ppc b)(p := PLoop (i + 1))\<rparr>)
      | PExit \<Rightarrow> None)"

definition consumer_step :: "scenario \<Rightarrow> bench \<Rightarrow> bench option" where
  "consumer_step s b =
     (case cpc b of
        CNew \<Rightarrow> None
      | CLoop \<Rightarrow>
          Some (b\<lparr>bw := enter_access TConsumer (OpConsumer CoLoad) (OpConsumer CoPendOnly) (bw b),
                  cpc := CCall\<rparr>)
      | CCall \<Rightarrow>
          (case act (bw b) TConsumer of
             Some (Returned (RConsumer again)) \<Rightarrow>
               Some (b\<lparr>bw := leave_access TConsumer (bw b), cpc := if again then CYield else CExit\<rparr>)
           | _ \<Rightarrow> map_option (\<lambda>w. b\<lparr>bw := w\<rparr>) (access_instr s (producers_done b) TConsumer (bw b)))
      | CYield \<Rightarrow> Some (b\<lparr>cpc := CLoop\<rparr>)
      | CExit \<Rightarrow> None)"

definition check_counts :: "scenario \<Rightarrow> counts \<Rightarrow> main_state" where
  "check_counts s ct =
     (if ct_processed ct \<noteq> total_ops_of s then MPanic ''softlock processed mismatch''
      else if ct_pending ct \<noteq> 0 then MPanic ''softlock pending should be empty''
      else if ct_queue_left ct \<noteq> 0 then MPanic ''softlock queue should be empty''
      else MReturn ct)"

text \<open>
  The function body. The vector of join handles is represented by the number of threads spawned; that its
  allocation (\<open>Vec::with_capacity\<close>) and \<open>thread::spawn\<close> succeed is taken for granted.
\<close>

definition main_step :: "scenario \<Rightarrow> bench \<Rightarrow> bench option" where
  "main_step s b =
     (case mpc b of
        MSpawnConsumer \<Rightarrow> Some (b\<lparr>cpc := CLoop, mpc := MSpawn 0\<rparr>)
      | MSpawn p \<Rightarrow>
          if p < unat (producers s)
          then Some (b\<lparr>ppc := (ppc b)(p := PLoop 0), mpc := MSpawn (p + 1)\<rparr>)
          else Some (b\<lparr>mpc := MJoin 0\<rparr>)
      | MJoin p \<Rightarrow>
          if p < unat (producers s)
          then (if ppc b p = PExit then Some (b\<lparr>mpc := MJoin (p + 1)\<rparr>) else None)
          else Some (b\<lparr>mpc := MStoreDone\<rparr>)
      | MStoreDone \<Rightarrow> Some (b\<lparr>producers_done := True, mpc := MJoinConsumer\<rparr>)
      | MJoinConsumer \<Rightarrow> if cpc b = CExit then Some (b\<lparr>mpc := MReport\<rparr>) else None
      | MReport \<Rightarrow>
          Some (b\<lparr>bw := enter_access TMain (OpReport ReProcessed) (OpReport ReUnreachable) (bw b),
                  mpc := MCall\<rparr>)
      | MCall \<Rightarrow>
          (case act (bw b) TMain of
             Some (Returned (RReport (Counts ct))) \<Rightarrow>
               Some (b\<lparr>bw := leave_access TMain (bw b), mpc := MCheck ct\<rparr>)
           | Some (Returned (RReport Unreachable)) \<Rightarrow>
               Some (b\<lparr>bw := leave_access TMain (bw b), mpc := MPanic ''all workers joined''\<rparr>)
           | _ \<Rightarrow> map_option (\<lambda>w. b\<lparr>bw := w\<rparr>) (access_instr s (producers_done b) TMain (bw b)))
      | MCheck ct \<Rightarrow> Some (b\<lparr>mpc := check_counts s ct\<rparr>)
      | MReturn _ \<Rightarrow> None
      | MPanic _ \<Rightarrow> None)"

fun bench_step :: "scenario \<Rightarrow> tid \<Rightarrow> bench \<Rightarrow> bench option" where
  "bench_step s TMain b = main_step s b"
| "bench_step s TConsumer b = consumer_step s b"
| "bench_step s (TProducer p) b = producer_step s p b"

inductive bench_reach :: "scenario \<Rightarrow> bench \<Rightarrow> bool" for s where
  bench_start: "bench_reach s bench_new"
| bench_next: "bench_reach s b \<Longrightarrow> bench_step s t b = Some b' \<Longrightarrow> bench_reach s b'"

text \<open>A schedule names the thread that moves at each step.\<close>

fun run_schedule :: "scenario \<Rightarrow> tid list \<Rightarrow> bench \<Rightarrow> bench option" where
  "run_schedule s [] b = Some b"
| "run_schedule s (t # ts) b = (case bench_step s t b of None \<Rightarrow> None | Some b' \<Rightarrow> run_schedule s ts b')"

lemma run_schedule_reach: "run_schedule s ts b = Some b' \<Longrightarrow> bench_reach s b \<Longrightarrow> bench_reach s b'"
  by (induction ts arbitrary: b) (auto split: option.splits intro: bench_next)

section \<open>Case analysis of the steps\<close>

lemma access_instr_cases:
  assumes "access_instr s finished t w = Some w'"
  obtains pc l' pc' where "act w t = Some pc"
    and "guard_step (op_code s (total_ops_of s) finished) run_pended_op_code RpSwap (lk w) pc = Some (l', pc')"
    and "w' = w\<lparr>lk := l', act := (act w)(t \<mapsto> pc')\<rparr>"
  using assms by (auto simp: access_instr_def split: option.splits)

lemma producer_step_cases:
  assumes "producer_step s p b = Some b'"
  obtains (start) i where "ppc b p = PLoop i" "i < unat (ops_per_producer s)"
      "b' = b\<lparr>bw := enter_access (TProducer p) (OpProducer PrFull) (OpProducer PrPend) (bw b),
        ppc := (ppc b)(p := PCall i)\<rparr>"
  | (finish) i where "ppc b p = PLoop i" "\<not> i < unat (ops_per_producer s)"
      "b' = b\<lparr>ppc := (ppc b)(p := PExit)\<rparr>"
  | (return) i r x where "ppc b p = PCall i" "act (bw b) (TProducer p) = Some (Returned r)"
      "x = PYield i \<or> x = PLoop (i + 1)"
      "b' = b\<lparr>bw := leave_access (TProducer p) (bw b), ppc := (ppc b)(p := x)\<rparr>"
  | (instr) i w where "ppc b p = PCall i" "access_instr s (producers_done b) (TProducer p) (bw b) = Some w"
      "b' = b\<lparr>bw := w\<rparr>"
  | (yield) i where "ppc b p = PYield i" "b' = b\<lparr>ppc := (ppc b)(p := PLoop (i + 1))\<rparr>"
  using assms unfolding producer_step_def
  by (auto split: producer_state.splits if_splits option.splits guard_pc.splits)

lemma consumer_step_cases:
  assumes "consumer_step s b = Some b'"
  obtains (start) "cpc b = CLoop"
      "b' = b\<lparr>bw := enter_access TConsumer (OpConsumer CoLoad) (OpConsumer CoPendOnly) (bw b), cpc := CCall\<rparr>"
  | (return) again where "cpc b = CCall" "act (bw b) TConsumer = Some (Returned (RConsumer again))"
      "b' = b\<lparr>bw := leave_access TConsumer (bw b), cpc := if again then CYield else CExit\<rparr>"
  | (instr) w where "cpc b = CCall" "access_instr s (producers_done b) TConsumer (bw b) = Some w"
      "b' = b\<lparr>bw := w\<rparr>"
  | (yield) "cpc b = CYield" "b' = b\<lparr>cpc := CLoop\<rparr>"
  using assms unfolding consumer_step_def
  by (auto split: consumer_state.splits if_splits option.splits guard_pc.splits op_result.splits)

lemma main_step_cases:
  assumes "main_step s b = Some b'"
  obtains (consumer) "mpc b = MSpawnConsumer" "b' = b\<lparr>cpc := CLoop, mpc := MSpawn 0\<rparr>"
  | (producer) p where "mpc b = MSpawn p" "p < unat (producers s)"
      "b' = b\<lparr>ppc := (ppc b)(p := PLoop 0), mpc := MSpawn (p + 1)\<rparr>"
  | (spawned) p where "mpc b = MSpawn p" "\<not> p < unat (producers s)" "b' = b\<lparr>mpc := MJoin 0\<rparr>"
  | (join) p where "mpc b = MJoin p" "p < unat (producers s)" "ppc b p = PExit"
      "b' = b\<lparr>mpc := MJoin (p + 1)\<rparr>"
  | (joined) p where "mpc b = MJoin p" "\<not> p < unat (producers s)" "b' = b\<lparr>mpc := MStoreDone\<rparr>"
  | (store) "mpc b = MStoreDone" "b' = b\<lparr>producers_done := True, mpc := MJoinConsumer\<rparr>"
  | (consumed) "mpc b = MJoinConsumer" "cpc b = CExit" "b' = b\<lparr>mpc := MReport\<rparr>"
  | (start) "mpc b = MReport"
      "b' = b\<lparr>bw := enter_access TMain (OpReport ReProcessed) (OpReport ReUnreachable) (bw b), mpc := MCall\<rparr>"
  | (return) ct where "mpc b = MCall" "act (bw b) TMain = Some (Returned (RReport (Counts ct)))"
      "b' = b\<lparr>bw := leave_access TMain (bw b), mpc := MCheck ct\<rparr>"
  | (unreachable) "mpc b = MCall" "act (bw b) TMain = Some (Returned (RReport Unreachable))"
      "b' = b\<lparr>bw := leave_access TMain (bw b), mpc := MPanic ''all workers joined''\<rparr>"
  | (instr) w where "mpc b = MCall" "access_instr s (producers_done b) TMain (bw b) = Some w"
      "b' = b\<lparr>bw := w\<rparr>"
  | (check) ct where "mpc b = MCheck ct" "b' = b\<lparr>mpc := check_counts s ct\<rparr>"
  using assms unfolding main_step_def
  by (auto split: main_state.splits if_splits option.splits guard_pc.splits op_result.splits report.splits)

end
