(* ===== verification/SoftBenchInv.thy ===== *)
theory SoftBenchInv
  imports SoftBench
begin

text \<open>
  Invariants of the soft-lock benchmark: which thread is inside an access and with which
  closure, the order of spawning and joining, and the accounts of all counters.
\<close>

section \<open>Spawning, iterating and joining\<close>

text \<open>How many producers the main thread has spawned and joined, and how far it has come.\<close>

fun spawned :: "nat \<Rightarrow> main_state \<Rightarrow> nat" where
  "spawned n MSpawnConsumer = 0"
| "spawned n (MSpawn p) = p"
| "spawned n _ = n"

fun joined :: "nat \<Rightarrow> main_state \<Rightarrow> nat" where
  "joined n MSpawnConsumer = 0"
| "joined n (MSpawn _) = 0"
| "joined n (MJoin p) = p"
| "joined n _ = n"

fun stored :: "main_state \<Rightarrow> bool" where
  "stored MSpawnConsumer = False"
| "stored (MSpawn _) = False"
| "stored (MJoin _) = False"
| "stored MStoreDone = False"
| "stored _ = True"

fun consumer_joined :: "main_state \<Rightarrow> bool" where
  "consumer_joined MJoinConsumer = False"
| "consumer_joined m = stored m"

fun iterations_ok :: "nat \<Rightarrow> producer_state \<Rightarrow> bool" where
  "iterations_ok m (PLoop i) = (i \<le> m)"
| "iterations_ok m (PCall i) = (i < m)"
| "iterations_ok m (PYield i) = (i < m)"
| "iterations_ok m _ = True"

definition ctl_inv :: "scenario \<Rightarrow> bench \<Rightarrow> bool" where
  "ctl_inv s b \<longleftrightarrow>
     spawned (unat (producers s)) (mpc b) \<le> unat (producers s) \<and>
     joined (unat (producers s)) (mpc b) \<le> unat (producers s) \<and>
     (\<forall>q. ppc b q = PNew \<longleftrightarrow> spawned (unat (producers s)) (mpc b) \<le> q) \<and>
     (\<forall>q < joined (unat (producers s)) (mpc b). ppc b q = PExit) \<and>
     producers_done b = stored (mpc b) \<and>
     (consumer_joined (mpc b) \<longrightarrow> cpc b = CExit) \<and>
     (cpc b = CNew \<longleftrightarrow> mpc b = MSpawnConsumer) \<and>
     (\<forall>q. iterations_ok (unat (ops_per_producer s)) (ppc b q))"

lemma ctl_inv_start: "ctl_inv s bench_new"
  by (simp add: ctl_inv_def bench_new_def)

lemma ctl_inv_main:
  assumes "main_step s b = Some b'" and "ctl_inv s b"
  shows "ctl_inv s b'"
  using assms(1)
proof (cases rule: main_step_cases)
  case (join p)
  with assms(2) show ?thesis by (auto simp: ctl_inv_def less_Suc_eq)
qed (use assms(2) in \<open>auto simp: ctl_inv_def check_counts_def\<close>)

lemma ctl_inv_consumer_upd:
  assumes "ctl_inv s b" and "cpc b \<noteq> CNew" and "cpc b \<noteq> CExit" and "x \<noteq> CNew"
  shows "ctl_inv s (b\<lparr>bw := w, cpc := x\<rparr>)"
proof -
  have "\<not> consumer_joined (mpc b)" and "mpc b \<noteq> MSpawnConsumer"
    using assms(1-3) unfolding ctl_inv_def by blast+
  with assms(1,4) show ?thesis by (simp add: ctl_inv_def)
qed

lemma ctl_inv_consumer:
  assumes "consumer_step s b = Some b'" and "ctl_inv s b"
  shows "ctl_inv s b'"
  using assms(1)
proof (cases rule: consumer_step_cases)
  case (instr w)
  with assms(2) show ?thesis by (simp add: ctl_inv_def)
next
  case yield
  with ctl_inv_consumer_upd [OF assms(2), of CLoop "bw b"] show ?thesis by simp
qed (simp_all add: ctl_inv_consumer_upd assms(2))

lemma ctl_inv_producer_upd:
  assumes "ctl_inv s b" and "ppc b p \<noteq> PNew" and "ppc b p \<noteq> PExit" and "x \<noteq> PNew"
    and "iterations_ok (unat (ops_per_producer s)) x"
  shows "ctl_inv s (b\<lparr>bw := w, ppc := (ppc b)(p := x)\<rparr>)"
proof -
  have "\<not> p < joined (unat (producers s)) (mpc b)" using assms(1,3) unfolding ctl_inv_def by blast
  with assms show ?thesis by (auto simp: ctl_inv_def)
qed

lemma ctl_inv_producer:
  assumes "producer_step s p b = Some b'" and "ctl_inv s b"
  shows "ctl_inv s b'"
proof -
  have it: "iterations_ok (unat (ops_per_producer s)) (ppc b p)" using assms(2) by (simp add: ctl_inv_def)
  note upd = ctl_inv_producer_upd [OF assms(2), of p]
  from assms(1) show ?thesis
  proof (cases rule: producer_step_cases)
    case (finish i)
    then show ?thesis using upd [of PExit "bw b"] by simp
  next
    case (yield i)
    then show ?thesis using upd [of "PLoop (i + 1)" "bw b"] it by simp
  next
    case (instr i w)
    with assms(2) show ?thesis by (simp add: ctl_inv_def)
  next
    case (start i)
    then show ?thesis using it by (simp add: upd)
  next
    case (return i r x)
    then have "x \<noteq> PNew" "iterations_ok (unat (ops_per_producer s)) x" using it by auto
    with return(1,4) show ?thesis by (simp add: upd)
  qed
qed

lemma ctl_inv_step: "bench_step s t b = Some b' \<Longrightarrow> ctl_inv s b \<Longrightarrow> ctl_inv s b'"
  by (cases t) (auto intro: ctl_inv_main ctl_inv_consumer ctl_inv_producer)

section \<open>Threads inside an access\<close>

fun in_call :: "bench \<Rightarrow> tid \<Rightarrow> bool" where
  "in_call b TMain = (mpc b = MCall)"
| "in_call b TConsumer = (cpc b = CCall)"
| "in_call b (TProducer p) = (\<exists>i. ppc b p = PCall i)"

fun op_of :: "tid \<Rightarrow> op_pc \<Rightarrow> bool" where
  "op_of (TProducer _) (OpProducer _) = True"
| "op_of TConsumer (OpConsumer _) = True"
| "op_of TMain (OpReport _) = True"
| "op_of _ _ = False"

fun result_of :: "tid \<Rightarrow> op_result \<Rightarrow> bool" where
  "result_of (TProducer _) RProducer = True"
| "result_of TConsumer (RConsumer _) = True"
| "result_of TMain (RReport _) = True"
| "result_of _ _ = False"

fun thread_ok :: "tid \<Rightarrow> (op_pc, drain_pc, op_result) guard_pc \<Rightarrow> bool" where
  "thread_ok t (AtGuard f p) = (bench_arms f p \<and> op_of t f \<and> op_of t p)"
| "thread_ok t (InOp _ k) = op_of t k"
| "thread_ok t (InDrain _ r) = result_of t r"
| "thread_ok t (AtSwap r) = result_of t r"
| "thread_ok t (AtRelease r) = result_of t r"
| "thread_ok t (AtRecheck r) = result_of t r"
| "thread_ok t (AtReacquire r) = result_of t r"
| "thread_ok t (AtPendStore r) = result_of t r"
| "thread_ok t (Returned r) = result_of t r"

lemma op_code_thread:
  "op_of t k \<Longrightarrow> op_code s T e k c = Some (c', x) \<Longrightarrow>
   (case x of Inl k' \<Rightarrow> op_of t k' | Inr r \<Rightarrow> result_of t r)"
  by (cases "(t, k)" rule: op_of.cases) (auto simp: tail_call_eq_Some)

lemma thread_ok_step:
  assumes "thread_ok t pc" and "guard_step (op_code s T e) ds d0 l pc = Some (l', pc')"
  shows "thread_ok t pc'"
proof (cases pc)
  case (InOp held k)
  with assms show ?thesis
    by (auto split: option.splits sum.splits prod.splits if_splits dest: op_code_thread)
qed (use assms in \<open>auto simp: guard_def split: option.splits sum.splits prod.splits if_splits\<close>)

definition call_inv :: "bench \<Rightarrow> bool" where
  "call_inv b \<longleftrightarrow> (\<forall>t. (act (bw b) t \<noteq> None) = in_call b t) \<and>
     (\<forall>t pc. act (bw b) t = Some pc \<longrightarrow> thread_ok t pc)"

lemma call_inv_start: "call_inv bench_new"
  by (auto simp: call_inv_def bench_new_def world_new_def elim: in_call.elims)

lemma call_inv_move:
  assumes "call_inv b" and "\<And>u. u \<noteq> t \<Longrightarrow> in_call b' u = in_call b u"
    and "act (bw b') = (act (bw b))(t := x)" and "(x \<noteq> None) = in_call b' t"
    and "\<And>pc. x = Some pc \<Longrightarrow> thread_ok t pc"
  shows "call_inv b'"
  using assms by (simp add: call_inv_def)

lemma in_call_other:
  "t \<noteq> TMain \<Longrightarrow> in_call (b\<lparr>mpc := m\<rparr>) t = in_call b t"
  "t \<noteq> TConsumer \<Longrightarrow> in_call (b\<lparr>cpc := c\<rparr>) t = in_call b t"
  "t \<noteq> TProducer p \<Longrightarrow> in_call (b\<lparr>ppc := (ppc b)(p := x)\<rparr>) t = in_call b t"
  "t \<noteq> TProducer p \<Longrightarrow> in_call (b\<lparr>bw := w, ppc := (ppc b)(p := x)\<rparr>) t = in_call b t"
  by (cases t; simp)+

lemma in_call_same:
  "(m = MCall) = (mpc b = MCall) \<Longrightarrow> in_call (b\<lparr>mpc := m\<rparr>) t = in_call b t"
  "(c = CCall) = (cpc b = CCall) \<Longrightarrow> in_call (b\<lparr>cpc := c\<rparr>) t = in_call b t"
  "(\<exists>i. x = PCall i) = (\<exists>i. ppc b p = PCall i) \<Longrightarrow>
     in_call (b\<lparr>ppc := (ppc b)(p := x)\<rparr>) t = in_call b t"
  by (cases t; simp)+

text \<open>Control that leaves the accesses alone.\<close>

lemma call_inv_local:
  assumes "call_inv b" and "\<And>u. in_call b' u = in_call b u" and "bw b' = bw b"
  shows "call_inv b'"
  using assms by (simp add: call_inv_def)

lemma in_call_upd_simps [simp]:
  "in_call (b\<lparr>bw := w\<rparr>) = in_call b"
  "in_call (b\<lparr>producers_done := d\<rparr>) = in_call b"
  by (rule ext, rename_tac u, case_tac u; simp)+

lemma call_inv_ok: "call_inv b \<Longrightarrow> act (bw b) t = Some pc \<Longrightarrow> thread_ok t pc"
  unfolding call_inv_def by blast

lemma call_inv_in_call: "call_inv b \<Longrightarrow> act (bw b) t = Some pc \<Longrightarrow> in_call b t"
  unfolding call_inv_def by blast

lemma call_inv_None: "call_inv b \<Longrightarrow> \<not> in_call b t \<Longrightarrow> act (bw b) t = None"
  unfolding call_inv_def by blast

lemma call_inv_instr:
  assumes "call_inv b" and "access_instr s fin t (bw b) = Some w"
  shows "call_inv (b\<lparr>bw := w\<rparr>)"
proof -
  from assms(2) obtain pc l' pc' where *: "act (bw b) t = Some pc"
    "guard_step (op_code s (total_ops_of s) fin) run_pended_op_code RpSwap (lk (bw b)) pc = Some (l', pc')"
    "w = bw b\<lparr>lk := l', act := (act (bw b))(t \<mapsto> pc')\<rparr>" by (rule access_instr_cases)
  from assms(1) *(1) have ok: "thread_ok t pc" and call: "in_call b t"
    unfolding call_inv_def by blast+
  from thread_ok_step [OF ok *(2)] call show ?thesis
    by (intro call_inv_move [OF assms(1), of t _ "Some pc'"]) (simp_all add: *(3))
qed

lemma call_inv_main:
  assumes "main_step s b = Some b'" and "call_inv b" and "ctl_inv s b"
  shows "call_inv b'"
proof -
  from assms(1) show ?thesis
  proof (cases rule: main_step_cases)
    case (instr w)
    with assms(2) show ?thesis by (simp add: call_inv_instr)
  next
    case start
    show ?thesis
      by (rule call_inv_move [OF assms(2), of TMain _ "Some (AtGuard (OpReport ReProcessed) (OpReport ReUnreachable))"])
        (auto simp: start enter_access_def bench_arms_def in_call_other)
  next
    case (return ct)
    show ?thesis
      by (rule call_inv_move [OF assms(2), of TMain _ None])
        (simp_all add: return leave_access_def in_call_other)
  next
    case unreachable
    show ?thesis
      by (rule call_inv_move [OF assms(2), of TMain _ None])
        (simp_all add: unreachable leave_access_def in_call_other)
  next
    case (producer p)
    then have "ppc b p = PNew" using assms(3) by (simp add: ctl_inv_def)
    with producer show ?thesis
      by (intro call_inv_local [OF assms(2)]) (simp_all add: in_call_same)
  next
    case consumer
    then have "cpc b = CNew" using assms(3) by (simp add: ctl_inv_def)
    with consumer show ?thesis
      by (intro call_inv_local [OF assms(2)]) (simp_all add: in_call_same)
  qed (rule call_inv_local [OF assms(2)]; simp add: in_call_same check_counts_def)+
qed

lemma call_inv_consumer:
  assumes "consumer_step s b = Some b'" and "call_inv b" and "ctl_inv s b"
  shows "call_inv b'"
proof -
  from assms(1) show ?thesis
  proof (cases rule: consumer_step_cases)
    case (instr w)
    with assms(2) show ?thesis by (simp add: call_inv_instr)
  next
    case start
    show ?thesis
      by (rule call_inv_move [OF assms(2), of TConsumer _ "Some (AtGuard (OpConsumer CoLoad) (OpConsumer CoPendOnly))"])
        (auto simp: start enter_access_def bench_arms_def in_call_other)
  next
    case (return again)
    show ?thesis
      by (rule call_inv_move [OF assms(2), of TConsumer _ None])
        (simp_all add: return leave_access_def in_call_other)
  qed (rule call_inv_local [OF assms(2)]; simp add: in_call_same)
qed

lemma call_inv_producer:
  assumes "producer_step s p b = Some b'" and "call_inv b" and "ctl_inv s b"
  shows "call_inv b'"
proof -
  from assms(1) show ?thesis
  proof (cases rule: producer_step_cases)
    case (instr i w)
    with assms(2) show ?thesis by (simp add: call_inv_instr)
  next
    case (start i)
    show ?thesis
      by (rule call_inv_move [OF assms(2), of "TProducer p" _ "Some (AtGuard (OpProducer PrFull) (OpProducer PrPend))"])
        (auto simp: start enter_access_def bench_arms_def in_call_other)
  next
    case (return i r x)
    show ?thesis
      by (rule call_inv_move [OF assms(2), of "TProducer p" _ None])
        (use return(3) in \<open>auto simp: return(1,4) leave_access_def in_call_other\<close>)
  qed (rule call_inv_local [OF assms(2)]; simp add: in_call_same)+
qed

lemma call_inv_step:
  assumes "bench_step s t b = Some b'" and "call_inv b" and "ctl_inv s b"
  shows "call_inv b'"
  using assms by (cases t) (auto intro: call_inv_main call_inv_consumer call_inv_producer)

end
