(* ===== verification/SoftBenchAcc.thy ===== *)
theory SoftBenchAcc
  imports SoftBenchInv
begin

text \<open>
  The benchmark refines the generic lock, and its counters add up: the sum of what the threads
  have outstanding explains every difference between two counters, in every reachable state.
\<close>

section \<open>Refinement\<close>

lemma access_instr_refines:
  "access_instr s fin t w = Some w' \<Longrightarrow>
   access_step (op_code s (total_ops_of s)) run_pended_op_code RpSwap bench_arms w w'"
  by (erule access_instr_cases) (simp add: access_step.run)

lemma enter_access_refines:
  "act w t = None \<Longrightarrow> bench_arms f p \<Longrightarrow>
   access_step (op_code s T) run_pended_op_code RpSwap bench_arms w (enter_access t f p w)"
  unfolding enter_access_def by (rule access_step.enter)

lemma leave_access_refines:
  "act w t = Some (Returned r) \<Longrightarrow>
   access_step (op_code s T) run_pended_op_code RpSwap bench_arms w (leave_access t w)"
  unfolding leave_access_def by (rule access_step.leave)

lemmas access_refines = access_instr_refines enter_access_refines leave_access_refines

text \<open>What a step of the benchmark is to the world of accesses.\<close>

lemma bench_step_access:
  assumes "bench_step s t b = Some b'" and "call_inv b"
  obtains (idle) "act (bw b) t = None" "bw b' = bw b"
  | (enter) f p where "act (bw b) t = None" "bench_arms f p" "in_call b' t" "bw b' = enter_access t f p (bw b)"
  | (leave) r where "act (bw b) t = Some (Returned r)" "bw b' = leave_access t (bw b)"
  | (instr) fin where "access_instr s fin t (bw b) = Some (bw b')"
proof (cases t)
  case TMain
  with assms(1) have "main_step s b = Some b'" by simp
  then show ?thesis
    using call_inv_None [OF assms(2), of TMain] that
    by (cases rule: main_step_cases) (auto simp: bench_arms_def TMain)
next
  case TConsumer
  with assms(1) have "consumer_step s b = Some b'" by simp
  then show ?thesis
    using call_inv_None [OF assms(2), of TConsumer] that
    by (cases rule: consumer_step_cases) (auto simp: bench_arms_def TConsumer)
next
  case (TProducer p)
  with assms(1) have "producer_step s p b = Some b'" by simp
  then show ?thesis
    using call_inv_None [OF assms(2), of "TProducer p"] that
    by (cases rule: producer_step_cases) (auto simp: bench_arms_def TProducer)
qed

lemma bench_step_refines:
  assumes "bench_step s t b = Some b'" and "call_inv b"
  shows "bw b' = bw b \<or>
    access_step (op_code s (total_ops_of s)) run_pended_op_code RpSwap bench_arms (bw b) (bw b')"
  using assms by (cases rule: bench_step_access) (auto simp: access_refines)

lemma bench_reach_inv:
  "bench_reach s b \<Longrightarrow> ctl_inv s b \<and> call_inv b \<and>
     access_reach (op_code s (total_ops_of s)) run_pended_op_code RpSwap bench_arms demo_inner_new (bw b)"
proof (induction rule: bench_reach.induct)
  case bench_start
  show ?case
    by (simp add: ctl_inv_start call_inv_start) (simp add: bench_new_def access_reach.reach_new)
next
  case (bench_next b t b')
  then have "call_inv b" "ctl_inv s b" by simp_all
  with bench_step_refines [OF bench_next.hyps(2)] bench_next show ?case
    by (auto intro: ctl_inv_step call_inv_step access_reach.reach_step)
qed

lemmas bench_reach_ctl = bench_reach_inv [THEN conjunct1]
lemmas bench_reach_call = bench_reach_inv [THEN conjunct2, THEN conjunct1]
lemmas bench_reach_access = bench_reach_inv [THEN conjunct2, THEN conjunct2]

lemma demo_res_new: "demo_res demo_inner_new"
  by (simp add: demo_res_def demo_inner_new_def fifo_def)

lemma bench_reach_lock: "bench_reach s b \<Longrightarrow> lock_inv (bw b)"
  by (rule lock_inv_reach [OF bench_reach_access])

lemma bench_reach_region: "bench_reach s b \<Longrightarrow> ex.region_inv (bw b)"
  by (rule ex.region_inv_reach [OF bench_reach_access demo_res_new])

section \<open>Accounts of the whole system\<close>

definition threads :: "scenario \<Rightarrow> tid set" where
  "threads s = {TMain, TConsumer} \<union> TProducer ` {..<unat (producers s)}"

definition outstanding ::
  "scenario \<Rightarrow> (op_pc \<Rightarrow> int) \<Rightarrow> (drain_pc \<Rightarrow> int) \<Rightarrow> (op_result \<Rightarrow> int) \<Rightarrow> soft_world \<Rightarrow> int" where
  "outstanding s wk wd wr w = (\<Sum>t\<in>threads s. weight_opt wk wd wr (act w t))"

text \<open>Iterations of its loop that a producer has completed.\<close>

fun completed :: "nat \<Rightarrow> producer_state \<Rightarrow> nat" where
  "completed m PNew = 0"
| "completed m (PLoop i) = i"
| "completed m (PCall i) = i"
| "completed m (PYield i) = i + 1"
| "completed m PExit = m"

definition completed_all :: "scenario \<Rightarrow> (nat \<Rightarrow> producer_state) \<Rightarrow> int" where
  "completed_all s pp = (\<Sum>p<unat (producers s). int (completed (unat (ops_per_producer s)) (pp p)))"

definition accounts :: "scenario \<Rightarrow> soft_world \<Rightarrow> (nat \<Rightarrow> producer_state) \<Rightarrow> bool" where
  "accounts s w pp \<longleftrightarrow>
     bal_entry (content (lk w)) = completed_all s pp + outstanding s op_entered (\<lambda>_. 0) result_entered w \<and>
     bal_full (content (lk w)) = outstanding s op_lag (\<lambda>_. 0) (\<lambda>_. 0) w \<and>
     bal_pend (content (lk w)) = outstanding s op_taken drain_taken (\<lambda>_. 0) w \<and>
     bal_queue (content (lk w)) = outstanding s op_drawn drain_drawn (\<lambda>_. 0) w \<and>
     bal_id (content (lk w)) = outstanding s op_due drain_due (\<lambda>_. 0) w"

lemma finite_threads [simp]: "finite (threads s)"
  by (simp add: threads_def)

lemma threads_iff [simp]:
  "TMain \<in> threads s" "TConsumer \<in> threads s"
  "TProducer p \<in> threads s \<longleftrightarrow> p < unat (producers s)"
  by (auto simp: threads_def)

lemma outstanding_enter:
  assumes "t \<in> threads s" and "act w t = None"
  shows "outstanding s wk wd wr (enter_access t f p w) = outstanding s wk wd wr w"
  using sum_fun_upd [OF finite_threads assms(1), of "weight_opt wk wd wr" "act w" "Some (AtGuard f p)"] assms(2)
  by (simp add: outstanding_def enter_access_def del: fun_upd_apply)

lemma outstanding_leave:
  assumes "t \<in> threads s" and "act w t = Some (Returned r)"
  shows "outstanding s wk wd wr (leave_access t w) = outstanding s wk wd wr w - wr r"
  using sum_fun_upd [OF finite_threads assms(1), of "weight_opt wk wd wr" "act w" None] assms(2)
  by (simp add: outstanding_def leave_access_def del: fun_upd_apply)

lemma outstanding_instr:
  assumes "t \<in> threads s" and "act w t = Some pc"
  shows "outstanding s wk wd wr (w\<lparr>lk := l, act := (act w)(t \<mapsto> pc')\<rparr>) =
    outstanding s wk wd wr w - weight wk wd wr pc + weight wk wd wr pc'"
  using sum_fun_upd [OF finite_threads assms(1), of "weight_opt wk wd wr" "act w" "Some pc'"] assms(2)
  by (simp add: outstanding_def del: fun_upd_apply)

lemma lk_access [simp]:
  "lk (enter_access t f p w) = lk w" "lk (leave_access t w) = lk w"
  by (simp_all add: enter_access_def leave_access_def)

lemma accounts_enter:
  "accounts s w pp \<Longrightarrow> t \<in> threads s \<Longrightarrow> act w t = None \<Longrightarrow> accounts s (enter_access t f p w) pp"
  by (simp add: accounts_def outstanding_enter)

lemma accounts_leave:
  "accounts s w pp \<Longrightarrow> t \<in> threads s \<Longrightarrow> act w t = Some (Returned r) \<Longrightarrow>
   completed_all s pp' = completed_all s pp + result_entered r \<Longrightarrow>
   accounts s (leave_access t w) pp'"
  by (simp add: accounts_def outstanding_leave)

lemma accounts_completed:
  "accounts s w pp \<Longrightarrow> completed_all s pp' = completed_all s pp \<Longrightarrow> accounts s w pp'"
  by (simp add: accounts_def)

lemma completed_all_upd:
  assumes "p < unat (producers s)"
  shows "completed_all s (pp(p := x)) = completed_all s pp -
    int (completed (unat (ops_per_producer s)) (pp p)) + int (completed (unat (ops_per_producer s)) x)"
  using sum_fun_upd [of "{..<unat (producers s)}" p "\<lambda>x. int (completed (unat (ops_per_producer s)) x)" pp x] assms
  by (simp add: completed_all_def del: fun_upd_apply)

lemma accounts_instr:
  assumes "accounts s w pp" and "t \<in> threads s" and "access_instr s fin t w = Some w'"
    and "\<And>pc. act w t = Some pc \<Longrightarrow> ae.roomy pc (content (lk w))"
  shows "accounts s w' pp"
  using assms(3)
proof (rule access_instr_cases)
  fix pc l' pc'
  assume pc: "act w t = Some pc"
    and step: "guard_step (op_code s (total_ops_of s) fin) run_pended_op_code RpSwap (lk w) pc = Some (l', pc')"
    and w': "w' = w\<lparr>lk := l', act := (act w)(t \<mapsto> pc')\<rparr>"
  note room = assms(4) [OF pc]
  note upd = ae.balance_update [where a = "act w" and T = "threads s" and t = t, OF step room _ assms(2) pc]
    af.balance_update [where a = "act w" and T = "threads s" and t = t, OF step room _ assms(2) pc]
    ap.balance_update [where a = "act w" and T = "threads s" and t = t, OF step room _ assms(2) pc]
    aq.balance_update [where a = "act w" and T = "threads s" and t = t, OF step room _ assms(2) pc]
    ai.balance_update [where a = "act w" and T = "threads s" and t = t, OF step room _ assms(2) pc]
  show ?thesis
    using assms(1) upd by (simp add: accounts_def outstanding_def w' del: fun_upd_apply)
qed

section \<open>Bounds\<close>

lemma weight_opt_nonneg:
  "(\<And>k. 0 \<le> wk k) \<Longrightarrow> (\<And>d. 0 \<le> wd d) \<Longrightarrow> (\<And>r. 0 \<le> wr r) \<Longrightarrow> 0 \<le> weight_opt wk wd wr x"
  by (cases x; simp) (rename_tac pc, case_tac pc; simp)

lemma outstanding_nonneg:
  "(\<And>k. 0 \<le> wk k) \<Longrightarrow> (\<And>d. 0 \<le> wd d) \<Longrightarrow> (\<And>r. 0 \<le> wr r) \<Longrightarrow> 0 \<le> outstanding s wk wd wr w"
  unfolding outstanding_def by (intro sum_nonneg weight_opt_nonneg)

lemma weights_nonneg:
  "0 \<le> op_lag k" "0 \<le> op_taken k" "0 \<le> op_drawn k" "0 \<le> drain_taken d" "0 \<le> drain_drawn d"
  "0 \<le> drain_due d" "0 \<le> op_due k + op_lag k"
proof -
  have s: "0 \<le> submit_lag k1" "0 \<le> submit_drawn k1" "0 \<le> submit_due k1 + submit_lag k1" for k1
    by (cases k1; simp)+
  have p: "0 \<le> process_popped k2" for k2 by (cases k2; simp)
  show d: "0 \<le> drain_taken d" "0 \<le> drain_drawn d" "0 \<le> drain_due d" for d by (cases d; simp)+
  show "0 \<le> op_lag k" by (cases k rule: op_lag.cases) (simp_all add: s)
  show "0 \<le> op_taken k" by (cases k rule: op_taken.cases) (simp_all add: d)
  show "0 \<le> op_drawn k" by (cases k rule: op_drawn.cases) (simp_all add: s p d)
  show "0 \<le> op_due k + op_lag k" by (cases k rule: op_due.cases) (simp_all add: s d)
qed

lemma outstanding_due_lag:
  "0 \<le> outstanding s op_due drain_due (\<lambda>_. 0) w + outstanding s op_lag (\<lambda>_. 0) (\<lambda>_. 0) w"
proof -
  have "0 \<le> weight_opt op_due drain_due (\<lambda>_. 0) x + weight_opt op_lag (\<lambda>_. 0) (\<lambda>_. 0) x" for x
    by (cases x; simp) (rename_tac pc, case_tac pc; simp add: weights_nonneg)
  then show ?thesis unfolding outstanding_def sum.distrib [symmetric] by (intro sum_nonneg)
qed

lemma sum_threads:
  "(\<Sum>t\<in>threads s. f t) = f TMain + f TConsumer + (\<Sum>p<unat (producers s). f (TProducer p))"
proof -
  have "(\<Sum>t\<in>threads s. f t) = (\<Sum>t\<in>{TMain, TConsumer}. f t) + (\<Sum>t\<in>TProducer ` {..<unat (producers s)}. f t)"
    unfolding threads_def by (rule sum.union_disjoint) auto
  also have "(\<Sum>t\<in>TProducer ` {..<unat (producers s)}. f t) = (\<Sum>p<unat (producers s). f (TProducer p))"
    by (subst sum.reindex) (auto simp: inj_on_def)
  finally show ?thesis by simp
qed

lemma entered_bounds:
  "thread_ok t pc \<Longrightarrow> weight op_entered (\<lambda>_. 0) result_entered pc \<le> (case t of TProducer _ \<Rightarrow> 1 | _ \<Rightarrow> 0)"
proof -
  have k: "op_of t k \<Longrightarrow> op_entered k \<le> (case t of TProducer _ \<Rightarrow> 1 | _ \<Rightarrow> 0)" for k
    by (cases "(t, k)" rule: op_of.cases) (auto, rename_tac x, case_tac x, auto)
  have r: "result_of t r \<Longrightarrow> result_entered r \<le> (case t of TProducer _ \<Rightarrow> 1 | _ \<Rightarrow> 0)" for r
    by (cases "(t, r)" rule: result_of.cases) auto
  show "thread_ok t pc \<Longrightarrow> ?thesis"
    by (cases pc) (auto simp: k r split: tid.splits)
qed

lemma iterations_completed:
  "iterations_ok m x \<Longrightarrow> completed m x \<le> m"
  "iterations_ok m (PCall i) \<Longrightarrow> completed m (PCall i) + 1 \<le> m"
  by (cases x; simp)+

lemma entries_bound:
  assumes "accounts s (bw b) (ppc b)" and "ctl_inv s b" and "call_inv b"
  shows "bal_entry (content (lk (bw b))) \<le> int (total_nat s)"
proof -
  let ?m = "unat (ops_per_producer s)"
  let ?w = "\<lambda>t. weight_opt op_entered (\<lambda>_. 0) result_entered (act (bw b) t)"
  have ent: "?w t \<le> (case t of TProducer _ \<Rightarrow> 1 | _ \<Rightarrow> 0)" for t
    using assms(3) entered_bounds [of t]
    by (cases "act (bw b) t") (auto simp: call_inv_def split: tid.splits)
  have prod: "int (completed ?m (ppc b p)) + ?w (TProducer p) \<le> int ?m" for p
  proof (cases "act (bw b) (TProducer p)")
    case None
    have "completed ?m (ppc b p) \<le> ?m"
      using assms(2) by (simp add: ctl_inv_def iterations_completed)
    then show ?thesis by (simp only: None weight_opt_simps add_0_right of_nat_le_iff)
  next
    case (Some pc)
    with assms(3) have "in_call b (TProducer p)" unfolding call_inv_def by blast
    then obtain i where i: "ppc b p = PCall i" by auto
    have "completed ?m (ppc b p) + 1 \<le> ?m"
      using assms(2) unfolding i [symmetric] ctl_inv_def
      by (metis i iterations_completed(2))
    then have "int (completed ?m (ppc b p)) + 1 \<le> int ?m" by linarith
    moreover have "?w (TProducer p) \<le> 1" using ent [of "TProducer p"] by simp
    ultimately show ?thesis by linarith
  qed
  have "bal_entry (content (lk (bw b))) \<le>
      (\<Sum>p<unat (producers s). int (completed ?m (ppc b p)) + ?w (TProducer p))"
    using assms(1) ent [of TMain] ent [of TConsumer]
    by (simp add: accounts_def completed_all_def outstanding_def sum_threads sum.distrib)
  also have "\<dots> \<le> (\<Sum>p<unat (producers s). int ?m)" by (rule sum_mono) (rule prod)
  finally show ?thesis by (simp add: total_nat_def)
qed

lemma counter_bounds:
  assumes "accounts s w pp" and "bal_entry (content (lk w)) \<le> M"
  defines "c \<equiv> content (lk w)"
  shows "uint (full_entries c) + uint (pend_entries c) \<le> M"
    and "uint (direct_items c) \<le> uint (full_entries c)"
    and "uint (pending_submit c) + uint (drained_items c) + outstanding s op_taken drain_taken (\<lambda>_. 0) w
         = uint (pend_entries c)"
    and "uint (next_id c) \<le> M + 1"
    and "uint (processed c) + int (length (queue c)) \<le> uint (next_id c) - 1"
proof -
  have lag: "0 \<le> outstanding s op_lag (\<lambda>_. 0) (\<lambda>_. 0) w"
    and taken: "0 \<le> outstanding s op_taken drain_taken (\<lambda>_. 0) w"
    and drawn: "0 \<le> outstanding s op_drawn drain_drawn (\<lambda>_. 0) w"
    by (rule outstanding_nonneg; simp add: weights_nonneg)+
  note acc = assms(1) [unfolded accounts_def bal_defs, folded c_def]
  show 1: "uint (full_entries c) + uint (pend_entries c) \<le> M"
    using assms(2) by (simp add: bal_entry_def c_def)
  show 2: "uint (direct_items c) \<le> uint (full_entries c)" using acc lag by linarith
  show 3: "uint (pending_submit c) + uint (drained_items c) + outstanding s op_taken drain_taken (\<lambda>_. 0) w
      = uint (pend_entries c)" using acc by linarith
  have "0 \<le> uint (pending_submit c)" by simp
  with 1 3 taken acc outstanding_due_lag [of s w] show "uint (next_id c) \<le> M + 1" by linarith
  show "uint (processed c) + int (length (queue c)) \<le> uint (next_id c) - 1" using acc drawn by linarith
qed

lemma weight_le_outstanding:
  assumes "t \<in> threads s" and "act w t = Some pc"
    and "\<And>k. 0 \<le> wk k" and "\<And>d. 0 \<le> wd d" and "\<And>r. 0 \<le> wr r"
  shows "weight wk wd wr pc \<le> outstanding s wk wd wr w"
proof -
  have "weight_opt wk wd wr (act w t) \<le> outstanding s wk wd wr w"
    unfolding outstanding_def using assms(1,3-) by (intro member_le_sum weight_opt_nonneg) auto
  then show ?thesis by (simp add: assms(2))
qed

lemma bounds_nonneg:
  "0 \<le> uint (full_entries c) \<and> 0 \<le> uint (pend_entries c) \<and> 0 \<le> uint (pending_submit c) \<and>
   0 \<le> uint (drained_items c) \<and> 0 \<le> int (length (queue c)) \<and>
   0 \<le> outstanding s op_taken drain_taken (\<lambda>_. 0) w"
  by (simp add: outstanding_nonneg weights_nonneg)

lemma small_in_bounds:
  assumes acc: "accounts s (bw b) (ppc b)" and inv: "ctl_inv s b" "call_inv b" and fits: "fits s"
  shows "small (content (lk (bw b)))"
  unfolding small_def
  using counter_bounds [OF acc entries_bound [OF acc inv]] bounds_nonneg [of "content (lk (bw b))" s "bw b"]
    fits_int [OF fits]
  by (intro conjI) linarith+

lemma roomy_in_bounds:
  assumes acc: "accounts s (bw b) (ppc b)" and inv: "ctl_inv s b" "call_inv b" and fits: "fits s"
    and t: "t \<in> threads s" "act (bw b) t = Some pc"
  shows "ae.roomy pc (content (lk (bw b)))"
proof -
  let ?c = "content (lk (bw b))"
  have "weight op_taken drain_taken (\<lambda>_. 0) pc \<le> outstanding s op_taken drain_taken (\<lambda>_. 0) (bw b)"
    by (rule weight_le_outstanding [OF t]) (simp_all add: weights_nonneg)
  then have room: "uint (drained_items ?c) + weight op_taken drain_taken (\<lambda>_. 0) pc < 2 ^ 64"
    using counter_bounds(1,3) [OF acc entries_bound [OF acc inv]] bounds_nonneg [of ?c s "bw b"] fits_int [OF fits]
    by linarith
  have "thread_ok t pc" using inv(2) t(2) by (simp add: call_inv_def)
  with small_in_bounds [OF acc inv fits] room show ?thesis
    by (cases pc) (simp_all add: ae.roomy_def op_room_def drain_room_def)
qed

section \<open>The accounts hold in every reachable state\<close>

lemma in_call_thread:
  assumes "ctl_inv s b" and "in_call b t"
  shows "t \<in> threads s"
proof (cases t)
  case (TProducer p)
  with assms(2) have "ppc b p \<noteq> PNew" by auto
  with assms(1) have "p < spawned (unat (producers s)) (mpc b)"
    unfolding ctl_inv_def by (meson not_le)
  with assms(1) TProducer show ?thesis unfolding ctl_inv_def by simp
qed simp_all

lemma spawned_thread:
  assumes "ctl_inv s b" and "ppc b p \<noteq> PNew"
  shows "p < unat (producers s)"
proof -
  from assms have "p < spawned (unat (producers s)) (mpc b)"
    unfolding ctl_inv_def by (meson not_le)
  with assms(1) show ?thesis unfolding ctl_inv_def by simp
qed

definition acc_inv :: "scenario \<Rightarrow> bench \<Rightarrow> bool" where
  "acc_inv s b \<longleftrightarrow> accounts s (bw b) (ppc b)"

lemma accounts_start: "acc_inv s bench_new"
  by (simp add: acc_inv_def accounts_def bench_new_def world_new_def soft_lock_new_def demo_inner_new_def
      bal_defs completed_all_def outstanding_def)

lemma acc_inv_instr:
  assumes "acc_inv s b" and inv: "ctl_inv s b" "call_inv b" and "fits s"
    and "access_instr s fin t (bw b) = Some w" and "in_call b t"
  shows "accounts s w (ppc b)"
  using assms in_call_thread [OF inv(1) assms(6)]
  by (intro accounts_instr [OF _ _ assms(5)]) (auto simp: acc_inv_def intro: roomy_in_bounds)

lemma acc_inv_main:
  assumes "main_step s b = Some b'" and acc: "acc_inv s b" and inv: "ctl_inv s b" "call_inv b"
    and fits: "fits s"
  shows "acc_inv s b'"
proof -
  note None = call_inv_None [OF inv(2), of TMain]
  from assms(1) show ?thesis
  proof (cases rule: main_step_cases)
    case (producer p)
    then have "ppc b p = PNew" using inv(1) by (simp add: ctl_inv_def)
    with producer acc show ?thesis
      unfolding acc_inv_def by (auto intro!: accounts_completed [of s _ "ppc b"] simp: completed_all_upd)
  next
    case (instr w)
    with acc_inv_instr [OF acc inv fits instr(2)] show ?thesis by (simp add: acc_inv_def)
  next
    case start
    with acc None show ?thesis by (simp add: acc_inv_def accounts_enter)
  next
    case (return ct)
    with acc show ?thesis by (simp add: acc_inv_def accounts_leave)
  next
    case unreachable
    with acc show ?thesis by (simp add: acc_inv_def accounts_leave)
  qed (use acc in \<open>simp_all add: acc_inv_def\<close>)
qed

lemma acc_inv_consumer:
  assumes "consumer_step s b = Some b'" and acc: "acc_inv s b" and inv: "ctl_inv s b" "call_inv b"
    and fits: "fits s"
  shows "acc_inv s b'"
proof -
  note None = call_inv_None [OF inv(2), of TConsumer]
  from assms(1) show ?thesis
  proof (cases rule: consumer_step_cases)
    case (instr w)
    with acc_inv_instr [OF acc inv fits instr(2)] show ?thesis by (simp add: acc_inv_def)
  next
    case start
    with acc None show ?thesis by (simp add: acc_inv_def accounts_enter)
  next
    case (return again)
    with acc show ?thesis by (simp add: acc_inv_def accounts_leave)
  qed (use acc in \<open>simp_all add: acc_inv_def\<close>)
qed

lemma acc_inv_producer:
  assumes "producer_step s p b = Some b'" and acc: "acc_inv s b" and inv: "ctl_inv s b" "call_inv b"
    and fits: "fits s"
  shows "acc_inv s b'"
proof -
  note None = call_inv_None [OF inv(2), of "TProducer p"]
  from assms(1) show ?thesis
  proof (cases rule: producer_step_cases)
    case (instr i w)
    with acc_inv_instr [OF acc inv fits instr(2)] show ?thesis by (simp add: acc_inv_def)
  next
    case (start i)
    then have p: "p < unat (producers s)" using spawned_thread [OF inv(1), of p] by simp
    have "completed_all s ((ppc b)(p := PCall i)) = completed_all s (ppc b)"
      by (simp add: completed_all_upd p start(1))
    with start p acc None show ?thesis
      by (simp add: acc_inv_def accounts_enter accounts_completed [of s _ "ppc b"])
  next
    case (return i r x)
    then have p: "p < unat (producers s)" using spawned_thread [OF inv(1), of p] by simp
    have "result_of (TProducer p) r"
      using inv(2) return(2) unfolding call_inv_def by (metis thread_ok.simps(9))
    then have "r = RProducer" by (cases r) simp_all
    with return(1,3) p
    have "completed_all s ((ppc b)(p := x)) = completed_all s (ppc b) + result_entered r"
      by (auto simp: completed_all_upd)
    from accounts_leave [OF acc [unfolded acc_inv_def] _ return(2) this] p return(4)
    show ?thesis by (simp add: acc_inv_def)
  next
    case (finish i)
    then have p: "p < unat (producers s)" using spawned_thread [OF inv(1), of p] by simp
    have "iterations_ok (unat (ops_per_producer s)) (ppc b p)" using inv(1) by (simp add: ctl_inv_def)
    with finish(1,2) have "i = unat (ops_per_producer s)" by simp
    with finish p acc show ?thesis
      unfolding acc_inv_def by (auto intro!: accounts_completed [of s _ "ppc b"] simp: completed_all_upd)
  next
    case (yield i)
    then have p: "p < unat (producers s)" using spawned_thread [OF inv(1), of p] by simp
    with yield acc show ?thesis
      unfolding acc_inv_def by (auto intro!: accounts_completed [of s _ "ppc b"] simp: completed_all_upd)
  qed
qed

lemma acc_inv_step:
  assumes "bench_step s t b = Some b'" and acc: "acc_inv s b" and inv: "ctl_inv s b" "call_inv b"
    and fits: "fits s"
  shows "acc_inv s b'"
  using assms by (cases t) (auto intro: acc_inv_main acc_inv_consumer acc_inv_producer)

lemma bench_reach_accounts: "bench_reach s b \<Longrightarrow> fits s \<Longrightarrow> acc_inv s b"
proof (induction rule: bench_reach.induct)
  case bench_start
  show ?case by (rule accounts_start)
next
  case (bench_next b t b')
  then show ?case by (blast intro: acc_inv_step dest: bench_reach_ctl bench_reach_call)
qed

lemma bench_reach_small:
  assumes "fits s" and "bench_reach s b"
  shows "small (content (lk (bw b)))"
  using bench_reach_accounts [OF assms(2,1)] assms(1)
  by (intro small_in_bounds [OF _ bench_reach_ctl [OF assms(2)] bench_reach_call [OF assms(2)]]) (simp_all add: acc_inv_def)

section \<open>The owner is alone\<close>

text \<open>What only an owner has outstanding is outstanding at the owner, and is nothing while the lock is free.\<close>

lemma nonholder_weight:
  assumes "ex.region pc c" and "\<not> holds pc" and "\<And>k. op_pend k \<Longrightarrow> wk k = 0"
  shows "weight wk wd (\<lambda>_. 0) pc = 0"
  using assms by (cases pc) auto

lemma holder_outstanding:
  assumes "bench_reach s b" and "act (bw b) t = Some pc" and "holds pc" and "\<And>k. op_pend k \<Longrightarrow> wk k = 0"
  shows "outstanding s wk wd (\<lambda>_. 0) (bw b) = weight wk wd (\<lambda>_. 0) pc"
proof -
  let ?a = "act (bw b)"
  have "t \<in> threads s"
    by (rule in_call_thread [OF bench_reach_ctl [OF assms(1)] call_inv_in_call [OF bench_reach_call [OF assms(1)] assms(2)]])
  moreover have "weight_opt wk wd (\<lambda>_. 0) ((?a(t := None)) u) = 0" for u
  proof (cases "(?a(t := None)) u")
    case (Some qc)
    then have u: "u \<noteq> t" "?a u = Some qc" by (auto split: if_splits)
    have "\<not> holds qc"
      using bench_reach_lock [OF assms(1)] assms(2,3) u
      by (fastforce simp: lock_inv_def full_holder_def split: option.splits)
    moreover have "ex.region qc (content (lk (bw b)))"
      using bench_reach_region [OF assms(1)] u(2) by (simp add: ex.region_inv_def)
    ultimately show ?thesis using Some nonholder_weight [where wk = wk and wd = wd] assms(4) by simp
  qed simp
  ultimately show ?thesis
    using sum_fun_upd [OF finite_threads, of t s "weight_opt wk wd (\<lambda>_. 0)" ?a None] assms(2)
    by (simp add: outstanding_def del: fun_upd_apply)
qed

end
