(* ===== verification/SoftBatches.thy ===== *)
theory SoftBatches
  imports SoftBenchAcc
begin

text \<open>
  Drained batches and drained items: \<open>run_pended_op\<close> counts a batch before its items, and never
  counts an empty batch, so the average that the benchmark prints is at least 1 or there was
  no batch at all.
\<close>

section \<open>Threads that drain\<close>

fun drains :: "(op_pc, drain_pc, op_result) guard_pc \<Rightarrow> drain_pc option" where
  "drains (InDrain d r) = Some d"
| "drains (InOp held (OpConsumer (CoDrain prior d))) = Some d"
| "drains pc = None"

text \<open>What a thread that drains knows; it \<open>lags\<close> between counting the batch and counting its items.\<close>

definition drain_known :: "(op_pc, drain_pc, op_result) guard_pc \<Rightarrow> demo_inner \<Rightarrow> bool" where
  "drain_known pc c \<longleftrightarrow> (\<forall>n. drains pc = Some (RpBatches n) \<longrightarrow> n \<noteq> 0) \<and>
     (\<forall>n. drains pc = Some (RpItems n) \<longrightarrow> n \<noteq> 0 \<and> drained_batches c \<noteq> 0)"

definition lags :: "(op_pc, drain_pc, op_result) guard_pc \<Rightarrow> bool" where
  "lags pc \<longleftrightarrow> (\<exists>n. drains pc = Some (RpItems n))"

text \<open>What an instruction does to the two counters.\<close>

definition batch_effect :: "drain_pc option \<Rightarrow> demo_inner \<Rightarrow> drain_pc option \<Rightarrow> demo_inner \<Rightarrow> bool" where
  "batch_effect d c d' c' \<longleftrightarrow>
     (case d of
        Some (RpBatches n) \<Rightarrow> drained_batches c' = drained_batches c + 1 \<and> drained_items c' = drained_items c \<and>
          d' = Some (RpItems n)
      | Some (RpItems n) \<Rightarrow> drained_batches c' = drained_batches c \<and> drained_items c' = drained_items c + n \<and>
          d' \<in> {None, Some (RpLock n)}
      | _ \<Rightarrow> drained_batches c' = drained_batches c \<and> drained_items c' = drained_items c \<and>
          (\<forall>n. d' \<noteq> Some (RpItems n)) \<and> (\<forall>n. d' = Some (RpBatches n) \<longrightarrow> n \<noteq> 0))"

lemma codes_batches:
  "submit_direct_code k1 c = Some (c', x1) \<Longrightarrow> drained_batches c' = drained_batches c \<and> drained_items c' = drained_items c"
  "process_some_code k2 c = Some (c', x2) \<Longrightarrow> drained_batches c' = drained_batches c \<and> drained_items c' = drained_items c"
  "queue_len_code k3 c = Some (c', x3) \<Longrightarrow> drained_batches c' = drained_batches c \<and> drained_items c' = drained_items c"
    apply (cases k1; auto split: if_splits)
   apply (cases k2; auto split: if_splits list.splits)
  apply (cases k3; auto split: if_splits)
  done

lemma drain_effect:
  "run_pended_op_code d c = Some (c', x) \<Longrightarrow>
   batch_effect (Some d) c (case x of Inl d' \<Rightarrow> Some d' | Inr _ \<Rightarrow> None) c'"
  by (cases d; auto simp: batch_effect_def split: if_splits)

lemma batch_effect_idle:
  "drained_batches c' = drained_batches c \<Longrightarrow> drained_items c' = drained_items c \<Longrightarrow>
   d' = None \<or> d' = Some RpSwap \<Longrightarrow> batch_effect None c d' c'"
  by (auto simp: batch_effect_def)

lemma op_effect:
  assumes "op_code s T e k c = Some (c', x)"
  shows "batch_effect (drains (InOp held k)) c
    (drains (case x of Inl k' \<Rightarrow> InOp held k' | Inr r \<Rightarrow> if held then AtSwap r else AtPendStore r)) c'"
proof (cases "\<exists>prior d. k = OpConsumer (CoDrain prior d)")
  case True
  then obtain prior d where k: "k = OpConsumer (CoDrain prior d)" by blast
  with assms obtain y where y: "run_pended_op_code d c = Some (c', y)"
    and x: "x = Inl (OpConsumer (case y of Inl d' \<Rightarrow> CoDrain prior d' | Inr _ \<Rightarrow> CoProcess prior (PsLock (consumer_budget s))))"
    by (auto simp: tail_call_eq_Some call_eq_Some split: sum.splits)
  from drain_effect [OF y] show ?thesis by (cases y) (simp_all add: x k)
next
  case False
  have same: "drained_batches c' = drained_batches c \<and> drained_items c' = drained_items c"
    using assms False
    by (cases k rule: op_pend.cases)
      (auto simp: tail_call_eq_Some call_eq_Some pend_submit_def dest: codes_batches split: if_splits)
  have no: "drains (InOp held k) = None" using False by (cases k rule: op_pend.cases) auto
  have "drains (case x of Inl k' \<Rightarrow> InOp held k' | Inr r \<Rightarrow> if held then AtSwap r else AtPendStore r) \<in> {None, Some RpSwap}"
    using assms False
    by (cases k rule: op_pend.cases) (auto simp: tail_call_eq_Some call_eq_Some split: if_splits)
  with same show ?thesis unfolding no by (intro batch_effect_idle) auto
qed

lemma guard_effect:
  assumes "guard_step (op_code s T e) run_pended_op_code RpSwap l pc = Some (l', pc')" and "thread_ok t pc"
  shows "batch_effect (drains pc) (content l) (drains pc') (content l')"
proof (cases pc)
  case (InOp held k)
  from assms(1) [unfolded InOp] obtain c x where "op_code s T e k (content l) = Some (c, x)" "l' = l\<lparr>content := c\<rparr>"
    "pc' = (case x of Inl k' \<Rightarrow> InOp held k' | Inr r \<Rightarrow> if held then AtSwap r else AtPendStore r)"
    by (rule guard_step_op)
  with op_effect [of s T e k "content l" c x held] InOp show ?thesis by simp
next
  case (InDrain d r)
  with assms obtain c x where "run_pended_op_code d (content l) = Some (c, x)" "content l' = c"
    "pc' = (case x of Inl d' \<Rightarrow> InDrain d' r | Inr _ \<Rightarrow> AtRelease r)"
    by (auto split: option.splits sum.splits prod.splits)
  with drain_effect [of d "content l" c x] InDrain show ?thesis by (cases x) simp_all
next
  case (AtGuard f p)
  with assms show ?thesis
    by (auto simp: guard_def bench_arms_def split: if_splits intro!: batch_effect_idle)
qed (use assms in \<open>auto simp: guard_def split: if_splits intro!: batch_effect_idle\<close>)

section \<open>The invariant\<close>

definition batch_ok :: "demo_inner \<Rightarrow> bool \<Rightarrow> bool" where
  "batch_ok c late \<longleftrightarrow> uint (drained_batches c) \<le> uint (drained_items c) + of_bool late \<and>
     (drained_batches c = 0 \<longrightarrow> drained_items c = 0)"

text \<open>The two instructions that count.\<close>

lemma batch_counted:
  assumes "batch_ok c False" and "uint (drained_items c) < 2 ^ 64 - 1"
    and "drained_batches c' = drained_batches c + 1" and "drained_items c' = drained_items c"
  shows "batch_ok c' True" and "drained_batches c' \<noteq> 0"
proof -
  have le: "uint (drained_batches c) \<le> uint (drained_items c)" using assms(1) by (simp add: batch_ok_def)
  with assms(2) have u: "uint (drained_batches c + 1) = uint (drained_batches c) + 1"
    by (intro uint_inc_no_wrap) linarith
  have "0 \<le> uint (drained_batches c)" by (rule uint_ge_0)
  with u have "0 < uint (drained_batches c')" unfolding assms(3) by linarith
  then show "drained_batches c' \<noteq> 0" by auto
  with le u show "batch_ok c' True" by (simp add: batch_ok_def assms(3,4))
qed

lemma items_counted:
  assumes "batch_ok c late" and "uint (drained_items c) + uint n < 2 ^ 64" and "n \<noteq> 0" and "drained_batches c \<noteq> 0"
    and "drained_batches c' = drained_batches c" and "drained_items c' = drained_items c + n"
  shows "batch_ok c' late'"
proof -
  have "uint (drained_items c + n) = uint (drained_items c) + uint n" by (rule uint_add_no_wrap [OF assms(2)])
  moreover have "0 < uint n" using assms(3) by (simp add: order_less_le uint_0_iff)
  moreover have "uint (drained_batches c) \<le> uint (drained_items c) + 1"
    using assms(1) by (cases late) (simp_all add: batch_ok_def)
  ultimately have "uint (drained_batches c) \<le> uint (drained_items c + n)" by linarith
  with assms(4) show ?thesis by (simp add: batch_ok_def assms(5,6))
qed

definition somebody_lags :: "(tid \<Rightarrow> (op_pc, drain_pc, op_result) guard_pc option) \<Rightarrow> bool" where
  "somebody_lags a \<longleftrightarrow> (\<exists>t pc. a t = Some pc \<and> lags pc)"

lemma somebody_lags_upd:
  "somebody_lags (a(t := x)) \<longleftrightarrow> (\<exists>pc. x = Some pc \<and> lags pc) \<or> (\<exists>u pc. u \<noteq> t \<and> a u = Some pc \<and> lags pc)"
  unfolding somebody_lags_def by (auto split: if_splits)

lemma somebody_lags_same:
  assumes "\<And>pc. a t = Some pc \<Longrightarrow> \<not> lags pc" and "\<And>pc. x = Some pc \<Longrightarrow> \<not> lags pc"
  shows "somebody_lags (a(t := x)) = somebody_lags a"
proof -
  have "somebody_lags a \<longleftrightarrow> (\<exists>u pc. u \<noteq> t \<and> a u = Some pc \<and> lags pc)"
    using somebody_lags_upd [of a t "a t"] assms(1) by auto
  with assms(2) show ?thesis by (auto simp: somebody_lags_upd)
qed

definition batch_inv :: "soft_world \<Rightarrow> bool" where
  "batch_inv w \<longleftrightarrow> batch_ok (content (lk w)) (somebody_lags (act w)) \<and>
     (\<forall>t pc. act w t = Some pc \<longrightarrow> drain_known pc (content (lk w)))"

lemma batch_inv_new: "batch_inv (world_new demo_inner_new)"
  by (simp add: batch_inv_def batch_ok_def world_new_def soft_lock_new_def demo_inner_new_def)

text \<open>Entering and leaving: neither the thread that enters nor the one that leaves drains.\<close>

lemma not_draining: "drains pc = None \<Longrightarrow> \<not> lags pc" "drains pc = None \<Longrightarrow> drain_known pc c"
  by (simp_all add: lags_def drain_known_def)

lemma batch_inv_act:
  assumes "batch_inv w" and "\<And>pc. act w t = Some pc \<Longrightarrow> drains pc = None"
    and "\<And>pc. x = Some pc \<Longrightarrow> drains pc = None"
  shows "batch_inv (w\<lparr>act := (act w)(t := x)\<rparr>)"
  using assms(1) somebody_lags_same [of "act w" t x] not_draining assms(2,3)
  by (auto simp: batch_inv_def)

text \<open>A thread that drains is the owner of the lock, so it is alone there.\<close>

lemma drains_holds:
  assumes "ex.region_inv w" and "act w t = Some pc" and "drains pc \<noteq> None"
  shows "holds pc"
proof -
  have "ex.region pc (content (lk w))" using assms(1,2) by (simp add: ex.region_inv_def)
  with assms(3) show ?thesis by (cases pc rule: drains.cases) (auto split: if_splits)
qed

lemma drains_unique:
  assumes "ex.region_inv w" and "lock_inv w" and "act w t = Some pc" and "drains pc \<noteq> None"
    and "act w u = Some qc" and "drains qc \<noteq> None"
  shows "u = t"
  using drains_holds [OF assms(1,3,4)] drains_holds [OF assms(1,5,6)] assms(2,3,5)
  by (auto simp: lock_inv_def full_holder_def split: option.splits)

text \<open>One instruction of a thread that counts nothing, and of one that does.\<close>

lemma batch_inv_idle:
  assumes inv: "batch_inv w" and pc: "act w t = Some pc" "\<not> lags pc" "\<And>n. drains pc \<noteq> Some (RpBatches n)"
    and eff: "batch_effect (drains pc) (content (lk w)) (drains pc') (content l')"
  shows "batch_inv (w\<lparr>lk := l', act := (act w)(t \<mapsto> pc')\<rparr>)"
proof -
  have e: "drained_batches (content l') = drained_batches (content (lk w))"
    "drained_items (content l') = drained_items (content (lk w))"
    "\<not> lags pc'" "\<And>n. drains pc' = Some (RpBatches n) \<Longrightarrow> n \<noteq> 0"
    using eff pc(2,3) by (auto simp: batch_effect_def lags_def split: option.splits drain_pc.splits)
  have "drain_known qc (content l')" if "((act w)(t \<mapsto> pc')) u = Some qc" for u qc
    using that inv e by (cases "u = t") (auto simp: batch_inv_def drain_known_def lags_def)
  moreover have "somebody_lags ((act w)(t \<mapsto> pc')) = somebody_lags (act w)"
    using pc e(3) by (intro somebody_lags_same) auto
  ultimately show ?thesis using inv e by (simp add: batch_inv_def batch_ok_def)
qed

lemma batch_inv_counting:
  assumes inv: "batch_inv w" and own: "ex.region_inv w" "lock_inv w" and pc: "act w t = Some pc"
    and n: "drains pc = Some (RpBatches n) \<or> drains pc = Some (RpItems n)"
    and eff: "batch_effect (drains pc) (content (lk w)) (drains pc') (content l')"
    and small: "uint (drained_items (content (lk w))) < 2 ^ 64 - 1"
    and room: "drains pc = Some (RpItems n) \<Longrightarrow> uint (drained_items (content (lk w))) + uint n < 2 ^ 64"
  shows "batch_inv (w\<lparr>lk := l', act := (act w)(t \<mapsto> pc')\<rparr>)"
proof -
  have ok: "batch_ok (content (lk w)) (somebody_lags (act w))" and known: "drain_known pc (content (lk w))"
    using inv pc by (auto simp: batch_inv_def)
  have others: "drains qc = None" if "u \<noteq> t" "act w u = Some qc" for u qc
  proof (rule ccontr)
    assume "drains qc \<noteq> None"
    with drains_unique [OF own pc _ that(2)] n that(1) show False by auto
  qed
  have lag: "somebody_lags ((act w)(t := x)) \<longleftrightarrow> (\<exists>qc. x = Some qc \<and> lags qc)" for x
    using others not_draining(1) unfolding somebody_lags_upd by blast
  have now: "somebody_lags (act w) \<longleftrightarrow> lags pc"
    using lag [of "act w t"] pc by (simp add: fun_upd_idem)
  have "batch_ok (content l') (lags pc') \<and> drain_known pc' (content l')"
  proof (cases "lags pc")
    case True
    with n eff have "drains pc = Some (RpItems n)" and e: "drained_batches (content l') = drained_batches (content (lk w))"
      "drained_items (content l') = drained_items (content (lk w)) + n" "drains pc' \<in> {None, Some (RpLock n)}"
      by (auto simp: batch_effect_def lags_def)
    with items_counted [OF ok room _ _ e(1,2)] known show ?thesis by (auto simp: drain_known_def)
  next
    case False
    with n eff have "drains pc = Some (RpBatches n)" and e: "drained_batches (content l') = drained_batches (content (lk w)) + 1"
      "drained_items (content l') = drained_items (content (lk w))" "drains pc' = Some (RpItems n)"
      by (auto simp: batch_effect_def lags_def)
    moreover have "batch_ok (content (lk w)) False" using ok now False by simp
    ultimately show ?thesis
      using batch_counted [OF _ small e(1,2)] known by (auto simp: drain_known_def lags_def)
  qed
  moreover have "drain_known qc (content l')" if "u \<noteq> t" "act w u = Some qc" for u qc
    using others [OF that] not_draining(2) by blast
  ultimately show ?thesis by (simp add: batch_inv_def lag)
qed

lemma batch_inv_instr:
  assumes "batch_inv w" and "ex.region_inv w" "lock_inv w" and pc: "act w t = Some pc"
    and step: "guard_step (op_code s T e) run_pended_op_code RpSwap (lk w) pc = Some (l', pc')"
    and ok: "thread_ok t pc"
    and "uint (drained_items (content (lk w))) < 2 ^ 64 - 1"
    and "\<And>n. drains pc = Some (RpItems n) \<Longrightarrow> uint (drained_items (content (lk w))) + uint n < 2 ^ 64"
  shows "batch_inv (w\<lparr>lk := l', act := (act w)(t \<mapsto> pc')\<rparr>)"
proof (cases "\<exists>n. drains pc = Some (RpBatches n) \<or> drains pc = Some (RpItems n)")
  case True
  with batch_inv_counting [OF assms(1-4) _ guard_effect [OF step ok] assms(7,8)] show ?thesis by blast
next
  case False
  then show ?thesis
    by (intro batch_inv_idle [OF assms(1) pc _ _ guard_effect [OF step ok]]) (auto simp: lags_def)
qed

section \<open>In every reachable state\<close>

lemma batch_room:
  assumes acc: "acc_inv s b" and inv: "ctl_inv s b" "call_inv b" and fits: "fits s"
    and pc: "act (bw b) t = Some pc"
  shows "uint (drained_items (content (lk (bw b)))) < 2 ^ 64 - 1"
    and "drains pc = Some (RpItems n) \<Longrightarrow> uint (drained_items (content (lk (bw b)))) + uint n < 2 ^ 64"
proof -
  let ?c = "content (lk (bw b))"
  note a = acc [unfolded acc_inv_def]
  note cb = counter_bounds [OF a entries_bound [OF a inv]]
  have nn: "0 \<le> uint (full_entries ?c)" "0 \<le> uint (pending_submit ?c)"
    "0 \<le> outstanding s op_taken drain_taken (\<lambda>_. 0) (bw b)"
    by (simp_all add: outstanding_nonneg weights_nonneg)
  show "uint (drained_items ?c) < 2 ^ 64 - 1" using cb(1,3) nn fits_int [OF fits] by linarith
  assume n: "drains pc = Some (RpItems n)"
  have "t \<in> threads s" by (rule in_call_thread [OF inv(1) call_inv_in_call [OF inv(2) pc]])
  from roomy_in_bounds [OF a inv fits this pc] n show "uint (drained_items ?c) + uint n < 2 ^ 64"
    by (cases pc rule: drains.cases) (auto simp: ae.roomy_def op_room_def drain_room_def)
qed

lemma batch_inv_access:
  assumes "access_instr s fin t (bw b) = Some w" and "batch_inv (bw b)" and "bench_reach s b" and "fits s"
  shows "batch_inv w"
  using assms(1)
proof (rule access_instr_cases)
  fix pc l' pc'
  assume pc: "act (bw b) t = Some pc"
    and step: "guard_step (op_code s (total_ops_of s) fin) run_pended_op_code RpSwap (lk (bw b)) pc = Some (l', pc')"
    and w: "w = bw b\<lparr>lk := l', act := (act (bw b))(t \<mapsto> pc')\<rparr>"
  note room = batch_room [OF bench_reach_accounts [OF assms(3,4)] bench_reach_ctl [OF assms(3)]
      bench_reach_call [OF assms(3)] assms(4) pc]
  show "batch_inv w" unfolding w
    by (rule batch_inv_instr [OF assms(2) bench_reach_region [OF assms(3)] bench_reach_lock [OF assms(3)] pc step
          call_inv_ok [OF bench_reach_call [OF assms(3)] pc] room])
qed

lemma batch_inv_enter:
  assumes "batch_inv w" and "act w t = None"
  shows "batch_inv (enter_access t f p w)"
  unfolding enter_access_def using assms by (intro batch_inv_act) auto

lemma batch_inv_leave:
  assumes "batch_inv w" and "act w t = Some (Returned r)"
  shows "batch_inv (leave_access t w)"
  unfolding leave_access_def using assms by (intro batch_inv_act) auto

lemma batch_inv_step:
  assumes "bench_step s t b = Some b'" and inv: "batch_inv (bw b)" and reach: "bench_reach s b" and fits: "fits s"
  shows "batch_inv (bw b')"
proof -
  note None = call_inv_None [OF bench_reach_call [OF reach]]
  note instr = batch_inv_access [OF _ inv reach fits]
  show ?thesis
  proof (cases t)
    case TMain
    with assms(1) have "main_step s b = Some b'" by simp
    then show ?thesis
      by (cases rule: main_step_cases)
        (use None inv in \<open>auto intro: instr batch_inv_enter batch_inv_leave\<close>)
  next
    case TConsumer
    with assms(1) have "consumer_step s b = Some b'" by simp
    then show ?thesis
      by (cases rule: consumer_step_cases)
        (use None inv in \<open>auto intro: instr batch_inv_enter batch_inv_leave\<close>)
  next
    case (TProducer p)
    with assms(1) have "producer_step s p b = Some b'" by simp
    then show ?thesis
      by (cases rule: producer_step_cases)
        (use None inv in \<open>auto intro: instr batch_inv_enter batch_inv_leave\<close>)
  qed
qed

lemma bench_reach_batches: "bench_reach s b \<Longrightarrow> fits s \<Longrightarrow> batch_inv (bw b)"
proof (induction rule: bench_reach.induct)
  case bench_start
  show ?case by (simp add: bench_new_def batch_inv_new)
next
  case (bench_next b t b')
  then show ?case by (blast intro: batch_inv_step)
qed

end
