(* ===== verification/SoftBenchFinal.thy ===== *)
theory SoftBenchFinal
  imports SoftBatches
begin

text \<open>
  Why the consumer may stop when it does, and why the three assertions at the end of
  \<open>run_softlock_bench\<close> cannot fail.
\<close>

section \<open>Who changes the processed counter\<close>

lemma processed_codes:
  "submit_direct_code k1 c = Some (c', x1) \<Longrightarrow> processed c' = processed c"
  "queue_len_code k3 c = Some (c', x3) \<Longrightarrow> processed c' = processed c"
  "run_pended_op_code k4 c = Some (c', x4) \<Longrightarrow> processed c' = processed c"
    apply (cases k1; auto split: if_splits)
   apply (cases k3; auto split: if_splits)
  apply (cases k4; auto split: if_splits)
  done

lemma op_processed:
  assumes "op_code s T e k c = Some (c', x)" and "\<And>prior j. k \<noteq> OpConsumer (CoProcess prior j)"
  shows "processed c' = processed c"
  using assms
  by (cases k rule: op_pend.cases)
    (auto simp: tail_call_eq_Some call_eq_Some pend_submit_def dest: processed_codes split: if_splits)

lemma guard_processed:
  assumes "guard_step (op_code s T e) run_pended_op_code RpSwap l pc = Some (l', pc')"
    and "\<And>held prior j. pc \<noteq> InOp held (OpConsumer (CoProcess prior j))"
  shows "processed (content l') = processed (content l)"
proof (cases pc)
  case (InOp held k)
  with assms show ?thesis
    by (auto split: option.splits sum.splits prod.splits if_splits dest!: op_processed)
next
  case (InDrain d r)
  with assms show ?thesis
    by (auto split: option.splits sum.splits prod.splits dest: processed_codes(3))
qed (use assms in \<open>auto simp: guard_def split: if_splits\<close>)

lemma other_processed:
  assumes "access_instr s fin t w = Some w'" and "call_inv b" and "bw b = w" and "t \<noteq> TConsumer"
  shows "processed (content (lk w')) = processed (content (lk w))"
  using assms(1)
proof (rule access_instr_cases)
  fix pc l' pc'
  assume pc: "act w t = Some pc"
    and step: "guard_step (op_code s (total_ops_of s) fin) run_pended_op_code RpSwap (lk w) pc = Some (l', pc')"
    and w': "w' = w\<lparr>lk := l', act := (act w)(t \<mapsto> pc')\<rparr>"
  have "thread_ok t pc" using assms(2,3) pc by (simp add: call_inv_def)
  with assms(4) have "pc \<noteq> InOp held (OpConsumer (CoProcess prior j))" for held prior j
    by (cases t) auto
  with step show ?thesis by (simp add: w' guard_processed)
qed

section \<open>The consumer's decision\<close>

text \<open>Everything has been processed.\<close>

definition all_processed :: "scenario \<Rightarrow> demo_inner \<Rightarrow> bool" where
  "all_processed s c \<longleftrightarrow> uint (processed c) = int (total_nat s)"

text \<open>What the consumer knows at its program points; \<open>fin\<close> is its \<open>producers_finished\<close>.\<close>

definition decided :: "scenario \<Rightarrow> op_result \<Rightarrow> demo_inner \<Rightarrow> bool" where
  "decided s r c \<longleftrightarrow> r = RConsumer False \<longrightarrow> all_processed s c"

fun consumer_fact :: "scenario \<Rightarrow> bool \<Rightarrow> (op_pc, drain_pc, op_result) guard_pc \<Rightarrow> demo_inner \<Rightarrow> bool" where
  "consumer_fact s d (InOp _ (OpConsumer (CoPending fin))) c = (fin \<longrightarrow> d)"
| "consumer_fact s d (InOp _ (OpConsumer (CoLen fin p k))) c =
     (fin \<longrightarrow> d \<and> (p = 0 \<longrightarrow> pending_submit c = 0 \<and>
        (\<forall>n. k = QlUnlock n \<longrightarrow> n = 0 \<longrightarrow> all_processed s c)))"
| "consumer_fact s d (InDrain _ r) c = decided s r c"
| "consumer_fact s d (AtSwap r) c = decided s r c"
| "consumer_fact s d (AtRelease r) c = decided s r c"
| "consumer_fact s d (AtRecheck r) c = decided s r c"
| "consumer_fact s d (AtReacquire r) c = decided s r c"
| "consumer_fact s d (AtPendStore r) c = decided s r c"
| "consumer_fact s d (Returned r) c = decided s r c"
| "consumer_fact s d _ c = True"

definition con_inv :: "scenario \<Rightarrow> bench \<Rightarrow> bool" where
  "con_inv s b \<longleftrightarrow>
     (\<forall>pc. act (bw b) TConsumer = Some pc \<longrightarrow> consumer_fact s (producers_done b) pc (content (lk (bw b)))) \<and>
     (cpc b = CExit \<longrightarrow> all_processed s (content (lk (bw b))))"

text \<open>
  The state in which every producer has finished, nobody else is inside an access and the
  counters have no outstanding updates: processed, queued and pended operations make up all.
\<close>

lemma outstanding_single:
  assumes "t \<in> threads s" and "\<And>u. u \<noteq> t \<Longrightarrow> act w u = None"
  shows "outstanding s wk wd wr w = weight_opt wk wd wr (act w t)"
proof -
  have "outstanding s wk wd wr w = (\<Sum>u\<in>threads s. if u = t then weight_opt wk wd wr (act w t) else 0)"
    unfolding outstanding_def using assms(2) by (intro sum.cong) auto
  then show ?thesis using assms(1) by simp
qed

lemma all_completed:
  assumes "ctl_inv s b" and "stored (mpc b)"
  shows "completed_all s (ppc b) = int (total_nat s)"
proof -
  have "joined (unat (producers s)) (mpc b) = unat (producers s)" using assms(2) by (cases "mpc b") auto
  with assms(1) have "ppc b p = PExit" if "p < unat (producers s)" for p
    using that by (simp add: ctl_inv_def)
  then show ?thesis by (simp add: completed_all_def total_nat_def)
qed

lemma only_one_active:
  assumes "ctl_inv s b" and "call_inv b" and "stored (mpc b)"
  shows "act (bw b) (TProducer p) = None"
    and "consumer_joined (mpc b) \<Longrightarrow> act (bw b) TConsumer = None"
    and "\<not> consumer_joined (mpc b) \<Longrightarrow> act (bw b) TMain = None"
proof -
  have j: "joined (unat (producers s)) (mpc b) = unat (producers s)"
    "spawned (unat (producers s)) (mpc b) = unat (producers s)"
    using assms(3) by (cases "mpc b"; simp)+
  have "ppc b p = PNew \<or> ppc b p = PExit"
    using assms(1) unfolding ctl_inv_def j by (meson not_le)
  then have "\<not> in_call b (TProducer p)" by auto
  then show "act (bw b) (TProducer p) = None" by (rule call_inv_None [OF assms(2)])
  show "act (bw b) TConsumer = None" if "consumer_joined (mpc b)"
    using that assms(1) by (intro call_inv_None [OF assms(2)]) (simp add: ctl_inv_def)
  show "act (bw b) TMain = None" if "\<not> consumer_joined (mpc b)"
    using that by (intro call_inv_None [OF assms(2)]) auto
qed

lemma settled_sums:
  assumes acc: "acc_inv s b" and inv: "ctl_inv s b" "call_inv b" and st: "stored (mpc b)"
    and t: "t \<in> threads s" "\<And>u. u \<noteq> t \<Longrightarrow> act (bw b) u = None"
    and zero: "weight_opt op_entered (\<lambda>_. 0) result_entered (act (bw b) t) = 0"
      "weight_opt op_lag (\<lambda>_. 0) (\<lambda>_. 0) (act (bw b) t) = 0"
      "weight_opt op_taken drain_taken (\<lambda>_. 0) (act (bw b) t) = 0"
      "weight_opt op_drawn drain_drawn (\<lambda>_. 0) (act (bw b) t) = 0"
      "weight_opt op_due drain_due (\<lambda>_. 0) (act (bw b) t) = 0"
  defines "c \<equiv> content (lk (bw b))"
  shows "uint (full_entries c) + uint (pend_entries c) = int (total_nat s)"
    and "uint (pending_submit c) + uint (drained_items c) = uint (pend_entries c)"
    and "uint (processed c) + int (length (queue c)) + uint (pending_submit c) = int (total_nat s)"
proof -
  have o: "outstanding s wk wd wr (bw b) = weight_opt wk wd wr (act (bw b) t)" for wk wd wr
    using t by (rule outstanding_single)
  note eqs = acc [unfolded acc_inv_def accounts_def o zero bal_defs, folded c_def]
  show "uint (full_entries c) + uint (pend_entries c) = int (total_nat s)"
    and "uint (pending_submit c) + uint (drained_items c) = uint (pend_entries c)"
    and "uint (processed c) + int (length (queue c)) + uint (pending_submit c) = int (total_nat s)"
    using eqs all_completed [OF inv(1) st] by linarith+
qed

lemma consumer_fact_frame:
  assumes "consumer_fact s False pc c"
  shows "processed c' = processed c \<Longrightarrow> consumer_fact s False pc c'" and "consumer_fact s True pc c"
  using assms
  by (cases "(s, False, pc, c)" rule: consumer_fact.cases; simp add: decided_def all_processed_def)+

lemma processed_bound:
  assumes "acc_inv s b" and "ctl_inv s b" and "call_inv b"
  shows "uint (processed (content (lk (bw b)))) \<le> int (total_nat s)"
  using counter_bounds(4,5) [OF assms(1) [unfolded acc_inv_def] entries_bound [OF assms(1) [unfolded acc_inv_def] assms(2,3)]]
  by linarith

lemma consumer_empty_queue:
  assumes acc: "acc_inv s b" and inv: "ctl_inv s b" "call_inv b"
    and dn: "producers_done b" and pc: "act (bw b) TConsumer = Some (InOp held (OpConsumer (CoLen fin p k)))"
    and S: "pending_submit (content (lk (bw b))) = 0" and Q: "queue (content (lk (bw b))) = []"
  shows "all_processed s (content (lk (bw b)))"
proof -
  from inv(1) dn have st: "stored (mpc b)" by (simp add: ctl_inv_def)
  have nj: "\<not> consumer_joined (mpc b)" using only_one_active(2) [OF inv st] pc by auto
  have none: "act (bw b) u = None" if "u \<noteq> TConsumer" for u
    using that only_one_active(1,3) [OF inv st] nj by (cases u) auto
  from settled_sums(3) [OF acc inv st threads_iff(2) none] pc S Q show ?thesis
    by (simp add: all_processed_def)
qed

lemma queue_length_zero:
  assumes acc: "acc_inv s b" and inv: "ctl_inv s b" "call_inv b" and "fits s"
    and "(of_nat (length (queue (content (lk (bw b))))) :: usize) = 0"
  shows "queue (content (lk (bw b))) = []"
proof -
  let ?q = "queue (content (lk (bw b)))"
  have "0 \<le> uint (processed (content (lk (bw b))))" by simp
  with counter_bounds(4,5) [OF acc [unfolded acc_inv_def] entries_bound [OF acc [unfolded acc_inv_def] inv]]
  have "int (length ?q) \<le> int (total_nat s)" by linarith
  with assms(4) have "length ?q < 2 ^ 64" unfolding fits_def by linarith
  moreover have "2 ^ 64 dvd length ?q" using assms(5) by (simp add: word_of_nat_eq_0_iff)
  ultimately show ?thesis by (metis dvd_imp_le length_greater_0_conv not_le)
qed

lemma consumer_instr:
  assumes acc: "acc_inv s b" and inv: "ctl_inv s b" "call_inv b" and fits: "fits s"
    and fact: "consumer_fact s (producers_done b) pc (content (lk (bw b)))"
    and pc: "act (bw b) TConsumer = Some pc"
    and step: "guard_step (op_code s (total_ops_of s) (producers_done b)) run_pended_op_code RpSwap (lk (bw b)) pc
      = Some (l', pc')"
  shows "consumer_fact s (producers_done b) pc' (content l')"
proof (cases pc)
  case (AtGuard f p)
  with pc have "thread_ok TConsumer (AtGuard f p)" by (intro call_inv_ok [OF inv(2)]) simp
  then have "f = OpConsumer CoLoad" "p = OpConsumer CoPendOnly" by (auto simp: bench_arms_def)
  with step AtGuard show ?thesis by (auto simp: guard_def split: if_splits)
next
  case (InOp held k)
  with pc have "thread_ok TConsumer (InOp held k)" by (intro call_inv_ok [OF inv(2)]) simp
  then obtain j where k: "k = OpConsumer j" by (cases k) auto
  have total: "processed (content (lk (bw b))) \<ge> total_ops_of s \<Longrightarrow> all_processed s (content (lk (bw b)))"
    using processed_bound [OF acc inv] uint_total [OF fits]
    by (simp add: all_processed_def word_le_def)
  from step [unfolded InOp] obtain c x where x: "op_code s (total_ops_of s) (producers_done b) k (content (lk (bw b))) = Some (c, x)"
    and l': "l' = lk (bw b)\<lparr>content := c\<rparr>"
    and pc': "pc' = (case x of Inl k' \<Rightarrow> InOp held k' | Inr r \<Rightarrow> if held then AtSwap r else AtPendStore r)"
    by (rule guard_step_op)
  show ?thesis
  proof (cases j)
    case (CoLen fin p i)
    note empty = consumer_empty_queue [OF acc inv _ pc [unfolded InOp k CoLen]]
      queue_length_zero [OF acc inv fits]
    from x fact CoLen InOp k empty show ?thesis
      by (cases i) (auto simp: l' pc' tail_call_eq_Some decided_def all_processed_def split: if_splits)
  next
    case CoProcessed
    with x k total show ?thesis
      by (auto simp: l' pc' decided_def tail_call_eq_Some split: if_splits)
  next
    case (CoPending fin)
    with x k fact InOp show ?thesis by (auto simp: l' pc' tail_call_eq_Some)
  qed (use x k in \<open>auto simp: l' pc' tail_call_eq_Some call_eq_Some decided_def split: if_splits\<close>)
next
  case (InDrain d r)
  with guard_processed [OF step] fact step show ?thesis
    by (auto simp: decided_def all_processed_def split: option.splits sum.splits prod.splits)
qed (use fact step in \<open>auto simp: decided_def all_processed_def guard_def split: if_splits\<close>)

lemma con_inv_start: "con_inv s bench_new"
  by (simp add: con_inv_def bench_new_def world_new_def)

text \<open>A step of another thread, and a step of the main thread outside the accesses.\<close>

lemma con_inv_frame:
  assumes "con_inv s b" and "act (bw b') TConsumer = act (bw b) TConsumer" and "cpc b' = cpc b"
    and "processed (content (lk (bw b'))) = processed (content (lk (bw b)))"
    and "act (bw b) TConsumer = None \<or> \<not> producers_done b \<and> \<not> producers_done b'"
  shows "con_inv s b'"
  using assms by (auto simp: con_inv_def all_processed_def intro: consumer_fact_frame)

lemma access_instr_act:
  "access_instr s fin t w = Some w' \<Longrightarrow> u \<noteq> t \<Longrightarrow> act w' u = act w u"
  by (erule access_instr_cases) simp

lemma con_inv_main:
  assumes "main_step s b = Some b'" and con: "con_inv s b" and acc: "acc_inv s b"
    and inv: "ctl_inv s b" "call_inv b" and fits: "fits s"
  shows "con_inv s b'"
proof -
  have none: "act (bw b) TConsumer = None" if "consumer_joined (mpc b)"
    using that inv(1) by (intro call_inv_None [OF inv(2)]) (simp add: ctl_inv_def)
  from assms(1) show ?thesis
  proof (cases rule: main_step_cases)
    case consumer
    then have "act (bw b) TConsumer = None"
      using inv(1) by (intro call_inv_None [OF inv(2)]) (simp add: ctl_inv_def)
    with consumer show ?thesis by (simp add: con_inv_def)
  next
    case store
    then have "\<not> producers_done b" using inv(1) by (simp add: ctl_inv_def)
    with store con show ?thesis by (auto simp: con_inv_def intro: consumer_fact_frame)
  next
    case (instr w)
    then show ?thesis
      using other_processed [OF instr(2) inv(2) refl] access_instr_act [OF instr(2), of TConsumer] none
      by (intro con_inv_frame [OF con]) simp_all
  qed (use con none in \<open>simp_all add: con_inv_def enter_access_def leave_access_def\<close>)
qed

lemma con_inv_consumer:
  assumes "consumer_step s b = Some b'" and con: "con_inv s b" and acc: "acc_inv s b"
    and inv: "ctl_inv s b" "call_inv b" and fits: "fits s"
  shows "con_inv s b'"
proof -
  from assms(1) show ?thesis
  proof (cases rule: consumer_step_cases)
    case (instr w)
    from instr(2) show ?thesis
    proof (rule access_instr_cases)
      fix pc l' pc'
      assume pc: "act (bw b) TConsumer = Some pc"
        and step: "guard_step (op_code s (total_ops_of s) (producers_done b)) run_pended_op_code RpSwap (lk (bw b)) pc
          = Some (l', pc')"
        and w: "w = bw b\<lparr>lk := l', act := (act (bw b))(TConsumer \<mapsto> pc')\<rparr>"
      have "consumer_fact s (producers_done b) pc (content (lk (bw b)))"
        using con pc by (simp add: con_inv_def)
      from consumer_instr [OF acc inv fits this pc step] instr(1) show ?thesis
        by (simp add: con_inv_def instr(3) w)
    qed
  next
    case (return again)
    then show ?thesis using con by (auto simp: con_inv_def leave_access_def decided_def)
  qed (use con in \<open>simp_all add: con_inv_def enter_access_def\<close>)
qed

lemma con_inv_producer:
  assumes "producer_step s p b = Some b'" and con: "con_inv s b" and acc: "acc_inv s b"
    and inv: "ctl_inv s b" "call_inv b" and fits: "fits s"
  shows "con_inv s b'"
proof -
  have nd: "\<not> producers_done b" if "ppc b p \<noteq> PNew" "ppc b p \<noteq> PExit"
  proof
    assume "producers_done b"
    with inv(1) have "stored (mpc b)" by (simp add: ctl_inv_def)
    then have "joined (unat (producers s)) (mpc b) = unat (producers s)" by (cases "mpc b") auto
    with inv(1) spawned_thread [OF inv(1) that(1)] that(2) show False by (simp add: ctl_inv_def)
  qed
  from assms(1) show ?thesis
  proof (cases rule: producer_step_cases)
    case (instr i w)
    then show ?thesis
      using other_processed [OF instr(2) inv(2) refl] access_instr_act [OF instr(2), of TConsumer] nd
      by (intro con_inv_frame [OF con]) simp_all
  qed (use con in \<open>simp_all add: con_inv_def enter_access_def leave_access_def\<close>)
qed

lemma con_inv_step:
  assumes "bench_step s t b = Some b'" and con: "con_inv s b" and acc: "acc_inv s b"
    and inv: "ctl_inv s b" "call_inv b" and fits: "fits s"
  shows "con_inv s b'"
  using assms by (cases t) (auto intro: con_inv_main con_inv_consumer con_inv_producer)

lemma bench_reach_con: "bench_reach s b \<Longrightarrow> fits s \<Longrightarrow> con_inv s b"
proof (induction rule: bench_reach.induct)
  case bench_start
  show ?case by (rule con_inv_start)
next
  case (bench_next b t b')
  then show ?case
    by (blast intro: con_inv_step dest: bench_reach_ctl bench_reach_call bench_reach_accounts)
qed

section \<open>The final report\<close>

definition report_ok :: "scenario \<Rightarrow> counts \<Rightarrow> bool" where
  "report_ok s ct \<longleftrightarrow> ct_processed ct = total_ops_of s \<and> ct_pending ct = 0 \<and> ct_queue_left ct = 0 \<and>
     uint (ct_full_entries ct) + uint (ct_pend_entries ct) = int (total_nat s) \<and>
     ct_drained_items ct = ct_pend_entries ct \<and>
     uint (ct_drained_batches ct) \<le> uint (ct_drained_items ct) \<and>
     (ct_drained_batches ct = 0 \<longrightarrow> ct_drained_items ct = 0)"

text \<open>The content once the consumer has been joined.\<close>

definition settled :: "scenario \<Rightarrow> demo_inner \<Rightarrow> bool" where
  "settled s c \<longleftrightarrow> processed c = total_ops_of s \<and> pending_submit c = 0 \<and> queue c = [] \<and>
     uint (full_entries c) + uint (pend_entries c) = int (total_nat s) \<and>
     drained_items c = pend_entries c \<and> batch_ok c False"

text \<open>What the report closure has read so far.\<close>

fun report_vals :: "report_pc \<Rightarrow> demo_inner \<Rightarrow> bool" where
  "report_vals ReProcessed c = True"
| "report_vals (RePending x) c = (x = processed c)"
| "report_vals (ReLen x y k) c = (x = processed c \<and> y = pending_submit c \<and>
     (case k of QlUnlock n \<Rightarrow> n = of_nat (length (queue c)) | _ \<Rightarrow> True))"
| "report_vals (ReFull x y z) c = (x = processed c \<and> y = pending_submit c \<and> z = of_nat (length (queue c)))"
| "report_vals (RePend x y z f) c =
     (x = processed c \<and> y = pending_submit c \<and> z = of_nat (length (queue c)) \<and> f = full_entries c)"
| "report_vals (ReItems x y z f p) c =
     (x = processed c \<and> y = pending_submit c \<and> z = of_nat (length (queue c)) \<and> f = full_entries c \<and>
      p = pend_entries c)"
| "report_vals (ReBatches x y z f p i) c =
     (x = processed c \<and> y = pending_submit c \<and> z = of_nat (length (queue c)) \<and> f = full_entries c \<and>
      p = pend_entries c \<and> i = drained_items c)"
| "report_vals ReUnreachable c = False"

definition result_ok :: "scenario \<Rightarrow> op_result \<Rightarrow> bool" where
  "result_ok s r \<longleftrightarrow> (\<exists>ct. r = RReport (Counts ct) \<and> report_ok s ct)"

fun report_fact :: "scenario \<Rightarrow> (op_pc, drain_pc, op_result) guard_pc \<Rightarrow> demo_inner \<Rightarrow> bool" where
  "report_fact s (AtGuard f p) c = (f = OpReport ReProcessed)"
| "report_fact s (InOp held k) c = (held \<and> (\<exists>j. k = OpReport j \<and> report_vals j c))"
| "report_fact s (InDrain d r) c = (d = RpSwap \<and> result_ok s r)"
| "report_fact s (AtSwap r) c = result_ok s r"
| "report_fact s (AtRelease r) c = result_ok s r"
| "report_fact s (AtRecheck r) c = result_ok s r"
| "report_fact s (AtReacquire r) c = result_ok s r"
| "report_fact s (AtPendStore r) c = False"
| "report_fact s (Returned r) c = result_ok s r"

lemma report_code_step:
  assumes "report_code j c = Some (c', x)" and "report_vals j c" and "settled s c"
  shows "settled s c' \<and> (case x of Inl j' \<Rightarrow> report_vals j' c' | Inr r \<Rightarrow> \<exists>ct. r = Counts ct \<and> report_ok s ct)"
  using assms
proof (cases j)
  case (ReLen x1 y1 k)
  with assms show ?thesis
    by (cases k) (auto simp: call_eq_Some settled_def batch_ok_def split: if_splits)
qed (auto simp: settled_def report_ok_def batch_ok_def)

lemma report_fact_step:
  assumes "guard_step (op_code s T e) run_pended_op_code RpSwap l pc = Some (l', pc')"
    and "report_fact s pc (content l)" and "settled s (content l)"
    and "\<not> holds pc \<Longrightarrow> \<not> locked l"
  shows "report_fact s pc' (content l') \<and> settled s (content l')"
proof (cases pc)
  case (InOp held k)
  with assms(2) obtain j where held: "held" and k: "k = OpReport j" and vals: "report_vals j (content l)"
    by auto
  from assms(1) [unfolded InOp] obtain c x where x: "op_code s T e k (content l) = Some (c, x)"
    and l': "l' = l\<lparr>content := c\<rparr>"
    and pc': "pc' = (case x of Inl k' \<Rightarrow> InOp held k' | Inr r \<Rightarrow> if held then AtSwap r else AtPendStore r)"
    by (rule guard_step_op)
  from x k obtain y where y: "report_code j (content l) = Some (c, y)" "x = map_sum OpReport RReport y"
    by (auto simp: tail_call_eq_Some)
  from report_code_step [OF y(1) vals assms(3)] held y(2) show ?thesis
    by (cases y) (auto simp: l' pc' result_ok_def)
next
  case (InDrain d r)
  with assms(1-3) show ?thesis by (auto simp: settled_def batch_ok_def)
qed (use assms in \<open>auto simp: guard_def split: if_splits\<close>)

lemma settled_joined:
  assumes acc: "acc_inv s b" and con: "con_inv s b" and inv: "ctl_inv s b" "call_inv b" and fits: "fits s"
    and batch: "batch_inv (bw b)" and j: "consumer_joined (mpc b)"
    and fact: "\<And>pc. act (bw b) TMain = Some pc \<Longrightarrow> report_fact s pc (content (lk (bw b)))"
  shows "settled s (content (lk (bw b)))"
proof -
  let ?c = "content (lk (bw b))"
  from j have st: "stored (mpc b)" by (cases "mpc b") auto
  have none: "act (bw b) u = None" if "u \<noteq> TMain" for u
    using that only_one_active(1,2) [OF inv st] j by (cases u) auto
  have zero: "weight_opt wk wd wr (act (bw b) TMain) = 0"
    if "\<And>k. wk (OpReport k) = 0" "wd RpSwap = 0" "\<And>r. wr (RReport r) = 0" for wk wd wr
    using that fact by (cases "act (bw b) TMain"; simp)
      (rename_tac pc, case_tac pc; fastforce simp: result_ok_def)
  note sums = settled_sums [OF acc inv st threads_iff(1) none zero zero zero zero zero]
  have "all_processed s ?c" using con inv(1) j by (simp add: con_inv_def ctl_inv_def)
  then have R: "uint (processed ?c) = int (total_nat s)" by (simp add: all_processed_def)
  have nn: "0 \<le> uint (pending_submit ?c)" by simp
  have "int (length (queue ?c)) + uint (pending_submit ?c) = 0" using sums(3) R by simp
  with nn have SQ: "uint (pending_submit ?c) = 0" "length (queue ?c) = 0" by linarith+
  have "uint (full_entries ?c) + uint (pend_entries ?c) = int (total_nat s)" using sums(1) by simp
  moreover have "uint (drained_items ?c) = uint (pend_entries ?c)" using sums(2) SQ by simp
  moreover have "\<not> somebody_lags (act (bw b))"
  proof
    assume "somebody_lags (act (bw b))"
    then obtain u pc where u: "act (bw b) u = Some pc" "lags pc" by (auto simp: somebody_lags_def)
    with none have "u = TMain" by fastforce
    with u fact have "report_fact s pc (content (lk (bw b)))" by blast
    with u(2) show False by (cases pc) (auto simp: lags_def)
  qed
  with batch have "batch_ok ?c False" by (simp add: batch_inv_def)
  ultimately show ?thesis
    using R SQ uint_total [OF fits] by (simp add: settled_def word_uint_eq_iff)
qed

text \<open>After the consumer has been joined only the main thread can move.\<close>

lemma quiet_after_join:
  assumes "ctl_inv s b" and "consumer_joined (mpc b)" and "bench_step s t b = Some b'"
  shows "t = TMain"
proof (cases t)
  case TConsumer
  from assms(1,2) have "cpc b = CExit" by (simp add: ctl_inv_def)
  with assms(3) TConsumer show ?thesis by (simp add: consumer_step_def)
next
  case (TProducer p)
  from assms(2) have "joined (unat (producers s)) (mpc b) = unat (producers s)"
    "spawned (unat (producers s)) (mpc b) = unat (producers s)" by (cases "mpc b"; simp)+
  with assms(1) have "ppc b p = PNew \<or> ppc b p = PExit" unfolding ctl_inv_def by (metis not_le)
  with assms(3) TProducer show ?thesis by (auto simp: producer_step_def)
qed simp

definition rep_inv :: "scenario \<Rightarrow> bench \<Rightarrow> bool" where
  "rep_inv s b \<longleftrightarrow>
     (\<forall>pc. act (bw b) TMain = Some pc \<longrightarrow> report_fact s pc (content (lk (bw b)))) \<and>
     (\<forall>ct. mpc b = MCheck ct \<or> mpc b = MReturn ct \<longrightarrow> report_ok s ct) \<and>
     (\<forall>m. mpc b \<noteq> MPanic m)"

lemma rep_inv_start: "rep_inv s bench_new"
  by (simp add: rep_inv_def bench_new_def world_new_def)

lemma rep_inv_other:
  assumes "bench_step s t b = Some b'" and "t \<noteq> TMain" and rep: "rep_inv s b"
    and inv: "ctl_inv s b" "call_inv b"
  shows "rep_inv s b'"
proof -
  have nj: "\<not> consumer_joined (mpc b)" using quiet_after_join [OF inv(1) _ assms(1)] assms(2) by blast
  then have none: "act (bw b) TMain = None" by (intro call_inv_None [OF inv(2)]) auto
  have "mpc b' = mpc b \<and> act (bw b') TMain = None"
  proof (cases t)
    case TConsumer
    with assms(1) have "consumer_step s b = Some b'" by simp
    then show ?thesis
      by (cases rule: consumer_step_cases)
        (use none in \<open>auto simp: enter_access_def leave_access_def dest: access_instr_act [of _ _ _ _ _ TMain]\<close>)
  next
    case (TProducer p)
    with assms(1) have "producer_step s p b = Some b'" by simp
    then show ?thesis
      by (cases rule: producer_step_cases)
        (use none in \<open>auto simp: enter_access_def leave_access_def dest: access_instr_act [of _ _ _ _ _ TMain]\<close>)
  qed (use assms(2) in simp)
  with rep show ?thesis by (simp add: rep_inv_def)
qed

lemma rep_inv_instr:
  assumes rep: "rep_inv s b" and acc: "acc_inv s b" and con: "con_inv s b"
    and inv: "ctl_inv s b" "call_inv b" and lock: "lock_inv (bw b)" and fits: "fits s" and batch: "batch_inv (bw b)"
    and m: "mpc b = MCall" and instr: "access_instr s fin TMain (bw b) = Some w"
  shows "rep_inv s (b\<lparr>bw := w\<rparr>)"
  using instr
proof (rule access_instr_cases)
  fix pc l' pc'
  assume pc: "act (bw b) TMain = Some pc"
    and step: "guard_step (op_code s (total_ops_of s) fin) run_pended_op_code RpSwap (lk (bw b)) pc = Some (l', pc')"
    and w: "w = bw b\<lparr>lk := l', act := (act (bw b))(TMain \<mapsto> pc')\<rparr>"
  have fact: "report_fact s pc (content (lk (bw b)))" using rep pc by (simp add: rep_inv_def)
  have st: "settled s (content (lk (bw b)))"
    by (rule settled_joined [OF acc con inv fits batch]) (use rep m in \<open>simp_all add: rep_inv_def\<close>)
  have "act (bw b) u = None" if "u \<noteq> TMain" for u
    using that only_one_active(1,2) [OF inv] m by (cases u) auto
  then have "\<not> locked (lk (bw b))" if "\<not> holds pc"
    using lock pc that unfolding lock_inv_def full_holder_def
    by (metis (no_types, lifting) option.case_eq_if option.distinct(1) option.sel)
  with report_fact_step [OF step fact st] rep m show ?thesis by (simp add: rep_inv_def w)
qed

lemma rep_inv_step:
  assumes "bench_step s t b = Some b'" and rep: "rep_inv s b" and acc: "acc_inv s b"
    and con: "con_inv s b" and inv: "ctl_inv s b" "call_inv b" and lock: "lock_inv (bw b)" and fits: "fits s"
    and batch: "batch_inv (bw b)"
  shows "rep_inv s b'"
proof (cases "t = TMain")
  case True
  with assms(1) have "main_step s b = Some b'" by simp
  then show ?thesis
  proof (cases rule: main_step_cases)
    case (instr w)
    with rep_inv_instr [OF rep acc con inv lock fits batch] show ?thesis by simp
  next
    case (check ct)
    with rep show ?thesis by (auto simp: rep_inv_def report_ok_def check_counts_def)
  qed (use rep in \<open>auto simp: rep_inv_def enter_access_def leave_access_def result_ok_def\<close>)
next
  case False
  with assms show ?thesis by (blast intro: rep_inv_other)
qed

lemma bench_reach_rep: "bench_reach s b \<Longrightarrow> fits s \<Longrightarrow> rep_inv s b"
proof (induction rule: bench_reach.induct)
  case bench_start
  show ?case by (rule rep_inv_start)
next
  case (bench_next b t b')
  then show ?case
    using bench_reach_accounts bench_reach_con bench_reach_ctl bench_reach_call bench_reach_lock bench_reach_batches
    by (blast intro: rep_inv_step)
qed

end
