(* ===== verification/Schedules.thy ===== *)
theory Schedules
  imports Prelude
begin

text \<open>
  Threads with a deterministic step function each: which states a scheduler can bring about
  (\<open>leads_to\<close>), the schedule that does it (\<open>run_steps\<close>), and the principle by which the liveness
  proofs of both benchmarks go: rounds that lower a measure lead to the goal.
\<close>

definition leads_to :: "('t \<Rightarrow> 'b \<Rightarrow> 'b option) \<Rightarrow> 'b \<Rightarrow> 'b \<Rightarrow> bool" where
  "leads_to step = (\<lambda>b b'. \<exists>t. step t b = Some b')\<^sup>*\<^sup>*"

fun run_steps :: "('t \<Rightarrow> 'b \<Rightarrow> 'b option) \<Rightarrow> 't list \<Rightarrow> 'b \<Rightarrow> 'b option" where
  "run_steps step [] b = Some b"
| "run_steps step (t # ts) b = (case step t b of None \<Rightarrow> None | Some b' \<Rightarrow> run_steps step ts b')"

lemma leads_to_refl [simp]: "leads_to step b b"
  by (simp add: leads_to_def)

lemma leads_to_trans: "leads_to step b b1 \<Longrightarrow> leads_to step b1 b2 \<Longrightarrow> leads_to step b b2"
  unfolding leads_to_def by (rule rtranclp_trans)

lemma leads_to_step: "step t b = Some b' \<Longrightarrow> leads_to step b b'"
  unfolding leads_to_def by (rule r_into_rtranclp) blast

lemma leads_to_next: "step t b = Some b1 \<Longrightarrow> leads_to step b1 b' \<Longrightarrow> leads_to step b b'"
  by (blast intro: leads_to_step leads_to_trans)

lemma leads_to_inv:
  assumes "leads_to step b b'" and "keep b" and "\<And>t b b'. keep b \<Longrightarrow> step t b = Some b' \<Longrightarrow> keep b'"
  shows "keep b'"
  using assms(1) unfolding leads_to_def
  by (induction rule: rtranclp_induct) (use assms(2,3) in blast)+

lemma leads_to_schedule: "leads_to step b b' \<Longrightarrow> \<exists>ts. run_steps step ts b = Some b'"
  unfolding leads_to_def
proof (induction rule: converse_rtranclp_induct)
  case base
  show ?case by (rule exI [of _ "[]"]) simp
next
  case (step b b1)
  then obtain t ts where "step t b = Some b1" "run_steps step ts b1 = Some b'" by blast
  then show ?case by (intro exI [of _ "t # ts"]) simp
qed

lemma run_steps_leads_to: "run_steps step ts b = Some b' \<Longrightarrow> leads_to step b b'"
proof (induction ts arbitrary: b)
  case (Cons t ts)
  then show ?case by (auto split: option.splits intro: leads_to_next)
qed simp

text \<open>Rounds: while the goal is not reached, some steps preserve \<open>keep\<close> and lower the measure.\<close>

lemma leads_to_measure:
  fixes f :: "'b \<Rightarrow> nat"
  assumes "keep b"
    and "\<And>x. keep x \<Longrightarrow> \<not> goal x \<Longrightarrow> \<exists>y. leads_to step x y \<and> keep y \<and> f y < f x"
  shows "\<exists>y. leads_to step b y \<and> keep y \<and> goal y"
  using assms(1)
proof (induction "f b" arbitrary: b rule: less_induct)
  case less
  show ?case
  proof (cases "goal b")
    case True
    with less.prems show ?thesis by (intro exI [of _ b]) simp
  next
    case False
    from assms(2) [OF less.prems False] obtain y where "leads_to step b y" "keep y" "f y < f b" by blast
    with less.hyps show ?thesis by (blast intro: leads_to_trans)
  qed
qed

section \<open>Systems of interleaved threads\<close>

text \<open>
  What the two benchmarks and the whole program have in common: a start state and the states that
  steps lead to from there, and no others.
\<close>

locale interleaving =
  fixes step :: "'t \<Rightarrow> 'b \<Rightarrow> 'b option"
    and start :: 'b
    and reach :: "'b \<Rightarrow> bool"
  assumes reach_start: "reach start"
    and reach_step: "reach b \<Longrightarrow> step t b = Some b' \<Longrightarrow> reach b'"
    and reach_least: "reach b \<Longrightarrow> leads_to step start b"
begin

lemma leads_to_reach: "leads_to step b b' \<Longrightarrow> reach b \<Longrightarrow> reach b'"
  by (rule leads_to_inv) (auto intro: reach_step)

lemma run_steps_reach: "run_steps step ts b = Some b' \<Longrightarrow> reach b \<Longrightarrow> reach b'"
  using run_steps_leads_to leads_to_reach by metis

lemma reach_iff_schedule: "reach b \<longleftrightarrow> (\<exists>ts. run_steps step ts start = Some b)"
  using reach_least leads_to_schedule run_steps_reach reach_start by metis

text \<open>Liveness from the rounds, among reachable states.\<close>

lemma reach_measure:
  fixes f :: "'b \<Rightarrow> nat"
  assumes "reach b" and "keep b"
    and "\<And>x. reach x \<Longrightarrow> keep x \<Longrightarrow> \<not> goal x \<Longrightarrow> \<exists>y. leads_to step x y \<and> keep y \<and> f y < f x"
  shows "\<exists>y. leads_to step b y \<and> reach y \<and> keep y \<and> goal y"
proof -
  have "\<exists>y. leads_to step b y \<and> (reach y \<and> keep y) \<and> goal y"
    by (rule leads_to_measure [where f = f]) (use assms leads_to_reach in blast)+
  then show ?thesis by blast
qed

end

end
