(* ===== verification/SoftBenchLive.thy ===== *)
theory SoftBenchLive
  imports SoftBenchFinal Schedules
begin

text \<open>
  From every reachable state the soft-lock benchmark can still be brought to its end: accesses end
  when their thread runs alone, and there is a schedule that lets every thread finish.
\<close>

section \<open>The closures terminate from every program point\<close>

text \<open>What is left of a run, for each program point of the accessor functions.\<close>

fun submit_left :: "submit_pc \<Rightarrow> nat" where
  "submit_left SdNext = 4"
| "submit_left (SdLock _) = 3"
| "submit_left (SdPush _) = 2"
| "submit_left SdCount = 1"
| "submit_left SdUnlock = 0"

fun process_left :: "process_pc \<Rightarrow> nat" where
  "process_left (PsLock b) = 2 * unat b + 3"
| "process_left (PsPop b _) = 2 * unat b + 2"
| "process_left (PsCount b _) = 2 * unat (b - 1) + 3"
| "process_left (PsUnlock _) = 0"

fun len_left :: "len_pc \<Rightarrow> nat" where
  "len_left QlLock = 2"
| "len_left QlLen = 1"
| "len_left (QlUnlock _) = 0"

fun drain_left :: "drain_pc \<Rightarrow> demo_inner \<Rightarrow> nat" where
  "drain_left RpSwap c = 2 * unat (pending_submit c) + 5"
| "drain_left (RpBatches n) c = 2 * unat n + 4"
| "drain_left (RpItems n) c = 2 * unat n + 3"
| "drain_left (RpLock n) c = 2 * unat n + 2"
| "drain_left (RpNext n) c = 2 * unat n + 1"
| "drain_left (RpPush n _) c = 2 * unat n + 2"

text \<open>The closures run through stages; the second component counts down within a stage.\<close>

fun op_left :: "op_pc \<Rightarrow> demo_inner \<Rightarrow> nat \<times> nat" where
  "op_left (OpProducer PrFull) c = (2, 0)"
| "op_left (OpProducer (PrSubmit k)) c = (1, submit_left k)"
| "op_left (OpProducer PrPend) c = (2, 0)"
| "op_left (OpProducer PrPendSubmit) c = (1, 0)"
| "op_left (OpConsumer CoLoad) c = (9, 0)"
| "op_left (OpConsumer (CoDrain _ d)) c = (8, drain_left d c)"
| "op_left (OpConsumer (CoProcess _ k)) c = (7, process_left k)"
| "op_left (OpConsumer (CoSpin n)) c = (6, unat n)"
| "op_left (OpConsumer CoProcessed) c = (5, 0)"
| "op_left (OpConsumer CoDone) c = (4, 0)"
| "op_left (OpConsumer (CoPending _)) c = (3, 0)"
| "op_left (OpConsumer (CoLen _ _ k)) c = (2, len_left k)"
| "op_left (OpConsumer CoPendOnly) c = (1, 0)"
| "op_left (OpReport ReProcessed) c = (9, 0)"
| "op_left (OpReport (RePending _)) c = (8, 0)"
| "op_left (OpReport (ReLen _ _ k)) c = (7, len_left k)"
| "op_left (OpReport (ReFull _ _ _)) c = (6, 0)"
| "op_left (OpReport (RePend _ _ _ _)) c = (5, 0)"
| "op_left (OpReport (ReItems _ _ _ _ _)) c = (4, 0)"
| "op_left (OpReport (ReBatches _ _ _ _ _ _)) c = (3, 0)"
| "op_left (OpReport ReUnreachable) c = (1, 0)"

lemma loop_dec: "(n :: usize) \<noteq> 0 \<Longrightarrow> unat (n - 1) < unat n"
  using unat_Suc_dec [of n] by simp

lemma submit_decreases: "submit_direct_code k c = Some (c', Inl k') \<Longrightarrow> submit_left k' < submit_left k"
  by (cases k) (auto split: if_splits)

lemma process_decreases: "process_some_code k c = Some (c', Inl k') \<Longrightarrow> process_left k' < process_left k"
  by (cases k) (auto simp: word_gt_0 split: if_splits list.splits dest: loop_dec)

lemma len_decreases: "queue_len_code k c = Some (c', Inl k') \<Longrightarrow> len_left k' < len_left k"
  by (cases k) (auto split: if_splits)

lemma drain_decreases: "run_pended_op_code d c = Some (c', Inl d') \<Longrightarrow> drain_left d' c' < drain_left d c"
  by (cases d) (auto split: if_splits dest: loop_dec)

definition before_pair :: "((nat \<times> nat) \<times> (nat \<times> nat)) set" where
  "before_pair = less_than <*lex*> less_than"

lemma wf_before_pair: "wf before_pair"
  by (simp add: before_pair_def wf_lex_prod)

lemma op_decreases:
  "op_code s T e k c = Some (c', Inl k') \<Longrightarrow> (op_left k' c', op_left k c) \<in> before_pair"
  by (cases "(k, c)" rule: op_left.cases)
    (auto simp: before_pair_def tail_call_eq_Some call_eq_Some split: if_splits
      dest: submit_decreases process_decreases len_decreases drain_decreases loop_dec)

section \<open>An access that runs alone ends\<close>

text \<open>
  Nobody else owns the lock: it is taken exactly if this access owns it. The stages of the access:
  the flag is raised at most once more, because nobody else runs.
\<close>

definition alone :: "demo_inner soft_lock \<Rightarrow> (op_pc, drain_pc, op_result) guard_pc \<Rightarrow> bool" where
  "alone l pc \<longleftrightarrow> (locked l \<longleftrightarrow> holds pc) \<and> ex.region pc (content l) \<and> (\<not> locked l \<longrightarrow> demo_res (content l))"

fun access_left :: "demo_inner soft_lock \<Rightarrow> (op_pc, drain_pc, op_result) guard_pc \<Rightarrow> nat \<times> nat \<times> nat" where
  "access_left l (AtGuard f p) = (11, 0, 0)"
| "access_left l (InOp held k) = (10, op_left k (content l))"
| "access_left l (InDrain d r) = (if pending l then 9 else 4, 0, drain_left d (content l))"
| "access_left l (AtRelease r) = (if pending l then 8 else 3, 0, 0)"
| "access_left l (AtRecheck r) = (if pending l then 7 else 2, 0, 0)"
| "access_left l (AtReacquire r) = (6, 0, 0)"
| "access_left l (AtSwap r) = (5, 0, 0)"
| "access_left l (AtPendStore r) = (1, 0, 0)"
| "access_left l (Returned r) = (0, 0, 0)"

lemma access_decreases:
  assumes "guard_step (op_code s T e) run_pended_op_code RpSwap l pc = Some (l', pc')" and "alone l pc"
  shows "(access_left l' pc', access_left l pc) \<in> less_than <*lex*> before_pair"
proof (cases pc)
  case (InOp held k)
  with assms(1) obtain c x where x: "op_code s T e k (content l) = Some (c, x)" "l' = l\<lparr>content := c\<rparr>"
    "pc' = (case x of Inl k' \<Rightarrow> InOp held k' | Inr r \<Rightarrow> if held then AtSwap r else AtPendStore r)"
    by (auto split: option.splits sum.splits prod.splits)
  then show ?thesis using InOp op_decreases [of s T e k "content l" c] by (cases x) auto
next
  case (InDrain d r)
  with assms(1) show ?thesis
    by (auto simp: before_pair_def dest: drain_decreases split: option.splits sum.splits prod.splits)
next
  case (AtReacquire r)
  with assms show ?thesis by (auto simp: guard_def alone_def split: if_splits)
qed (use assms in \<open>auto simp: guard_def split: if_splits\<close>)

lemma alone_step:
  assumes step: "guard_step (op_code s T e) run_pended_op_code RpSwap l pc = Some (l', pc')" and "alone l pc"
  shows "alone l' pc'"
proof -
  have a: "locked l \<longleftrightarrow> holds pc" "ex.region pc (content l)" "\<not> locked l \<longrightarrow> demo_res (content l)"
    using assms(2) by (simp_all add: alone_def)
  note own = ex.region_owner_step [OF step a(2,3)]
  have lock: "locked l' \<longleftrightarrow> holds pc'"
    using guard_step_locked(1) [OF step] a(1) by (auto split: if_splits)
  have "demo_res (content l')" if "\<not> locked l'"
  proof (cases "holds pc")
    case True
    with own a(1) that show ?thesis by blast
  next
    case False
    with ex.region_other_step(2) [OF step a(2) False] a show ?thesis by blast
  qed
  with own(1) a(1) lock show ?thesis by (simp add: alone_def)
qed

lemma alone_enabled:
  assumes "alone l pc" and "guard_step (op_code s T e) run_pended_op_code RpSwap l pc = None"
  shows "\<exists>r. pc = Returned r"
  using assms
  by (cases pc) (auto simp: alone_def ex.own_free ex.pend_free ex.drain_free guard_def
      split: option.splits sum.splits prod.splits if_splits)

lemma alone_ends:
  "alone l pc \<Longrightarrow> \<exists>l' r. guard_runs (op_code s T e) run_pended_op_code RpSwap l pc l' r \<and> alone l' (Returned r)"
proof (induction "(l, pc)" arbitrary: l pc rule: wf_induct_rule [OF wf_inv_image
      [OF wf_lex_prod [OF wf_less_than wf_before_pair], of "\<lambda>(l, pc). access_left l pc"]])
  case (1 l pc)
  show ?case
  proof (cases "guard_step (op_code s T e) run_pended_op_code RpSwap l pc")
    case None
    with alone_enabled 1(2) obtain r where "pc = Returned r" by blast
    with 1(2) show ?thesis by (blast intro: guard_runs_return)
  next
    case (Some x)
    obtain l1 pc1 where x: "guard_step (op_code s T e) run_pended_op_code RpSwap l pc = Some (l1, pc1)"
      using Some by (cases x) simp
    have "((l1, pc1), (l, pc)) \<in> inv_image (less_than <*lex*> before_pair) (\<lambda>(l, pc). access_left l pc)"
      using access_decreases [OF x 1(2)] by simp
    from 1(1) [OF this alone_step [OF x 1(2)]] x show ?thesis by (blast intro: guard_runs_next)
  qed
qed

section \<open>Schedules\<close>

abbreviation reaches :: "scenario \<Rightarrow> bench \<Rightarrow> bench \<Rightarrow> bool" where
  "reaches s \<equiv> leads_to (bench_step s)"

lemma run_schedule_steps: "run_schedule s = run_steps (bench_step s)"
proof (intro ext)
  fix ts b
  show "run_schedule s ts b = run_steps (bench_step s) ts b"
    by (induction ts arbitrary: b) (auto split: option.splits)
qed

interpretation sb: interleaving "bench_step s" bench_new "bench_reach s" for s
proof
  show "leads_to (bench_step s) bench_new b" if "bench_reach s b" for b
    using that by (induction rule: bench_reach.induct) (auto intro: leads_to_step leads_to_trans)
qed (auto intro: bench_start bench_next)

section \<open>A thread leaves its access\<close>

definition at_pc :: "tid \<Rightarrow> demo_inner soft_lock \<Rightarrow> (op_pc, drain_pc, op_result) guard_pc \<Rightarrow> bench \<Rightarrow> bench" where
  "at_pc t l pc b = b\<lparr>bw := bw b\<lparr>lk := l, act := (act (bw b))(t \<mapsto> pc)\<rparr>\<rparr>"

lemma at_pc_simps [simp]:
  "lk (bw (at_pc t l pc b)) = l" "act (bw (at_pc t l pc b)) = (act (bw b))(t \<mapsto> pc)"
  "in_call (at_pc t l pc b) = in_call b" "producers_done (at_pc t l pc b) = producers_done b"
  "mpc (at_pc t l pc b) = mpc b" "cpc (at_pc t l pc b) = cpc b" "ppc (at_pc t l pc b) = ppc b"
  "at_pc t l' pc' (at_pc t l pc b) = at_pc t l' pc' b"
  by (simp_all add: at_pc_def)

lemma at_pc_same: "act (bw b) t = Some pc \<Longrightarrow> at_pc t (lk (bw b)) pc b = b"
  by (cases b) (simp add: at_pc_def fun_upd_idem)

lemma access_bench_step:
  assumes "in_call b t" and "act (bw b) t = Some pc"
    and "guard_step (op_code s (total_ops_of s) (producers_done b)) run_pended_op_code RpSwap (lk (bw b)) pc
      = Some (l', pc')"
  shows "bench_step s t b = Some (at_pc t l' pc' b)"
proof -
  have "access_instr s (producers_done b) t (bw b) = Some (bw (at_pc t l' pc' b))"
    using assms(2,3) by (simp add: access_instr_def at_pc_def)
  moreover have "\<And>r. pc \<noteq> Returned r" using assms(3) by auto
  ultimately show ?thesis using assms(1,2)
    by (cases t; cases pc) (auto simp: main_step_def consumer_step_def producer_step_def at_pc_def)
qed

lemma access_schedule:
  assumes "guard_runs (op_code s (total_ops_of s) d) run_pended_op_code RpSwap l pc l' r"
    and "in_call b t" and "act (bw b) t = Some pc" and "lk (bw b) = l" and "producers_done b = d"
  shows "reaches s b (at_pc t l' (Returned r) b)"
  using assms
proof (induction arbitrary: b rule: guard_runs.induct)
  case (guard_runs_return l r)
  then show ?case using at_pc_same [of b t "Returned r"] by simp
next
  case (guard_runs_next l pc l1 pc1 l' r)
  have step: "bench_step s t b = Some (at_pc t l1 pc1 b)"
    using guard_runs_next.prems guard_runs_next.hyps(1) by (intro access_bench_step) simp_all
  have "reaches s (at_pc t l1 pc1 b) (at_pc t l' (Returned r) (at_pc t l1 pc1 b))"
    using guard_runs_next.prems by (intro guard_runs_next.IH) simp_all
  with step show ?case by (auto intro: leads_to_next)
qed

text \<open>The lock is free, or owned by the thread that moves next.\<close>

lemma bench_alone:
  assumes "bench_reach s b" and "act (bw b) t = Some pc" and "locked (lk (bw b)) \<longrightarrow> holds pc"
  shows "alone (lk (bw b)) pc"
proof -
  have "holds pc \<longrightarrow> locked (lk (bw b))"
    using bench_reach_lock [OF assms(1)] assms(2)
    by (auto simp: lock_inv_def full_holder_def split: option.splits)
  moreover have "ex.region pc (content (lk (bw b)))" "\<not> locked (lk (bw b)) \<longrightarrow> demo_res (content (lk (bw b)))"
    using bench_reach_region [OF assms(1)] assms(2) by (auto simp: ex.region_inv_def)
  ultimately show ?thesis using assms(3) by (auto simp: alone_def)
qed

lemma reaches_returned:
  assumes "bench_reach s b" and "act (bw b) t = Some pc" and "locked (lk (bw b)) \<longrightarrow> holds pc"
  shows "\<exists>l r. reaches s b (at_pc t l (Returned r) b) \<and> \<not> locked l \<and> result_of t r"
proof -
  obtain l r where run: "guard_runs (op_code s (total_ops_of s) (producers_done b)) run_pended_op_code RpSwap
      (lk (bw b)) pc l r" and l: "alone l (Returned r)"
    using alone_ends [OF bench_alone [OF assms]] by blast
  have reach: "reaches s b (at_pc t l (Returned r) b)"
    by (rule access_schedule [OF run call_inv_in_call [OF bench_reach_call [OF assms(1)] assms(2)] assms(2)])
      simp_all
  from call_inv_ok [OF bench_reach_call [OF sb.leads_to_reach [OF reach assms(1)]], of t] have "result_of t r"
    by simp
  with reach l show ?thesis by (auto simp: alone_def)
qed

text \<open>A state in which the lock is free can be reached without anybody's control moving.\<close>

lemma reaches_unlocked:
  assumes "bench_reach s b"
  shows "\<exists>b'. reaches s b b' \<and> \<not> locked (lk (bw b'))"
proof (cases "locked (lk (bw b))")
  case True
  then obtain t where "full_holder (bw b) t"
    using bench_reach_lock [OF assms] by (auto simp: lock_inv_def)
  then obtain pc where pc: "act (bw b) t = Some pc" "holds pc"
    by (auto simp: full_holder_def split: option.splits)
  with reaches_returned [OF assms pc(1)] show ?thesis by force
next
  case False
  then show ?thesis by (intro exI [of _ b]) simp
qed

definition calm :: "scenario \<Rightarrow> bench \<Rightarrow> bool" where
  "calm s b \<longleftrightarrow> bench_reach s b \<and> \<not> locked (lk (bw b))"

lemma calm_reaches: "calm s b \<Longrightarrow> reaches s b b' \<Longrightarrow> \<not> locked (lk (bw b')) \<Longrightarrow> calm s b'"
  by (auto simp: calm_def intro: sb.leads_to_reach)

lemma calm_step:
  "calm s b \<Longrightarrow> bench_step s t b = Some b' \<Longrightarrow> lk (bw b') = lk (bw b) \<Longrightarrow> calm s b' \<and> reaches s b b'"
  by (auto simp: calm_def intro: leads_to_step bench_next)

lemma calm_returned:
  assumes "calm s b" and "in_call b t"
  shows "\<exists>l r. calm s (at_pc t l (Returned r) b) \<and> reaches s b (at_pc t l (Returned r) b) \<and> result_of t r"
proof -
  have b: "bench_reach s b" "\<not> locked (lk (bw b))" using assms(1) by (simp_all add: calm_def)
  from assms(2) bench_reach_call [OF b(1)] obtain pc where "act (bw b) t = Some pc"
    unfolding call_inv_def by blast
  from reaches_returned [OF b(1) this] b(2) obtain l r
    where "reaches s b (at_pc t l (Returned r) b)" "\<not> locked l" "result_of t r" by blast
  with calm_reaches [OF assms(1)] show ?thesis by force
qed

section \<open>Every producer can finish\<close>

fun producer_left :: "nat \<Rightarrow> producer_state \<Rightarrow> nat" where
  "producer_left m (PLoop i) = 3 * (m - i) + 1"
| "producer_left m (PCall i) = 3 * (m - i)"
| "producer_left m (PYield i) = 3 * (m - i) - 1"
| "producer_left m _ = 0"

definition producer_moved :: "nat \<Rightarrow> bench \<Rightarrow> bench \<Rightarrow> bool" where
  "producer_moved p b b' \<longleftrightarrow> mpc b' = mpc b \<and> ppc b' p \<noteq> PNew \<and> (\<forall>q. q \<noteq> p \<longrightarrow> ppc b' q = ppc b q)"

lemma producer_round:
  assumes "calm s b" and "ppc b p \<noteq> PNew" and "ppc b p \<noteq> PExit"
  shows "\<exists>b'. calm s b' \<and> reaches s b b' \<and> producer_moved p b b' \<and>
    producer_left (unat (ops_per_producer s)) (ppc b' p) < producer_left (unat (ops_per_producer s)) (ppc b p)"
proof -
  let ?m = "unat (ops_per_producer s)"
  have it: "iterations_ok ?m (ppc b p)"
    using assms(1) bench_reach_ctl by (auto simp: calm_def ctl_inv_def)
  show ?thesis
  proof (cases "ppc b p")
    case (PLoop i)
    let ?b = "if i < ?m then b\<lparr>bw := enter_access (TProducer p) (OpProducer PrFull) (OpProducer PrPend) (bw b),
        ppc := (ppc b)(p := PCall i)\<rparr> else b\<lparr>ppc := (ppc b)(p := PExit)\<rparr>"
    have "bench_step s (TProducer p) b = Some ?b" using PLoop by (simp add: producer_step_def)
    from calm_step [OF assms(1) this] show ?thesis
      by (intro exI [of _ ?b]) (simp add: PLoop producer_moved_def)
  next
    case (PYield i)
    let ?b = "b\<lparr>ppc := (ppc b)(p := PLoop (i + 1))\<rparr>"
    have "bench_step s (TProducer p) b = Some ?b" using PYield by (simp add: producer_step_def)
    from calm_step [OF assms(1) this] show ?thesis
      by (intro exI [of _ ?b]) (use it in \<open>simp add: PYield producer_moved_def\<close>)
  next
    case (PCall i)
    then have "in_call b (TProducer p)" by simp
    from calm_returned [OF assms(1) this] obtain l r where
      b1: "calm s (at_pc (TProducer p) l (Returned r) b)" "reaches s b (at_pc (TProducer p) l (Returned r) b)"
      by blast
    let ?b1 = "at_pc (TProducer p) l (Returned r) b"
    define x where "x = (if producer_pause_every s \<noteq> 0 \<and> of_nat (i + p) mod producer_pause_every s = 0
      then PYield i else PLoop (i + 1))"
    let ?b = "?b1\<lparr>bw := leave_access (TProducer p) (bw ?b1), ppc := (ppc b)(p := x)\<rparr>"
    have x: "x \<noteq> PNew" "producer_left ?m x < 3 * (?m - i)" using it by (auto simp: x_def PCall)
    have "bench_step s (TProducer p) ?b1 = Some ?b" using PCall by (simp add: producer_step_def x_def)
    from calm_step [OF b1(1) this] leads_to_trans [OF b1(2)] x show ?thesis
      by (intro exI [of _ ?b]) (simp add: PCall producer_moved_def)
  qed (use assms in simp_all)
qed

lemma producer_finishes:
  assumes "calm s b" and "ppc b p \<noteq> PNew"
  shows "\<exists>b'. calm s b' \<and> reaches s b b' \<and> producer_moved p b b' \<and> ppc b' p = PExit"
proof -
  let ?inv = "\<lambda>x. calm s x \<and> producer_moved p b x"
  have "\<exists>y. reaches s b y \<and> ?inv y \<and> ppc y p = PExit"
  proof (rule leads_to_measure [where keep = ?inv
        and f = "\<lambda>x. producer_left (unat (ops_per_producer s)) (ppc x p)"])
    show "?inv b" using assms by (simp add: producer_moved_def)
    fix x assume x: "?inv x" "ppc x p \<noteq> PExit"
    then have "ppc x p \<noteq> PNew" by (simp add: producer_moved_def)
    from producer_round [OF x(1) [THEN conjunct1] this x(2)] x(1)
    show "\<exists>y. reaches s x y \<and> ?inv y \<and> producer_left (unat (ops_per_producer s)) (ppc y p) <
        producer_left (unat (ops_per_producer s)) (ppc x p)"
      by (auto simp: producer_moved_def)
  qed
  then show ?thesis by blast
qed

section \<open>The main thread reaches the join of the consumer\<close>

fun main_left :: "nat \<Rightarrow> main_state \<Rightarrow> nat" where
  "main_left n MSpawnConsumer = 2 * n + 5"
| "main_left n (MSpawn p) = (n - p) + n + 4"
| "main_left n (MJoin p) = (n - p) + 2"
| "main_left n MStoreDone = 1"
| "main_left n _ = 0"

lemma main_round:
  assumes "calm s b" and "\<not> stored (mpc b)"
  shows "\<exists>b'. calm s b' \<and> reaches s b b' \<and>
    main_left (unat (producers s)) (mpc b') < main_left (unat (producers s)) (mpc b)"
proof -
  let ?n = "unat (producers s)"
  have ctl: "ctl_inv s b" using assms(1) bench_reach_ctl by (auto simp: calm_def)
  have step: ?thesis if "main_step s b = Some b'" "lk (bw b') = lk (bw b)"
    "main_left ?n (mpc b') < main_left ?n (mpc b)" for b'
    using calm_step [OF assms(1), of TMain b'] that by auto
  show ?thesis
  proof (cases "mpc b")
    case (MJoin p)
    show ?thesis
    proof (cases "p < ?n")
      case True
      from ctl True have "ppc b p \<noteq> PNew" using MJoin by (simp add: ctl_inv_def)
      from producer_finishes [OF assms(1) this] obtain b1 where
        b1: "calm s b1" "reaches s b b1" "producer_moved p b b1" "ppc b1 p = PExit" by blast
      then have "main_step s b1 = Some (b1\<lparr>mpc := MJoin (p + 1)\<rparr>)"
        using MJoin True by (simp add: main_step_def producer_moved_def)
      with calm_step [OF b1(1), of TMain] b1(2) show ?thesis
        by (intro exI [of _ "b1\<lparr>mpc := MJoin (p + 1)\<rparr>"]) (use True MJoin in \<open>auto intro: leads_to_trans\<close>)
    next
      case False
      show ?thesis by (rule step [of "b\<lparr>mpc := MStoreDone\<rparr>"]) (use False MJoin in \<open>simp_all add: main_step_def\<close>)
    qed
  next
    case (MSpawn p)
    let ?b = "if p < ?n then b\<lparr>ppc := (ppc b)(p := PLoop 0), mpc := MSpawn (p + 1)\<rparr> else b\<lparr>mpc := MJoin 0\<rparr>"
    show ?thesis by (rule step [of ?b]) (use MSpawn in \<open>auto simp: main_step_def\<close>)
  next
    case MSpawnConsumer
    show ?thesis
      by (rule step [of "b\<lparr>cpc := CLoop, mpc := MSpawn 0\<rparr>"]) (use MSpawnConsumer in \<open>simp_all add: main_step_def\<close>)
  next
    case MStoreDone
    show ?thesis
      by (rule step [of "b\<lparr>producers_done := True, mpc := MJoinConsumer\<rparr>"])
        (use MStoreDone in \<open>simp_all add: main_step_def\<close>)
  qed (use assms(2) in simp_all)
qed

lemma main_stores: "calm s b \<Longrightarrow> \<exists>b'. reaches s b b' \<and> calm s b' \<and> stored (mpc b')"
  by (rule leads_to_measure [where f = "\<lambda>x. main_left (unat (producers s)) (mpc x)"])
    (use main_round in blast)+

section \<open>The consumer reaches its exit\<close>

text \<open>What one Full access of the consumer computes, with the drain of its release loop.\<close>

definition unserved :: "demo_inner \<Rightarrow> nat" where
  "unserved c = length (queue c) + unat (pending_submit c)"

lemma consumer_full_unserved:
  assumes "can_serve s" and "snd (consumer_full_spec s (total_ops_of s) True c)"
  shows "unserved (fst (consumer_full_spec s (total_ops_of s) True c)) < unserved c"
proof -
  let ?T = "total_ops_of s"
  let ?q = "queue (run_pended_op_spec c)"
  let ?k = "min (unat (consumer_budget s)) (length ?q)"
  have spec: "pending_submit (fst (consumer_full_spec s ?T True c)) = 0"
    "queue (fst (consumer_full_spec s ?T True c)) = drop ?k ?q"
    by (simp_all add: consumer_full_spec_def process_some_spec_def run_pended_op_spec_def Let_def)
  have all: "length ?q = unserved c"
    by (simp add: run_pended_op_spec_def Let_def unserved_def)
  have "queue (fst (consumer_full_spec s ?T True c)) \<noteq> []"
    using assms(2) spec(1) by (auto simp: consumer_full_spec_def Let_def)
  with spec(2) have "?q \<noteq> []" by auto
  moreover have "?T \<noteq> 0" using assms(2) by (auto simp: consumer_full_spec_def Let_def)
  then have "0 < unat (consumer_budget s)" using assms(1) by (simp add: can_serve_def unat_gt_0)
  ultimately show ?thesis unfolding unserved_def [of "fst _"] spec
    by (simp flip: all)
qed

lemma run_pended_op_spec_none: "pending_submit c = 0 \<Longrightarrow> run_pended_op_spec c = c"
  by (simp add: run_pended_op_spec_def)

lemma consumer_access_runs:
  assumes "\<not> locked l" and "\<not> queue_locked (content l)"
  shows "guard_runs (op_code s T d) run_pended_op_code RpSwap l
    (AtGuard (OpConsumer CoLoad) (OpConsumer CoPendOnly))
    (l\<lparr>content := fst (consumer_full_spec s T d (content l)), pending := False, locked := False\<rparr>)
    (RConsumer (snd (consumer_full_spec s T d (content l))))"
proof -
  let ?f = "\<lambda>c. (fst (consumer_full_spec s T d c), RConsumer (snd (consumer_full_spec s T d c)))"
  let ?c = "fst (consumer_full_spec s T d (content l))"
  have free: "\<not> queue_locked ?c" and none: "pending_submit ?c = 0"
    using assms(2) by (simp_all add: consumer_full_spec_def process_some_spec_def run_pended_op_spec_def Let_def)
  have "guard_runs (op_code s T d) run_pended_op_code RpSwap l
      (AtGuard (OpConsumer CoLoad) (OpConsumer CoPendOnly))
      (fst (with_access_spec ?f (\<lambda>c. (c, RConsumer True)) run_pended_op_spec l))
      (snd (with_access_spec ?f (\<lambda>c. (c, RConsumer True)) run_pended_op_spec l))"
    using assms(1) op_consumer_runs [OF consumer_full_runs [OF assms(2)]] run_pended_op_runs [OF free]
    by (intro guard_runs_with_access) simp_all
  with assms(1) run_pended_op_spec_none [OF none] show ?thesis
    by (cases "pending l") (simp_all add: with_access_spec_def)
qed

text \<open>One iteration of the loop: it is the last, or it leaves less to serve.\<close>

definition consumer_moved :: "bench \<Rightarrow> bench \<Rightarrow> bool" where
  "consumer_moved b b' \<longleftrightarrow> mpc b' = mpc b \<and> producers_done b' = producers_done b"

lemma consumer_iteration:
  assumes "calm s b" and "cpc b = CLoop" and "producers_done b" and "can_serve s"
  shows "\<exists>b'. calm s b' \<and> reaches s b b' \<and> consumer_moved b b' \<and>
    (cpc b' = CExit \<or> cpc b' = CLoop \<and> unserved (content (lk (bw b'))) < unserved (content (lk (bw b))))"
proof -
  let ?l = "lk (bw b)"
  let ?t = "total_ops_of s"
  have "bench_reach s b" and lock: "\<not> locked ?l" using assms(1) by (simp_all add: calm_def)
  with bench_reach_region have "\<not> queue_locked (content ?l)"
    by (auto simp: ex.region_inv_def demo_res_def)
  note run = consumer_access_runs [OF lock this, of s ?t True]
  let ?b0 = "b\<lparr>bw := enter_access TConsumer (OpConsumer CoLoad) (OpConsumer CoPendOnly) (bw b), cpc := CCall\<rparr>"
  have "bench_step s TConsumer b = Some ?b0" using assms(2) by (simp add: consumer_step_def)
  from calm_step [OF assms(1) this] have b0: "calm s ?b0" "reaches s b ?b0" by simp_all
  define l where "l = ?l\<lparr>content := fst (consumer_full_spec s ?t True (content ?l)), pending := False, locked := False\<rparr>"
  define again where "again = snd (consumer_full_spec s ?t True (content ?l))"
  let ?b1 = "at_pc TConsumer l (Returned (RConsumer again)) ?b0"
  have "reaches s ?b0 ?b1"
    by (rule access_schedule [OF run [folded l_def again_def]]) (simp_all add: enter_access_def assms(3))
  moreover have "\<not> locked l" by (simp add: l_def)
  ultimately have b1: "calm s ?b1" "reaches s b ?b1"
    using calm_reaches [OF b0(1)] leads_to_trans [OF b0(2)] by simp_all
  let ?b2 = "?b1\<lparr>bw := leave_access TConsumer (bw ?b1), cpc := if again then CYield else CExit\<rparr>"
  have "bench_step s TConsumer ?b1 = Some ?b2" by (simp add: consumer_step_def)
  from calm_step [OF b1(1) this] leads_to_trans [OF b1(2)] have b2: "calm s ?b2" "reaches s b ?b2" by simp_all
  show ?thesis
  proof (cases again)
    case False
    with b2 show ?thesis by (intro exI [of _ ?b2]) (simp add: consumer_moved_def)
  next
    case True
    let ?b3 = "?b2\<lparr>cpc := CLoop\<rparr>"
    have "bench_step s TConsumer ?b2 = Some ?b3" using True by (simp add: consumer_step_def)
    from calm_step [OF b2(1) this] leads_to_trans [OF b2(2)] have "calm s ?b3" "reaches s b ?b3" by simp_all
    moreover have "unserved (content l) < unserved (content ?l)"
      using consumer_full_unserved [OF assms(4)] True by (simp add: l_def again_def)
    ultimately show ?thesis by (intro exI [of _ ?b3]) (simp add: consumer_moved_def)
  qed
qed

lemma consumer_loops_out:
  assumes "calm s b" and "cpc b = CLoop \<or> cpc b = CExit" and "producers_done b" and "can_serve s"
  shows "\<exists>b'. reaches s b b' \<and> (calm s b' \<and> (cpc b' = CLoop \<or> cpc b' = CExit) \<and> consumer_moved b b') \<and>
    cpc b' = CExit"
proof (rule leads_to_measure [where f = "\<lambda>x. if cpc x = CExit then 0 else Suc (unserved (content (lk (bw x))))"])
  show "calm s b \<and> (cpc b = CLoop \<or> cpc b = CExit) \<and> consumer_moved b b"
    using assms by (simp add: consumer_moved_def)
  fix x assume x: "calm s x \<and> (cpc x = CLoop \<or> cpc x = CExit) \<and> consumer_moved b x" "cpc x \<noteq> CExit"
  then have "cpc x = CLoop" "producers_done x" using assms(3) by (auto simp: consumer_moved_def)
  from consumer_iteration [OF _ this assms(4)] x
  show "\<exists>y. reaches s x y \<and> (calm s y \<and> (cpc y = CLoop \<or> cpc y = CExit) \<and> consumer_moved b y) \<and>
      (if cpc y = CExit then 0 else Suc (unserved (content (lk (bw y))))) <
      (if cpc x = CExit then 0 else Suc (unserved (content (lk (bw x)))))"
    by (fastforce simp: consumer_moved_def)
qed

lemma consumer_to_loop:
  assumes "calm s b" and "cpc b \<noteq> CNew"
  shows "\<exists>b'. calm s b' \<and> reaches s b b' \<and> consumer_moved b b' \<and> (cpc b' = CExit \<or> cpc b' = CLoop)"
proof -
  have yield: "\<exists>b'. calm s b' \<and> reaches s x b' \<and> consumer_moved x b' \<and> (cpc b' = CExit \<or> cpc b' = CLoop)"
    if "calm s x" "cpc x \<noteq> CNew" "cpc x \<noteq> CCall" for x
  proof (cases "cpc x = CYield")
    case True
    then have "bench_step s TConsumer x = Some (x\<lparr>cpc := CLoop\<rparr>)" by (simp add: consumer_step_def)
    from calm_step [OF that(1) this] show ?thesis
      by (intro exI [of _ "x\<lparr>cpc := CLoop\<rparr>"]) (simp add: consumer_moved_def)
  next
    case False
    with that show ?thesis
      by (intro exI [of _ x]) (cases "cpc x"; simp add: consumer_moved_def)
  qed
  show ?thesis
  proof (cases "cpc b = CCall")
    case True
    then have "in_call b TConsumer" by simp
    from calm_returned [OF assms(1) this] obtain l r where
      b1: "calm s (at_pc TConsumer l (Returned r) b)" "reaches s b (at_pc TConsumer l (Returned r) b)"
      and r: "result_of TConsumer r" by blast
    then obtain again where again: "r = RConsumer again" by (cases r) auto
    let ?b1 = "at_pc TConsumer l (Returned r) b"
    let ?b2 = "?b1\<lparr>bw := leave_access TConsumer (bw ?b1), cpc := if again then CYield else CExit\<rparr>"
    have "bench_step s TConsumer ?b1 = Some ?b2" using True by (simp add: consumer_step_def again)
    from calm_step [OF b1(1) this] leads_to_trans [OF b1(2)] have "calm s ?b2" "reaches s b ?b2" by simp_all
    moreover from this(1) obtain b3 where "calm s b3" "reaches s ?b2 b3" "consumer_moved ?b2 b3"
      "cpc b3 = CExit \<or> cpc b3 = CLoop"
      using yield [of ?b2] by (auto split: if_splits)
    ultimately show ?thesis
      by (intro exI [of _ b3]) (auto simp: consumer_moved_def intro: leads_to_trans)
  qed (use yield assms in blast)
qed

section \<open>The main thread returns\<close>

lemma main_joins:
  assumes "calm s b" and "stored (mpc b)" and "can_serve s"
  shows "\<exists>b'. calm s b' \<and> reaches s b b' \<and> consumer_joined (mpc b')"
proof (cases "mpc b = MJoinConsumer")
  case True
  from assms(1) bench_reach_ctl have ctl: "ctl_inv s b" by (auto simp: calm_def)
  with True have "cpc b \<noteq> CNew" "producers_done b" by (simp_all add: ctl_inv_def)
  from consumer_to_loop [OF assms(1) this(1)] obtain b1 where b1: "calm s b1" "reaches s b b1"
    "consumer_moved b b1" "cpc b1 = CExit \<or> cpc b1 = CLoop" by blast
  then obtain b2 where b2: "reaches s b1 b2" "calm s b2" "consumer_moved b1 b2" "cpc b2 = CExit"
    using consumer_loops_out [OF b1(1) _ _ assms(3)] \<open>producers_done b\<close> by (auto simp: consumer_moved_def)
  then have "bench_step s TMain b2 = Some (b2\<lparr>mpc := MReport\<rparr>)"
    using b1(3) True by (simp add: main_step_def consumer_moved_def)
  from calm_step [OF b2(2) this] b1(2) b2(1) show ?thesis
    by (intro exI [of _ "b2\<lparr>mpc := MReport\<rparr>"]) (auto intro: leads_to_trans)
next
  case False
  with assms(1,2) show ?thesis by (intro exI [of _ b]) (cases "mpc b"; simp)
qed

lemma main_returns:
  assumes "calm s b" and "consumer_joined (mpc b)" and "fits s"
  shows "\<exists>ct b'. reaches s b b' \<and> mpc b' = MReturn ct"
proof -
  have check: "\<exists>ct b'. reaches s x b' \<and> mpc b' = MReturn ct" if "calm s x" "mpc x = MCheck ct" for x ct
  proof -
    let ?x = "x\<lparr>mpc := check_counts s ct\<rparr>"
    have "bench_step s TMain x = Some ?x" using that(2) by (simp add: main_step_def)
    moreover have "report_ok s ct"
      using bench_reach_rep [OF _ assms(3)] that by (auto simp: calm_def rep_inv_def)
    then have "check_counts s ct = MReturn ct" by (simp add: check_counts_def report_ok_def)
    ultimately show ?thesis
      by (intro exI [of _ ct] exI [of _ ?x]) (simp add: leads_to_step del: bench_step.simps)
  qed
  have called: "\<exists>ct b'. reaches s x b' \<and> mpc b' = MReturn ct" if x: "calm s x" "mpc x = MCall" for x
  proof -
    have "in_call x TMain" using x(2) by simp
    from calm_returned [OF x(1) this] obtain l r where
      b1: "calm s (at_pc TMain l (Returned r) x)" "reaches s x (at_pc TMain l (Returned r) x)" by blast
    then have "result_ok s r"
      using bench_reach_rep [OF _ assms(3)] by (force simp: calm_def rep_inv_def)
    then obtain ct where ct: "r = RReport (Counts ct)" by (auto simp: result_ok_def)
    let ?b1 = "at_pc TMain l (Returned r) x"
    let ?b2 = "?b1\<lparr>bw := leave_access TMain (bw ?b1), mpc := MCheck ct\<rparr>"
    have "bench_step s TMain ?b1 = Some ?b2" using x(2) by (simp add: main_step_def ct)
    from calm_step [OF b1(1) this] leads_to_trans [OF b1(2)] have "calm s ?b2" "reaches s x ?b2" by simp_all
    with check [of ?b2 ct] show ?thesis by (auto intro: leads_to_trans)
  qed
  show ?thesis
  proof (cases "mpc b")
    case MReport
    let ?b = "b\<lparr>bw := enter_access TMain (OpReport ReProcessed) (OpReport ReUnreachable) (bw b), mpc := MCall\<rparr>"
    have "bench_step s TMain b = Some ?b" using MReport by (simp add: main_step_def)
    from calm_step [OF assms(1) this] called [of ?b] show ?thesis by (auto intro: leads_to_trans)
  next
    case (MReturn ct)
    then show ?thesis by (intro exI [of _ ct] exI [of _ b]) simp
  next
    case (MPanic m)
    with bench_reach_rep [OF _ assms(3)] assms(1) show ?thesis by (auto simp: calm_def rep_inv_def)
  qed (use assms called check in simp_all)
qed

lemma bench_can_return:
  assumes "bench_reach s b" and "fits s" and "can_serve s"
  shows "\<exists>ts b' ct. run_schedule s ts b = Some b' \<and> mpc b' = MReturn ct"
proof -
  from reaches_unlocked [OF assms(1)] assms(1) obtain b1 where b1: "reaches s b b1" "calm s b1"
    by (auto simp: calm_def intro: sb.leads_to_reach)
  from main_stores [OF b1(2)] obtain b2 where b2: "reaches s b1 b2" "calm s b2" "stored (mpc b2)" by blast
  from main_joins [OF b2(2,3) assms(3)] obtain b3 where b3: "calm s b3" "reaches s b2 b3"
    "consumer_joined (mpc b3)" by blast
  from main_returns [OF b3(1,3) assms(2)] b1(1) b2(1) b3(2) show ?thesis
    unfolding run_schedule_steps by (meson leads_to_trans leads_to_schedule)
qed

end
