(* ===== verification/MutexBench.thy ===== *)
theory MutexBench
  imports Scenario
begin

text \<open>
  \<open>run_mutex_bench\<close> of \<^verbatim>\<open>softlock-std-demo/src/main.rs\<close>: the same work as the soft-lock benchmark with a
  plain \<open>Mutex<VecDeque<u64>>\<close>. Every atomic operation and every mutex operation is one step of its
  thread; \<open>lock()\<close> is enabled only while the mutex is free. Time measurement is left out. The program is the
  one that \<open>cargo run\<close> builds (profile \<open>dev\<close>): an overflowing \<open>+=\<close> panics, unwinding releases and poisons
  the mutex, and every \<open>expect\<close> on a poisoned mutex or on a panicked thread panics in turn.
\<close>

section \<open>State\<close>

type_synonym i32 = "32 word"

text \<open>The largest value of an \<open>i32\<close>; one more and the addition panics.\<close>

definition i32_max :: i32 where
  "i32_max = 0x7FFFFFFF"

record mutex_inner =
  mqueue :: "u64 list"
  mlocked :: bool
  mpoisoned :: bool
  mnext_id :: u64
  mprocessed :: usize
  producer_lock_count :: usize
  consumer_lock_count :: usize

definition mutex_inner_new :: mutex_inner where
  "mutex_inner_new = \<lparr>mqueue = [], mlocked = False, mpoisoned = False, mnext_id = 1,
     mprocessed = 0, producer_lock_count = 0, consumer_lock_count = 0\<rparr>"

text \<open>
  One thread of each kind: the consumer's closure, a producer's closure, the function body. \<open>McUnwind\<close> is the
  consumer while it unwinds with the guard still alive; \<open>McPanic\<close> and \<open>MpPanic\<close> are threads that have
  ended with a panic; \<open>MmProducerPanicked\<close>, \<open>MmConsumerPanicked\<close> and \<open>MmPoisoned\<close> are the three
  \<open>expect\<close>s of the function body, \<open>MmPanic\<close> its assertions.
\<close>

datatype mutex_consumer = McNew | McCount | McLock | McPop usize i32 | McProcess usize i32
  | McSpin usize | McLoad | McDone | McEmpty bool | McDrop | McYield | McBreak | McExit | McUnwind | McPanic

datatype mutex_producer = MpNew | MpLoop nat | MpCount nat | MpLock nat | MpNext nat | MpPush nat u64
  | MpDrop nat | MpYield nat | MpExit | MpPanic nat

record mutex_result =
  mr_processed :: usize
  mr_queue_left :: usize
  lock_acquires_producer :: usize
  lock_acquires_consumer :: usize

datatype mutex_main = MmSpawnConsumer | MmSpawn nat | MmJoin nat | MmStoreDone | MmJoinConsumer
  | MmProcessed | MmLock usize | MmLen usize | MmUnlock usize usize | MmCheck usize usize
  | MmProducerCount usize usize | MmConsumerCount usize usize usize | MmReturn mutex_result | MmPanic string
  | MmProducerPanicked | MmConsumerPanicked | MmPoisoned

datatype mtid = MtMain | MtConsumer | MtProducer nat

record mutex_bench =
  inner :: mutex_inner
  mdone :: bool
  mm :: mutex_main
  mc :: mutex_consumer
  mp :: "nat \<Rightarrow> mutex_producer"

definition mutex_bench_new :: mutex_bench where
  "mutex_bench_new = \<lparr>inner = mutex_inner_new, mdone = False, mm = MmSpawnConsumer, mc = McNew,
     mp = (\<lambda>_. MpNew)\<rparr>"

section \<open>Steps\<close>

text \<open>
  The consumer: its program points carry the remaining iterations of the \<open>for\<close> loop and
  \<open>processed_now\<close>, which is an \<open>i32\<close> (an integer literal without a type); \<open>McBreak\<close> drops the queue's
  guard when the outer loop is left. A \<open>lock()\<close> that finds the mutex poisoned takes it and panics, and the
  unwinding lets it go again: one step that leaves the mutex alone.
\<close>

fun mutex_consumer_step :: "scenario \<Rightarrow> bool \<Rightarrow> mutex_consumer \<Rightarrow> mutex_inner
    \<Rightarrow> (mutex_inner \<times> mutex_consumer) option" where
  "mutex_consumer_step s fin McCount c =
     Some (c\<lparr>consumer_lock_count := consumer_lock_count c + 1\<rparr>, McLock)"
| "mutex_consumer_step s fin McLock c =
     (if mlocked c then None
      else if mpoisoned c then Some (c, McPanic)
      else Some (c\<lparr>mlocked := True\<rparr>, McPop (consumer_budget s) 0))"
| "mutex_consumer_step s fin (McPop n now) c =
     (if n = 0 then Some (c, if 0 < sint now then McSpin (consumer_hold_spin s) else McLoad)
      else (case mqueue c of
          [] \<Rightarrow> Some (c, if 0 < sint now then McSpin (consumer_hold_spin s) else McLoad)
        | _ # q \<Rightarrow> Some (c\<lparr>mqueue := q\<rparr>, McProcess (n - 1) now)))"
| "mutex_consumer_step s fin (McProcess n now) c =
     Some (c\<lparr>mprocessed := mprocessed c + 1\<rparr>, if now = i32_max then McUnwind else McPop n (now + 1))"
| "mutex_consumer_step s fin (McSpin n) c = Some (c, spin_n n McLoad McSpin)"
| "mutex_consumer_step s fin McLoad c =
     Some (c, if mprocessed c \<ge> total_ops_of s then McBreak else McDone)"
| "mutex_consumer_step s fin McDone c = Some (c, McEmpty fin)"
| "mutex_consumer_step s fin (McEmpty finished) c =
     Some (c, if finished \<and> mqueue c = [] then McBreak else McDrop)"
| "mutex_consumer_step s fin McDrop c = Some (c\<lparr>mlocked := False\<rparr>, McYield)"
| "mutex_consumer_step s fin McYield c = Some (c, McCount)"
| "mutex_consumer_step s fin McBreak c = Some (c\<lparr>mlocked := False\<rparr>, McExit)"
| "mutex_consumer_step s fin McUnwind c = Some (c\<lparr>mlocked := False, mpoisoned := True\<rparr>, McPanic)"
| "mutex_consumer_step s fin _ c = None"

text \<open>Producer number \<open>p\<close>.\<close>

fun mutex_producer_step :: "scenario \<Rightarrow> nat \<Rightarrow> mutex_producer \<Rightarrow> mutex_inner
    \<Rightarrow> (mutex_inner \<times> mutex_producer) option" where
  "mutex_producer_step s p (MpLoop i) c =
     Some (c, if i < unat (ops_per_producer s) then MpCount i else MpExit)"
| "mutex_producer_step s p (MpCount i) c =
     Some (c\<lparr>producer_lock_count := producer_lock_count c + 1\<rparr>, MpLock i)"
| "mutex_producer_step s p (MpLock i) c =
     (if mlocked c then None
      else if mpoisoned c then Some (c, MpPanic i)
      else Some (c\<lparr>mlocked := True\<rparr>, MpNext i))"
| "mutex_producer_step s p (MpNext i) c =
     Some (c\<lparr>mnext_id := mnext_id c + 1\<rparr>, MpPush i (mnext_id c))"
| "mutex_producer_step s p (MpPush i x) c = Some (c\<lparr>mqueue := mqueue c @ [x]\<rparr>, MpDrop i)"
| "mutex_producer_step s p (MpDrop i) c =
     Some (c\<lparr>mlocked := False\<rparr>,
       if producer_pause_every s \<noteq> 0 \<and> of_nat (i + p) mod producer_pause_every s = 0
       then MpYield i else MpLoop (i + 1))"
| "mutex_producer_step s p (MpYield i) c = Some (c, MpLoop (i + 1))"
| "mutex_producer_step s p _ c = None"

text \<open>The function body; the vector of join handles as in \<open>SoftBench\<close>.\<close>

definition mutex_main_step :: "scenario \<Rightarrow> mutex_bench \<Rightarrow> mutex_bench option" where
  "mutex_main_step s b =
     (case mm b of
        MmSpawnConsumer \<Rightarrow> Some (b\<lparr>mc := McCount, mm := MmSpawn 0\<rparr>)
      | MmSpawn p \<Rightarrow>
          if p < unat (producers s)
          then Some (b\<lparr>mp := (mp b)(p := MpLoop 0), mm := MmSpawn (p + 1)\<rparr>)
          else Some (b\<lparr>mm := MmJoin 0\<rparr>)
      | MmJoin p \<Rightarrow>
          if p < unat (producers s)
          then (case mp b p of
              MpExit \<Rightarrow> Some (b\<lparr>mm := MmJoin (p + 1)\<rparr>)
            | MpPanic i \<Rightarrow> Some (b\<lparr>mm := MmProducerPanicked\<rparr>)
            | _ \<Rightarrow> None)
          else Some (b\<lparr>mm := MmStoreDone\<rparr>)
      | MmStoreDone \<Rightarrow> Some (b\<lparr>mdone := True, mm := MmJoinConsumer\<rparr>)
      | MmJoinConsumer \<Rightarrow>
          (case mc b of
              McExit \<Rightarrow> Some (b\<lparr>mm := MmProcessed\<rparr>)
            | McPanic \<Rightarrow> Some (b\<lparr>mm := MmConsumerPanicked\<rparr>)
            | _ \<Rightarrow> None)
      | MmProcessed \<Rightarrow> Some (b\<lparr>mm := MmLock (mprocessed (inner b))\<rparr>)
      | MmLock x \<Rightarrow>
          if mlocked (inner b) then None
          else if mpoisoned (inner b) then Some (b\<lparr>mm := MmPoisoned\<rparr>)
          else Some (b\<lparr>inner := (inner b)\<lparr>mlocked := True\<rparr>, mm := MmLen x\<rparr>)
      | MmLen x \<Rightarrow> Some (b\<lparr>mm := MmUnlock x (of_nat (length (mqueue (inner b))))\<rparr>)
      | MmUnlock x y \<Rightarrow> Some (b\<lparr>inner := (inner b)\<lparr>mlocked := False\<rparr>, mm := MmCheck x y\<rparr>)
      | MmCheck x y \<Rightarrow>
          Some (b\<lparr>mm := if x \<noteq> total_ops_of s then MmPanic ''mutex processed mismatch''
                      else if y \<noteq> 0 then MmPanic ''mutex queue should be empty''
                      else MmProducerCount x y\<rparr>)
      | MmProducerCount x y \<Rightarrow> Some (b\<lparr>mm := MmConsumerCount x y (producer_lock_count (inner b))\<rparr>)
      | MmConsumerCount x y z \<Rightarrow>
          Some (b\<lparr>mm := MmReturn \<lparr>mr_processed = x, mr_queue_left = y, lock_acquires_producer = z,
            lock_acquires_consumer = consumer_lock_count (inner b)\<rparr>\<rparr>)
      | _ \<Rightarrow> None)"

fun mutex_step :: "scenario \<Rightarrow> mtid \<Rightarrow> mutex_bench \<Rightarrow> mutex_bench option" where
  "mutex_step s MtMain b = mutex_main_step s b"
| "mutex_step s MtConsumer b =
     map_option (\<lambda>(c, k). b\<lparr>inner := c, mc := k\<rparr>) (mutex_consumer_step s (mdone b) (mc b) (inner b))"
| "mutex_step s (MtProducer p) b =
     map_option (\<lambda>(c, k). b\<lparr>inner := c, mp := (mp b)(p := k)\<rparr>) (mutex_producer_step s p (mp b p) (inner b))"

inductive mutex_reach :: "scenario \<Rightarrow> mutex_bench \<Rightarrow> bool" for s where
  mutex_start: "mutex_reach s mutex_bench_new"
| mutex_next: "mutex_reach s b \<Longrightarrow> mutex_step s t b = Some b' \<Longrightarrow> mutex_reach s b'"

fun mutex_schedule :: "scenario \<Rightarrow> mtid list \<Rightarrow> mutex_bench \<Rightarrow> mutex_bench option" where
  "mutex_schedule s [] b = Some b"
| "mutex_schedule s (t # ts) b = (case mutex_step s t b of None \<Rightarrow> None | Some b' \<Rightarrow> mutex_schedule s ts b')"

lemma mutex_schedule_reach: "mutex_schedule s ts b = Some b' \<Longrightarrow> mutex_reach s b \<Longrightarrow> mutex_reach s b'"
  by (induction ts arbitrary: b) (auto split: option.splits intro: mutex_next)

end
