(* ===== verification/MutexBenchInv.thy ===== *)
theory MutexBenchInv
  imports MutexBench
begin

text \<open>
  Invariants of the mutex benchmark: spawning and joining, ownership of the mutex, and the accounts
  that tie the counters, the ids and the queue to the progress of the producers.
\<close>

section \<open>Case analysis of the main thread\<close>

lemma mutex_main_cases:
  assumes "mutex_main_step s b = Some b'"
  obtains (consumer) "mm b = MmSpawnConsumer" "b' = b\<lparr>mc := McCount, mm := MmSpawn 0\<rparr>"
  | (producer) p where "mm b = MmSpawn p" "p < unat (producers s)"
      "b' = b\<lparr>mp := (mp b)(p := MpLoop 0), mm := MmSpawn (p + 1)\<rparr>"
  | (spawned) p where "mm b = MmSpawn p" "\<not> p < unat (producers s)" "b' = b\<lparr>mm := MmJoin 0\<rparr>"
  | (join) p where "mm b = MmJoin p" "p < unat (producers s)" "mp b p = MpExit" "b' = b\<lparr>mm := MmJoin (p + 1)\<rparr>"
  | (join_panic) p i where "mm b = MmJoin p" "p < unat (producers s)" "mp b p = MpPanic i"
      "b' = b\<lparr>mm := MmProducerPanicked\<rparr>"
  | (joined) p where "mm b = MmJoin p" "\<not> p < unat (producers s)" "b' = b\<lparr>mm := MmStoreDone\<rparr>"
  | (store) "mm b = MmStoreDone" "b' = b\<lparr>mdone := True, mm := MmJoinConsumer\<rparr>"
  | (consumed) "mm b = MmJoinConsumer" "mc b = McExit" "b' = b\<lparr>mm := MmProcessed\<rparr>"
  | (consumer_panic) "mm b = MmJoinConsumer" "mc b = McPanic" "b' = b\<lparr>mm := MmConsumerPanicked\<rparr>"
  | (load) "mm b = MmProcessed" "b' = b\<lparr>mm := MmLock (mprocessed (inner b))\<rparr>"
  | (poisoned) x where "mm b = MmLock x" "\<not> mlocked (inner b)" "mpoisoned (inner b)" "b' = b\<lparr>mm := MmPoisoned\<rparr>"
  | (lock) x where "mm b = MmLock x" "\<not> mlocked (inner b)" "\<not> mpoisoned (inner b)"
      "b' = b\<lparr>inner := (inner b)\<lparr>mlocked := True\<rparr>, mm := MmLen x\<rparr>"
  | (len) x where "mm b = MmLen x" "b' = b\<lparr>mm := MmUnlock x (of_nat (length (mqueue (inner b))))\<rparr>"
  | (unlock) x y where "mm b = MmUnlock x y" "b' = b\<lparr>inner := (inner b)\<lparr>mlocked := False\<rparr>, mm := MmCheck x y\<rparr>"
  | (check) x y where "mm b = MmCheck x y"
      "b' = b\<lparr>mm := if x \<noteq> total_ops_of s then MmPanic ''mutex processed mismatch''
                    else if y \<noteq> 0 then MmPanic ''mutex queue should be empty'' else MmProducerCount x y\<rparr>"
  | (count) x y where "mm b = MmProducerCount x y"
      "b' = b\<lparr>mm := MmConsumerCount x y (producer_lock_count (inner b))\<rparr>"
  | (result) x y z where "mm b = MmConsumerCount x y z"
      "b' = b\<lparr>mm := MmReturn \<lparr>mr_processed = x, mr_queue_left = y, lock_acquires_producer = z,
            lock_acquires_consumer = consumer_lock_count (inner b)\<rparr>\<rparr>"
proof (cases "mm b")
  case MmSpawnConsumer
  with assms consumer show ?thesis by (auto simp: mutex_main_step_def split: if_splits)
next
  case (MmSpawn p)
  with assms producer spawned show ?thesis by (auto simp: mutex_main_step_def split: if_splits)
next
  case (MmJoin p)
  with assms join join_panic joined show ?thesis
    by (auto simp: mutex_main_step_def split: if_splits mutex_producer.splits)
next
  case MmStoreDone
  with assms store show ?thesis by (auto simp: mutex_main_step_def split: if_splits)
next
  case MmJoinConsumer
  with assms consumed consumer_panic show ?thesis
    by (auto simp: mutex_main_step_def split: mutex_consumer.splits)
next
  case MmProcessed
  with assms load show ?thesis by (auto simp: mutex_main_step_def split: if_splits)
next
  case (MmLock x)
  with assms lock poisoned show ?thesis by (auto simp: mutex_main_step_def split: if_splits)
next
  case (MmLen x)
  with assms len show ?thesis by (auto simp: mutex_main_step_def split: if_splits)
next
  case (MmUnlock x y)
  with assms unlock show ?thesis by (auto simp: mutex_main_step_def split: if_splits)
next
  case (MmCheck x y)
  with assms check show ?thesis by (auto simp: mutex_main_step_def split: if_splits)
next
  case (MmProducerCount x y)
  with assms count show ?thesis by (auto simp: mutex_main_step_def split: if_splits)
next
  case (MmConsumerCount x y z)
  with assms result show ?thesis by (auto simp: mutex_main_step_def split: if_splits)
qed (use assms in \<open>simp_all add: mutex_main_step_def\<close>)

section \<open>Spawning and joining\<close>

fun m_spawned :: "nat \<Rightarrow> mutex_main \<Rightarrow> nat" where
  "m_spawned n MmSpawnConsumer = 0"
| "m_spawned n (MmSpawn p) = p"
| "m_spawned n _ = n"

fun m_joined :: "nat \<Rightarrow> mutex_main \<Rightarrow> nat" where
  "m_joined n MmSpawnConsumer = 0"
| "m_joined n (MmSpawn _) = 0"
| "m_joined n (MmJoin p) = p"
| "m_joined n MmProducerPanicked = 0"
| "m_joined n _ = n"

fun m_stored :: "mutex_main \<Rightarrow> bool" where
  "m_stored MmSpawnConsumer = False"
| "m_stored (MmSpawn _) = False"
| "m_stored (MmJoin _) = False"
| "m_stored MmStoreDone = False"
| "m_stored MmProducerPanicked = False"
| "m_stored _ = True"

fun m_consumed :: "mutex_main \<Rightarrow> bool" where
  "m_consumed MmJoinConsumer = False"
| "m_consumed MmConsumerPanicked = False"
| "m_consumed m = m_stored m"

fun m_iterations :: "nat \<Rightarrow> mutex_producer \<Rightarrow> bool" where
  "m_iterations m (MpLoop i) = (i \<le> m)"
| "m_iterations m (MpCount i) = (i < m)"
| "m_iterations m (MpLock i) = (i < m)"
| "m_iterations m (MpNext i) = (i < m)"
| "m_iterations m (MpPush i x) = (i < m)"
| "m_iterations m (MpDrop i) = (i < m)"
| "m_iterations m (MpYield i) = (i < m)"
| "m_iterations m (MpPanic i) = (i < m)"
| "m_iterations m _ = True"

definition mutex_ctl :: "scenario \<Rightarrow> mutex_bench \<Rightarrow> bool" where
  "mutex_ctl s b \<longleftrightarrow>
     m_spawned (unat (producers s)) (mm b) \<le> unat (producers s) \<and>
     m_joined (unat (producers s)) (mm b) \<le> unat (producers s) \<and>
     (\<forall>q. mp b q = MpNew \<longleftrightarrow> m_spawned (unat (producers s)) (mm b) \<le> q) \<and>
     (\<forall>q < m_joined (unat (producers s)) (mm b). mp b q = MpExit) \<and>
     mdone b = m_stored (mm b) \<and>
     (m_consumed (mm b) \<longrightarrow> mc b = McExit) \<and>
     (mc b = McNew \<longleftrightarrow> mm b = MmSpawnConsumer) \<and>
     (\<forall>q. m_iterations (unat (ops_per_producer s)) (mp b q))"

lemma mutex_ctl_start: "mutex_ctl s mutex_bench_new"
  by (simp add: mutex_ctl_def mutex_bench_new_def)

lemma mutex_producer_ctl:
  assumes "mutex_producer_step s p k c = Some (c', k')" and "m_iterations (unat (ops_per_producer s)) k"
  shows "k \<noteq> MpNew \<and> k \<noteq> MpExit \<and> k' \<noteq> MpNew \<and> m_iterations (unat (ops_per_producer s)) k'"
  using assms by (cases k) (auto split: if_splits)

lemma mutex_consumer_ctl:
  "mutex_consumer_step s fin k c = Some (c', k') \<Longrightarrow> k \<noteq> McNew \<and> k \<noteq> McExit \<and> k' \<noteq> McNew"
  by (cases k) (auto split: if_splits list.splits)

lemma mutex_ctl_step:
  assumes "mutex_step s t b = Some b'" and ctl: "mutex_ctl s b"
  shows "mutex_ctl s b'"
proof (cases t)
  case MtMain
  with assms(1) have "mutex_main_step s b = Some b'" by simp
  then show ?thesis
  proof (cases rule: mutex_main_cases)
    case (join p)
    with ctl show ?thesis by (auto simp: mutex_ctl_def less_Suc_eq)
  qed (use ctl in \<open>auto simp: mutex_ctl_def\<close>)
next
  case MtConsumer
  with assms(1) obtain c k where k: "mutex_consumer_step s (mdone b) (mc b) (inner b) = Some (c, k)"
    and b': "b' = b\<lparr>inner := c, mc := k\<rparr>" by auto
  note facts = mutex_consumer_ctl [OF k]
  then have "\<not> m_consumed (mm b)" "mm b \<noteq> MmSpawnConsumer" using ctl unfolding mutex_ctl_def by blast+
  with facts ctl show ?thesis by (simp add: mutex_ctl_def b')
next
  case (MtProducer p)
  with assms(1) obtain c k where k: "mutex_producer_step s p (mp b p) (inner b) = Some (c, k)"
    and b': "b' = b\<lparr>inner := c, mp := (mp b)(p := k)\<rparr>" by auto
  have "m_iterations (unat (ops_per_producer s)) (mp b p)" using ctl by (simp add: mutex_ctl_def)
  note facts = mutex_producer_ctl [OF k this]
  then have "\<not> p < m_joined (unat (producers s)) (mm b)" using ctl unfolding mutex_ctl_def by blast
  with facts ctl show ?thesis by (auto simp: mutex_ctl_def b')
qed

section \<open>Ownership\<close>

fun mp_owns :: "mutex_producer \<Rightarrow> bool" where
  "mp_owns (MpNext _) = True"
| "mp_owns (MpPush _ _) = True"
| "mp_owns (MpDrop _) = True"
| "mp_owns _ = False"

fun mc_owns :: "mutex_consumer \<Rightarrow> bool" where
  "mc_owns McNew = False"
| "mc_owns McCount = False"
| "mc_owns McLock = False"
| "mc_owns McYield = False"
| "mc_owns McExit = False"
| "mc_owns McPanic = False"
| "mc_owns _ = True"

fun mm_owns :: "mutex_main \<Rightarrow> bool" where
  "mm_owns (MmLen _) = True"
| "mm_owns (MmUnlock _ _) = True"
| "mm_owns _ = False"

fun mutex_owner :: "mutex_bench \<Rightarrow> mtid \<Rightarrow> bool" where
  "mutex_owner b MtMain = mm_owns (mm b)"
| "mutex_owner b MtConsumer = mc_owns (mc b)"
| "mutex_owner b (MtProducer p) = mp_owns (mp b p)"

definition mutex_excl :: "mutex_bench \<Rightarrow> bool" where
  "mutex_excl b \<longleftrightarrow> (mlocked (inner b) \<longleftrightarrow> (\<exists>t. mutex_owner b t)) \<and>
     (\<forall>t u. mutex_owner b t \<longrightarrow> mutex_owner b u \<longrightarrow> t = u)"

lemma mutex_excl_start: "mutex_excl mutex_bench_new"
proof -
  have "\<not> mutex_owner mutex_bench_new t" for t by (cases t) (simp_all add: mutex_bench_new_def)
  then show ?thesis by (simp add: mutex_excl_def mutex_bench_new_def mutex_inner_new_def)
qed

text \<open>Each step changes ownership like a lock: take it when free, keep it, or give it up.\<close>

lemma mutex_owner_step:
  assumes "mutex_step s t b = Some b'" and "mutex_ctl s b"
  shows "u \<noteq> t \<Longrightarrow> mutex_owner b' u = mutex_owner b u"
    and "mlocked (inner b') \<longleftrightarrow> (if mutex_owner b t = mutex_owner b' t then mlocked (inner b) else mutex_owner b' t)"
    and "\<not> mutex_owner b t \<Longrightarrow> mutex_owner b' t \<Longrightarrow> \<not> mlocked (inner b)"
proof -
  have "(\<forall>u. u \<noteq> t \<longrightarrow> mutex_owner b' u = mutex_owner b u) \<and>
    (mlocked (inner b') \<longleftrightarrow> (if mutex_owner b t = mutex_owner b' t then mlocked (inner b) else mutex_owner b' t)) \<and>
    (\<not> mutex_owner b t \<longrightarrow> mutex_owner b' t \<longrightarrow> \<not> mlocked (inner b))"
  proof (cases t)
    case MtMain
    with assms(1) have main: "mutex_main_step s b = Some b'" by simp
    have new: "mm b = MmSpawnConsumer \<Longrightarrow> mc b = McNew" "mm b = MmSpawn p \<Longrightarrow> mp b p = MpNew" for p
      using assms(2) by (simp_all add: mutex_ctl_def)
    have "mc_owns (mc b') = mc_owns (mc b) \<and> (\<forall>p. mp_owns (mp b' p) = mp_owns (mp b p))"
      using main by (cases rule: mutex_main_cases) (simp_all add: new)
    then have "mutex_owner b' u = mutex_owner b u" if "u \<noteq> t" for u
      using that MtMain by (cases u) simp_all
    moreover have "(mlocked (inner b') \<longleftrightarrow> (if mm_owns (mm b) = mm_owns (mm b') then mlocked (inner b) else mm_owns (mm b'))) \<and>
        (\<not> mm_owns (mm b) \<longrightarrow> mm_owns (mm b') \<longrightarrow> \<not> mlocked (inner b))"
      using main by (cases rule: mutex_main_cases) simp_all
    ultimately show ?thesis using MtMain by simp
  next
    case MtConsumer
    with assms(1) obtain c k where k: "mutex_consumer_step s (mdone b) (mc b) (inner b) = Some (c, k)"
      and b': "b' = b\<lparr>inner := c, mc := k\<rparr>" by auto
    have "mutex_owner b' u = mutex_owner b u" if "u \<noteq> t" for u
      using that MtConsumer by (cases u) (simp_all add: b')
    with k show ?thesis by (cases "mc b") (auto simp: b' MtConsumer split: if_splits list.splits)
  next
    case (MtProducer p)
    with assms(1) obtain c k where k: "mutex_producer_step s p (mp b p) (inner b) = Some (c, k)"
      and b': "b' = b\<lparr>inner := c, mp := (mp b)(p := k)\<rparr>" by auto
    have "mutex_owner b' u = mutex_owner b u" if "u \<noteq> t" for u
      using that MtProducer by (cases u) (auto simp: b')
    with k show ?thesis by (cases "mp b p") (auto simp: b' MtProducer split: if_splits)
  qed
  then show "u \<noteq> t \<Longrightarrow> mutex_owner b' u = mutex_owner b u"
    and "mlocked (inner b') \<longleftrightarrow> (if mutex_owner b t = mutex_owner b' t then mlocked (inner b) else mutex_owner b' t)"
    and "\<not> mutex_owner b t \<Longrightarrow> mutex_owner b' t \<Longrightarrow> \<not> mlocked (inner b)"
    by blast+
qed

end
