(* ===== verification/MutexBenchFinal.thy ===== *)
theory MutexBenchFinal
  imports MutexBenchInv
begin

text \<open>
  The accounts of the mutex benchmark, the consumer's decision to stop, the final report, and that
  somebody can always move.
\<close>

section \<open>Progress of the producers\<close>

text \<open>Of the iterations of a producer, those that have counted, drawn an id, and pushed it.\<close>

fun counted :: "nat \<Rightarrow> mutex_producer \<Rightarrow> nat" where
  "counted m MpNew = 0"
| "counted m (MpLoop i) = i"
| "counted m (MpCount i) = i"
| "counted m (MpLock i) = i + 1"
| "counted m (MpNext i) = i + 1"
| "counted m (MpPush i x) = i + 1"
| "counted m (MpDrop i) = i + 1"
| "counted m (MpYield i) = i + 1"
| "counted m (MpPanic i) = i + 1"
| "counted m MpExit = m"

fun pushed :: "nat \<Rightarrow> mutex_producer \<Rightarrow> nat" where
  "pushed m MpNew = 0"
| "pushed m (MpLoop i) = i"
| "pushed m (MpCount i) = i"
| "pushed m (MpLock i) = i"
| "pushed m (MpNext i) = i"
| "pushed m (MpPush i x) = i"
| "pushed m (MpDrop i) = i + 1"
| "pushed m (MpYield i) = i + 1"
| "pushed m (MpPanic i) = i"
| "pushed m MpExit = m"

fun pushing :: "mutex_producer \<Rightarrow> nat" where
  "pushing (MpPush i x) = 1"
| "pushing _ = 0"

definition sum_over :: "scenario \<Rightarrow> (mutex_producer \<Rightarrow> nat) \<Rightarrow> (nat \<Rightarrow> mutex_producer) \<Rightarrow> int" where
  "sum_over s f k = (\<Sum>p<unat (producers s). int (f (k p)))"

abbreviation counted_all :: "scenario \<Rightarrow> (nat \<Rightarrow> mutex_producer) \<Rightarrow> int" where
  "counted_all s \<equiv> sum_over s (counted (unat (ops_per_producer s)))"

abbreviation pushed_all :: "scenario \<Rightarrow> (nat \<Rightarrow> mutex_producer) \<Rightarrow> int" where
  "pushed_all s \<equiv> sum_over s (pushed (unat (ops_per_producer s)))"

lemma sum_over_upd:
  "p < unat (producers s) \<Longrightarrow> sum_over s f (k(p := x)) = sum_over s f k - int (f (k p)) + int (f x)"
  using sum_fun_upd [of "{..<unat (producers s)}" p "\<lambda>x. int (f x)" k x]
  by (simp add: sum_over_def del: fun_upd_apply)

lemma sum_over_le:
  assumes "\<And>p. f (k p) \<le> m"
  shows "sum_over s f k \<le> int (unat (producers s)) * int m"
  using sum_le_mult [of "{..<unat (producers s)}" "\<lambda>p. int (f (k p))" "int m"] assms
  by (simp add: sum_over_def)

lemma sum_over_zero: "(\<And>p. f (k p) = 0) \<Longrightarrow> sum_over s f k = 0"
  by (simp add: sum_over_def)

lemma sum_over_nonneg: "0 \<le> sum_over s f k"
  by (simp add: sum_over_def sum_nonneg)

lemma sum_over_const:
  "(\<And>p. p < unat (producers s) \<Longrightarrow> f (k p) = m) \<Longrightarrow> sum_over s f k = int (unat (producers s)) * int m"
  by (simp add: sum_over_def)

section \<open>The accounts\<close>

text \<open>An item that the consumer has popped and not yet counted.\<close>

fun popped :: "mutex_consumer \<Rightarrow> nat" where
  "popped (McProcess n now) = 1"
| "popped _ = 0"

text \<open>The queue holds the ids that follow the processed ones.\<close>

definition mutex_order :: "mutex_inner \<Rightarrow> nat \<Rightarrow> bool" where
  "mutex_order c n \<longleftrightarrow> mqueue c = ids (mprocessed c + of_nat n + 1) (length (mqueue c))"

lemma mutex_order_frame [simp]:
  "mutex_order (c\<lparr>mlocked := l\<rparr>) n = mutex_order c n"
  "mutex_order (c\<lparr>mpoisoned := l\<rparr>) n = mutex_order c n"
  "mutex_order (c\<lparr>mnext_id := x\<rparr>) n = mutex_order c n"
  "mutex_order (c\<lparr>producer_lock_count := x\<rparr>) n = mutex_order c n"
  "mutex_order (c\<lparr>consumer_lock_count := x\<rparr>) n = mutex_order c n"
  by (simp_all add: mutex_order_def)

lemma mutex_order_push:
  assumes "mutex_order c 0" and "x = mprocessed c + 1 + of_nat (length (mqueue c))"
  shows "mutex_order (c\<lparr>mqueue := mqueue c @ [x]\<rparr>) 0"
proof -
  have "mqueue c = ids (mprocessed c + 1) (length (mqueue c))" using assms(1) by (simp add: mutex_order_def)
  then have "mqueue c @ [x] = ids (mprocessed c + 1) (length (mqueue c)) @ [x]" by (rule arg_cong)
  with assms(2) show ?thesis by (simp add: mutex_order_def ids_Suc)
qed

lemma mutex_order_pop:
  assumes "mutex_order c 0" and "mqueue c = y # q"
  shows "mutex_order (c\<lparr>mqueue := q\<rparr>) 1"
  using assms by (simp add: mutex_order_def ids_Suc_Cons add_ac)

lemma mutex_order_count: "mutex_order c 1 \<Longrightarrow> mutex_order (c\<lparr>mprocessed := mprocessed c + 1\<rparr>) 0"
  by (simp add: mutex_order_def add_ac)

definition mutex_acc :: "scenario \<Rightarrow> mutex_bench \<Rightarrow> bool" where
  "mutex_acc s b \<longleftrightarrow>
     uint (producer_lock_count (inner b)) = counted_all s (mp b) \<and>
     uint (mnext_id (inner b)) = 1 + pushed_all s (mp b) + sum_over s pushing (mp b) \<and>
     uint (mprocessed (inner b)) + int (popped (mc b)) + int (length (mqueue (inner b))) = pushed_all s (mp b) \<and>
     mutex_order (inner b) (popped (mc b)) \<and>
     (\<forall>p i x. mp b p = MpPush i x \<longrightarrow> x = mnext_id (inner b) - 1)"

lemma mutex_acc_start: "mutex_acc s mutex_bench_new"
  by (simp add: mutex_acc_def mutex_bench_new_def mutex_inner_new_def sum_over_zero mutex_order_def)

text \<open>No sum exceeds the total, so no counter wraps.\<close>

lemma producer_bounds:
  "m_iterations m k \<Longrightarrow> counted m k \<le> m"
  "m_iterations m k \<Longrightarrow> pushed m k + pushing k \<le> m"
  by (cases k; simp)+

lemma sum_over_add: "sum_over s f k + sum_over s g k = sum_over s (\<lambda>x. f x + g x) k"
  by (simp add: sum_over_def sum.distrib)

lemma mutex_bounds:
  assumes "mutex_ctl s b"
  shows "counted_all s (mp b) \<le> int (total_nat s)"
    and "pushed_all s (mp b) + sum_over s pushing (mp b) \<le> int (total_nat s)"
proof -
  have it: "m_iterations (unat (ops_per_producer s)) (mp b p)" for p
    using assms by (simp add: mutex_ctl_def)
  show "counted_all s (mp b) \<le> int (total_nat s)"
    using sum_over_le [of "counted (unat (ops_per_producer s))" "mp b", OF producer_bounds(1) [OF it]]
    by (simp add: total_nat_def)
  show "pushed_all s (mp b) + sum_over s pushing (mp b) \<le> int (total_nat s)"
    using sum_over_le [of "\<lambda>k. pushed (unat (ops_per_producer s)) k + pushing k" "mp b", OF producer_bounds(2) [OF it]]
    by (simp add: total_nat_def sum_over_add)
qed

text \<open>A producer at work is the only owner.\<close>

lemma pushing_unique:
  assumes "mutex_excl b" and "mp_owns (mp b p)" and "p < unat (producers s)"
  shows "sum_over s pushing (mp b) = int (pushing (mp b p))"
    and "q \<noteq> p \<Longrightarrow> mp b q \<noteq> MpPush i x"
    and "popped (mc b) = 0"
proof -
  have other: "\<not> mutex_owner b t" if "t \<noteq> MtProducer p" for t
    using assms(1,2) that unfolding mutex_excl_def by (metis mutex_owner.simps(3))
  have zero: "pushing (mp b q) = 0" if "q \<noteq> p" for q
    using other [of "MtProducer q"] that by (cases "mp b q") simp_all
  show "sum_over s pushing (mp b) = int (pushing (mp b p))"
  proof -
    have "sum_over s pushing (mp b) = (\<Sum>q<unat (producers s). if q = p then int (pushing (mp b p)) else 0)"
      unfolding sum_over_def using zero by (intro sum.cong) auto
    with assms(3) show ?thesis by simp
  qed
  show "q \<noteq> p \<Longrightarrow> mp b q \<noteq> MpPush i x" using zero [of q] by auto
  show "popped (mc b) = 0" using other [of MtConsumer] by (cases "mc b") simp_all
qed

lemma consumer_owner_unique:
  assumes "mutex_excl b" and "mc_owns (mc b)"
  shows "mp b q \<noteq> MpPush i x"
proof
  assume "mp b q = MpPush i x"
  then have "mutex_owner b (MtProducer q)" by simp
  moreover have "mutex_owner b MtConsumer" using assms(2) by simp
  ultimately show False using assms(1) unfolding mutex_excl_def by blast
qed

text \<open>What a producer's step has to keep so that the accounts stay balanced.\<close>

lemma mutex_acc_upd:
  assumes acc: "mutex_acc s b" and p: "p < unat (producers s)"
    and count: "uint (producer_lock_count c) - int (counted (unat (ops_per_producer s)) k) =
      uint (producer_lock_count (inner b)) - int (counted (unat (ops_per_producer s)) (mp b p))"
    and ids: "uint (mnext_id c) - int (pushed (unat (ops_per_producer s)) k) - int (pushing k) =
      uint (mnext_id (inner b)) - int (pushed (unat (ops_per_producer s)) (mp b p)) - int (pushing (mp b p))"
    and items: "uint (mprocessed c) + int (length (mqueue c)) - int (pushed (unat (ops_per_producer s)) k) =
      uint (mprocessed (inner b)) + int (length (mqueue (inner b))) -
        int (pushed (unat (ops_per_producer s)) (mp b p))"
    and order: "mutex_order c (popped (mc b))"
    and other: "\<And>q i x. q \<noteq> p \<Longrightarrow> mp b q = MpPush i x \<Longrightarrow> x = mnext_id c - 1"
    and own: "\<And>i x. k = MpPush i x \<Longrightarrow> x = mnext_id c - 1"
  shows "mutex_acc s (b\<lparr>inner := c, mp := (mp b)(p := k)\<rparr>)"
proof -
  have "\<forall>q i x. ((mp b)(p := k)) q = MpPush i x \<longrightarrow> x = mnext_id c - 1"
    using other own by (auto split: if_splits)
  with acc count ids items order show ?thesis
    by (simp add: mutex_acc_def sum_over_upd [OF p] del: fun_upd_apply)
qed

text \<open>The item that a producer pushes is the next one in order.\<close>

lemma mutex_push_id:
  assumes acc: "mutex_acc s b" and excl: "mutex_excl b" and k: "mp b p = MpPush i x"
    and p: "p < unat (producers s)"
  shows "x = mprocessed (inner b) + 1 + of_nat (length (mqueue (inner b)))" and "popped (mc b) = 0"
proof -
  note own = pushing_unique [OF excl _ p]
  show z: "popped (mc b) = 0" using own(3) k by simp
  have "sum_over s pushing (mp b) = 1" using own(1) k by simp
  with acc z have "uint (mnext_id (inner b)) = uint (mprocessed (inner b)) + int (length (mqueue (inner b))) + 2"
    unfolding mutex_acc_def by linarith
  then have "(of_int (uint (mnext_id (inner b))) :: u64) =
      of_int (uint (mprocessed (inner b)) + int (length (mqueue (inner b))) + 2)"
    by (rule arg_cong)
  then have "mnext_id (inner b) = mprocessed (inner b) + of_nat (length (mqueue (inner b))) + 2" by simp
  moreover have "x = mnext_id (inner b) - 1" using acc k unfolding mutex_acc_def by blast
  ultimately show "x = mprocessed (inner b) + 1 + of_nat (length (mqueue (inner b)))" by simp
qed

lemma mutex_push_order:
  assumes acc: "mutex_acc s b" and excl: "mutex_excl b" and k: "mp b p = MpPush i x"
    and p: "p < unat (producers s)"
  shows "mutex_order ((inner b)\<lparr>mqueue := mqueue (inner b) @ [x]\<rparr>) (popped (mc b))"
proof -
  note id = mutex_push_id [OF assms]
  have "mutex_order (inner b) 0" using acc id(2) by (simp add: mutex_acc_def)
  then show ?thesis by (simp only: id(2)) (rule mutex_order_push, simp_all add: id(1))
qed

lemma mutex_spawned:
  assumes "mutex_ctl s b" and "mp b p \<noteq> MpNew"
  shows "p < unat (producers s)"
  using assms unfolding mutex_ctl_def by (meson not_le order_less_le_trans)

lemma mutex_acc_producer:
  assumes step: "mutex_producer_step s p (mp b p) (inner b) = Some (c, k)" and acc: "mutex_acc s b"
    and ctl: "mutex_ctl s b" and excl: "mutex_excl b" and fits: "fits s"
  shows "mutex_acc s (b\<lparr>inner := c, mp := (mp b)(p := k)\<rparr>)"
proof -
  let ?m = "unat (ops_per_producer s)"
  have it: "m_iterations ?m (mp b p)" using ctl by (simp add: mutex_ctl_def)
  have "mp b p \<noteq> MpNew" using step by auto
  with ctl have p: "p < unat (producers s)" by (rule mutex_spawned)
  note bounds = mutex_bounds [OF ctl]
  note own = pushing_unique [OF excl _ p]
  note small = fits_int [OF fits]
  have order: "mutex_order (inner b) (popped (mc b))"
    and last: "\<And>q i x. mp b q = MpPush i x \<Longrightarrow> x = mnext_id (inner b) - 1"
    and count: "uint (producer_lock_count (inner b)) = counted_all s (mp b)"
    and next_id: "uint (mnext_id (inner b)) = 1 + pushed_all s (mp b) + sum_over s pushing (mp b)"
    and items: "uint (mprocessed (inner b)) + int (popped (mc b)) + int (length (mqueue (inner b))) = pushed_all s (mp b)"
    using acc unfolding mutex_acc_def by blast+
  show ?thesis
  proof (cases "mp b p")
    case (MpLoop i)
    with step it order show ?thesis
      by (intro mutex_acc_upd [OF acc p]) (auto dest: last split: if_splits)
  next
    case (MpCount i)
    have "uint (producer_lock_count (inner b)) < 2 ^ 64 - 1" using count bounds small by linarith
    with MpCount step order show ?thesis
      by (intro mutex_acc_upd [OF acc p]) (auto dest: last simp: uint_inc_no_wrap)
  next
    case (MpNext i)
    then have ck: "c = (inner b)\<lparr>mnext_id := mnext_id (inner b) + 1\<rparr>" "k = MpPush i (mnext_id (inner b))"
      using step by auto
    have "uint (mnext_id (inner b)) < 2 ^ 64 - 1" using next_id bounds small by linarith
    then have n: "uint (mnext_id (inner b) + 1) = uint (mnext_id (inner b)) + 1" by (rule uint_inc_no_wrap)
    have "mp b q \<noteq> MpPush j x" if "q \<noteq> p" for q j x using own(2) that MpNext by simp
    with MpNext n order show ?thesis
      by (intro mutex_acc_upd [OF acc p]) (auto simp: ck)
  next
    case (MpPush i x)
    then have ck: "c = (inner b)\<lparr>mqueue := mqueue (inner b) @ [x]\<rparr>" "k = MpDrop i"
      using step by auto
    from mutex_push_order [OF acc excl MpPush p] MpPush show ?thesis
      by (intro mutex_acc_upd [OF acc p]) (auto simp: ck dest: last)
  qed (use step order in \<open>intro mutex_acc_upd [OF acc p]; auto dest: last split: if_splits\<close>)+
qed

lemma mutex_acc_consumer:
  assumes step: "mutex_consumer_step s fin (mc b) (inner b) = Some (c, k)" and acc: "mutex_acc s b"
    and ctl: "mutex_ctl s b" and excl: "mutex_excl b" and fits: "fits s"
  shows "mutex_acc s (b\<lparr>inner := c, mc := k\<rparr>)"
proof -
  have nn: "0 \<le> sum_over s pushing (mp b)" by (rule sum_over_nonneg)
  note small = fits_int [OF fits]
  note a = acc [unfolded mutex_acc_def]
  show ?thesis
  proof (cases "mc b")
    case (McPop n now)
    have z: "popped (mc b) = 0" using McPop by simp
    show ?thesis
    proof (cases "n = 0 \<or> mqueue (inner b) = []")
      case True
      with McPop step a show ?thesis by (auto simp: mutex_acc_def split: if_splits list.splits)
    next
      case False
      then obtain y q where q: "mqueue (inner b) = y # q" by (cases "mqueue (inner b)") auto
      with False McPop step have ck: "c = (inner b)\<lparr>mqueue := q\<rparr>" "k = McProcess (n - 1) now" by auto
      have "mutex_order ((inner b)\<lparr>mqueue := q\<rparr>) 1" by (rule mutex_order_pop) (use a z q in simp_all)
      with a z q show ?thesis by (simp add: mutex_acc_def ck add.commute)
    qed
  next
    case (McProcess n now)
    then have "uint (mprocessed (inner b)) < 2 ^ 64 - 1" using a mutex_bounds(2) [OF ctl] nn small
      by simp
    with McProcess step a show ?thesis by (auto simp: mutex_acc_def uint_inc_no_wrap mutex_order_count)
  qed (use step a in \<open>auto simp: mutex_acc_def split: if_splits\<close>)
qed

lemma mutex_acc_main:
  assumes "mutex_main_step s b = Some b'" and "mutex_acc s b" and "mutex_ctl s b"
  shows "mutex_acc s b'"
  using assms(1)
proof (cases rule: mutex_main_cases)
  case consumer
  then have "mc b = McNew" using assms(3) by (simp add: mutex_ctl_def)
  with consumer assms(2) show ?thesis by (simp add: mutex_acc_def)
next
  case (producer p)
  then have "mp b p = MpNew" using assms(3) by (simp add: mutex_ctl_def)
  with producer assms(2) show ?thesis by (auto simp: mutex_acc_def sum_over_upd)
qed (use assms(2) in \<open>simp_all add: mutex_acc_def\<close>)

section \<open>Stopping and reporting\<close>

definition mutex_all_done :: "scenario \<Rightarrow> mutex_inner \<Rightarrow> bool" where
  "mutex_all_done s c \<longleftrightarrow> uint (mprocessed c) = int (total_nat s)"

fun mutex_result_ok :: "scenario \<Rightarrow> mutex_main \<Rightarrow> bool" where
  "mutex_result_ok s (MmLock x) = (x = total_ops_of s)"
| "mutex_result_ok s (MmLen x) = (x = total_ops_of s)"
| "mutex_result_ok s (MmUnlock x y) = (x = total_ops_of s \<and> y = 0)"
| "mutex_result_ok s (MmCheck x y) = (x = total_ops_of s \<and> y = 0)"
| "mutex_result_ok s (MmProducerCount x y) = (x = total_ops_of s \<and> y = 0)"
| "mutex_result_ok s (MmConsumerCount x y z) = (x = total_ops_of s \<and> y = 0 \<and> z = total_ops_of s)"
| "mutex_result_ok s (MmReturn r) =
     (mr_processed r = total_ops_of s \<and> mr_queue_left r = 0 \<and> lock_acquires_producer r = total_ops_of s)"
| "mutex_result_ok s (MmPanic m) = False"
| "mutex_result_ok s _ = True"

definition mutex_fin :: "scenario \<Rightarrow> mutex_bench \<Rightarrow> bool" where
  "mutex_fin s b \<longleftrightarrow>
     (\<forall>fin. mc b = McEmpty fin \<longrightarrow> fin \<longrightarrow> mdone b) \<and>
     (mc b = McBreak \<or> mc b = McExit \<longrightarrow> mutex_all_done s (inner b)) \<and>
     mutex_result_ok s (mm b)"

lemma mutex_fin_start: "mutex_fin s mutex_bench_new"
  by (simp add: mutex_fin_def mutex_bench_new_def)

lemma mutex_joined_all:
  assumes "mutex_ctl s b" and "mdone b"
  shows "p < unat (producers s) \<Longrightarrow> mp b p = MpExit"
proof -
  have "m_stored (mm b)" using assms by (simp add: mutex_ctl_def)
  then have "m_joined (unat (producers s)) (mm b) = unat (producers s)" by (cases "mm b") auto
  with assms(1) show "p < unat (producers s) \<Longrightarrow> mp b p = MpExit" by (simp add: mutex_ctl_def)
qed

text \<open>Once the producers have been joined, the sums are complete.\<close>

lemma mutex_complete:
  assumes "mutex_ctl s b" and "mdone b" and "mutex_acc s b"
  shows "uint (mprocessed (inner b)) + int (popped (mc b)) + int (length (mqueue (inner b))) = int (total_nat s)"
    and "uint (producer_lock_count (inner b)) = int (total_nat s)"
proof -
  note ex = mutex_joined_all [OF assms(1,2)]
  have "pushed_all s (mp b) = int (total_nat s)" "counted_all s (mp b) = int (total_nat s)"
    using sum_over_const [of s _ "mp b" "unat (ops_per_producer s)"] ex by (simp_all add: total_nat_def)
  with assms(3) show "uint (mprocessed (inner b)) + int (popped (mc b)) + int (length (mqueue (inner b))) =
      int (total_nat s)" and "uint (producer_lock_count (inner b)) = int (total_nat s)"
    by (simp_all add: mutex_acc_def)
qed

lemma mutex_processed_le:
  assumes "mutex_ctl s b" and "mutex_acc s b"
  shows "uint (mprocessed (inner b)) \<le> int (total_nat s)"
  using mutex_bounds(2) [OF assms(1)] sum_over_nonneg [of s pushing "mp b"] assms(2)
  unfolding mutex_acc_def by linarith

lemma mutex_fin_consumer:
  assumes step: "mutex_consumer_step s (mdone b) (mc b) (inner b) = Some (c, k)" and acc: "mutex_acc s b"
    and ctl: "mutex_ctl s b" and fin: "mutex_fin s b" and fits: "fits s"
  shows "mutex_fin s (b\<lparr>inner := c, mc := k\<rparr>)"
proof (cases "mc b")
  case McLoad
  have "mutex_all_done s (inner b)" if "mprocessed (inner b) \<ge> total_ops_of s"
  proof -
    have "int (total_nat s) \<le> uint (mprocessed (inner b))"
      using that by (simp add: word_le_def uint_total [OF fits])
    with mutex_processed_le [OF ctl acc] show ?thesis by (simp add: mutex_all_done_def)
  qed
  with McLoad step fin show ?thesis by (auto simp: mutex_fin_def split: if_splits)
next
  case (McEmpty fd)
  have "mutex_all_done s (inner b)" if fd "mqueue (inner b) = []"
  proof -
    have "mdone b" using fin McEmpty that(1) unfolding mutex_fin_def by blast
    from mutex_complete(1) [OF ctl this acc] McEmpty that(2) show ?thesis by (simp add: mutex_all_done_def)
  qed
  with McEmpty step fin show ?thesis by (auto simp: mutex_fin_def split: if_splits)
qed (use step fin in \<open>auto simp: mutex_fin_def mutex_all_done_def split: if_splits list.splits\<close>)

lemma mutex_fin_producer:
  assumes step: "mutex_producer_step s p (mp b p) (inner b) = Some (c, k)" and fin: "mutex_fin s b"
  shows "mutex_fin s (b\<lparr>inner := c, mp := (mp b)(p := k)\<rparr>)"
proof -
  have "mprocessed c = mprocessed (inner b)" using step by (cases "mp b p") (auto split: if_splits)
  with fin show ?thesis by (simp add: mutex_fin_def mutex_all_done_def)
qed

lemma mutex_fin_main:
  assumes "mutex_main_step s b = Some b'" and acc: "mutex_acc s b" and ctl: "mutex_ctl s b"
    and fin: "mutex_fin s b" and fits: "fits s"
  shows "mutex_fin s b'"
proof -
  note total = uint_total [OF fits]
  have stop: "mutex_all_done s (inner b)" "mdone b" "mc b = McExit" if "m_consumed (mm b)"
  proof -
    show "mc b = McExit" using that ctl by (simp add: mutex_ctl_def)
    with fin show "mutex_all_done s (inner b)" by (simp add: mutex_fin_def)
    show "mdone b" using that ctl by (cases "mm b") (simp_all add: mutex_ctl_def)
  qed
  have final: "mprocessed (inner b) = total_ops_of s" "mqueue (inner b) = []"
    "producer_lock_count (inner b) = total_ops_of s" if "m_consumed (mm b)"
    using stop [OF that] mutex_complete [OF ctl stop(2) [OF that] acc]
    by (simp_all add: mutex_all_done_def word_uint_eq_iff total)
  from assms(1) show ?thesis
  proof (cases rule: mutex_main_cases)
    case consumer
    then have "mc b = McNew" using ctl by (simp add: mutex_ctl_def)
    with consumer fin show ?thesis by (simp add: mutex_fin_def)
  qed (use fin final in \<open>auto simp: mutex_fin_def mutex_all_done_def\<close>)
qed

section \<open>Every reachable state\<close>

definition mutex_inv :: "scenario \<Rightarrow> mutex_bench \<Rightarrow> bool" where
  "mutex_inv s b \<longleftrightarrow> mutex_ctl s b \<and> mutex_excl b \<and> mutex_acc s b \<and> mutex_fin s b"

lemma mutex_excl_step:
  assumes "mutex_step s t b = Some b'" and "mutex_ctl s b" and "mutex_excl b"
  shows "mutex_excl b'"
proof -
  note step = mutex_owner_step [OF assms(1,2)]
  have "mutex_owner b' = (mutex_owner b)(t := mutex_owner b' t)"
    using step(1) by (auto simp: fun_eq_iff)
  moreover have "(mlocked (inner b') \<longleftrightarrow> (\<exists>u. ((mutex_owner b)(t := mutex_owner b' t)) u)) \<and>
     (\<forall>v u. ((mutex_owner b)(t := mutex_owner b' t)) v \<longrightarrow> ((mutex_owner b)(t := mutex_owner b' t)) u \<longrightarrow> v = u)"
    using step(2,3) assms(3) unfolding mutex_excl_def
    by (intro owner_update [where lo = "mlocked (inner b)"]) auto
  ultimately show ?thesis unfolding mutex_excl_def by metis
qed

lemma mutex_inv_step:
  assumes "mutex_step s t b = Some b'" and inv: "mutex_inv s b" and "fits s"
  shows "mutex_inv s b'"
proof -
  note i = inv [unfolded mutex_inv_def]
  have "mutex_acc s b' \<and> mutex_fin s b'"
  proof (cases t)
    case MtMain
    with assms i show ?thesis by (auto intro: mutex_acc_main mutex_fin_main)
  next
    case MtConsumer
    with assms i show ?thesis by (auto intro!: mutex_acc_consumer mutex_fin_consumer)
  next
    case (MtProducer p)
    with assms i show ?thesis by (auto intro!: mutex_acc_producer mutex_fin_producer)
  qed
  with i assms(1) show ?thesis by (auto simp: mutex_inv_def intro: mutex_ctl_step mutex_excl_step)
qed

lemma mutex_reach_inv: "mutex_reach s b \<Longrightarrow> fits s \<Longrightarrow> mutex_inv s b"
proof (induction rule: mutex_reach.induct)
  case mutex_start
  show ?case
    by (simp add: mutex_inv_def mutex_ctl_start mutex_excl_start mutex_acc_start mutex_fin_start)
next
  case (mutex_next b t b')
  then show ?case by (blast intro: mutex_inv_step)
qed

end
