(* ===== verification/MutexCount.thy ===== *)
theory MutexCount
  imports MutexBenchFinal
begin

text \<open>
  The consumer's \<open>processed_now\<close> is an \<open>i32\<close>. When the items of one critical section can be counted in
  it, no thread of the mutex benchmark ever panics; when it overflows, the benchmark cannot return any
  more.
\<close>

section \<open>Scenarios whose sections can be counted\<close>

text \<open>A section takes at most \<open>consumer_budget\<close> items, and at most all there are.\<close>

definition fits_i32 :: "scenario \<Rightarrow> bool" where
  "fits_i32 s \<longleftrightarrow> fits s \<and> (unat (consumer_budget s) < 2 ^ 31 \<or> total_nat s < 2 ^ 31)"

lemma fits_i32_fits: "fits_i32 s \<Longrightarrow> fits s"
  by (simp add: fits_i32_def)

lemma i32_max_unat: "unat i32_max = 2 ^ 31 - 1"
  by (simp add: i32_max_def)

lemma i32_inc: "unat (x :: i32) < 2 ^ 31 \<Longrightarrow> unat (x + 1) = unat x + 1"
  using unat_add_lem [of x 1] by simp

lemma below_max:
  assumes "unat now < 2 ^ 31" and "now \<noteq> i32_max"
  shows "unat now < 2 ^ 31 - 1"
proof -
  have "unat now \<noteq> 2 ^ 31 - 1" using assms(2) unfolding i32_max_unat [symmetric] by (simp add: word_unat_eq_iff)
  with assms(1) show ?thesis by linarith
qed

section \<open>The count of a section\<close>

text \<open>Iterations left and items counted add up to the budget; what is counted has been processed.\<close>

fun section_count :: "scenario \<Rightarrow> mutex_consumer \<Rightarrow> usize \<Rightarrow> bool" where
  "section_count s (McPop n now) x \<longleftrightarrow>
     unat n + unat now \<le> unat (consumer_budget s) \<and> unat now \<le> unat x \<and> unat now < 2 ^ 31"
| "section_count s (McProcess n now) x \<longleftrightarrow>
     unat n + unat now + 1 \<le> unat (consumer_budget s) \<and> unat now \<le> unat x \<and> unat now < 2 ^ 31"
| "section_count s McUnwind x = False"
| "section_count s McPanic x = False"
| "section_count s _ x = True"

fun no_panic :: "mutex_main \<Rightarrow> bool" where
  "no_panic MmProducerPanicked = False"
| "no_panic MmConsumerPanicked = False"
| "no_panic MmPoisoned = False"
| "no_panic _ = True"

definition m_calm :: "scenario \<Rightarrow> mutex_bench \<Rightarrow> bool" where
  "m_calm s b \<longleftrightarrow> \<not> mpoisoned (inner b) \<and> section_count s (mc b) (mprocessed (inner b)) \<and>
     (\<forall>p i. mp b p \<noteq> MpPanic i) \<and> no_panic (mm b)"

lemma m_calm_start: "m_calm s mutex_bench_new"
  by (simp add: m_calm_def mutex_bench_new_def mutex_inner_new_def)

text \<open>At the increment, \<open>processed_now\<close> is below the budget and below the total.\<close>

lemma section_below_max:
  assumes "fits_i32 s" and "section_count s (mc b) (mprocessed (inner b))" and k: "mc b = McProcess n now"
    and inv: "mutex_ctl s b" "mutex_acc s b"
  shows "now \<noteq> i32_max" and "unat (mprocessed (inner b) + 1) = unat (mprocessed (inner b)) + 1"
proof -
  have "uint (mprocessed (inner b)) + 1 \<le> int (total_nat s)"
    using inv(2) mutex_bounds(2) [OF inv(1)] sum_over_nonneg [of s pushing "mp b"] k
    unfolding mutex_acc_def by simp
  then have "int (unat (mprocessed (inner b)) + 1) \<le> int (total_nat s)" by simp
  then have total: "unat (mprocessed (inner b)) + 1 \<le> total_nat s" by (simp only: of_nat_le_iff)
  have "unat now + 1 \<le> unat (consumer_budget s)" "unat now \<le> unat (mprocessed (inner b))"
    using assms(2) k by simp_all
  with total assms(1) have "unat now + 1 < 2 ^ 31" unfolding fits_i32_def by linarith
  then have "unat now \<noteq> unat i32_max" unfolding i32_max_unat by linarith
  then show "now \<noteq> i32_max" by blast
  have "uint (mprocessed (inner b)) < 2 ^ 64 - 1"
    using mutex_processed_le [OF inv] fits_int [OF fits_i32_fits [OF assms(1)]] by linarith
  then show "unat (mprocessed (inner b) + 1) = unat (mprocessed (inner b)) + 1" by (rule unat_inc_uint)
qed

lemma section_count_step:
  assumes step: "mutex_consumer_step s fin (mc b) (inner b) = Some (c, k)" and "m_calm s b" and "fits_i32 s"
    and "mutex_inv s b"
  shows "\<not> mpoisoned c \<and> section_count s k (mprocessed c)"
proof -
  have calm: "\<not> mpoisoned (inner b)" "section_count s (mc b) (mprocessed (inner b))"
    using assms(2) by (simp_all add: m_calm_def)
  show ?thesis
  proof (cases "mc b")
    case (McProcess n now)
    have "mutex_ctl s b" "mutex_acc s b" using assms(4) by (simp_all add: mutex_inv_def)
    note below = section_below_max [OF assms(3) calm(2) McProcess this]
    have now: "unat now < 2 ^ 31" using calm(2) McProcess by simp
    with below_max [OF now below(1)] i32_inc [OF now] below calm McProcess step show ?thesis by auto
  next
    case (McPop n now)
    have "n \<noteq> 0 \<Longrightarrow> unat (n - 1) + 1 = unat n" using unat_Suc_dec [of n] by simp
    with McPop calm step show ?thesis by (auto split: if_splits list.splits)
  qed (use calm step in \<open>auto split: if_splits\<close>)
qed

lemma producer_calm:
  "mutex_producer_step s p k c = Some (c', k') \<Longrightarrow> \<not> mpoisoned c \<Longrightarrow>
   \<not> mpoisoned c' \<and> mprocessed c' = mprocessed c \<and> (\<forall>i. k' \<noteq> MpPanic i)"
  by (cases k) (auto split: if_splits)

lemma main_calm:
  assumes "mutex_main_step s b = Some b'" and "m_calm s b"
  shows "m_calm s b'"
  using assms(1) by (cases rule: mutex_main_cases) (use assms(2) in \<open>auto simp: m_calm_def\<close>)

lemma m_calm_step:
  assumes "mutex_step s t b = Some b'" and calm: "m_calm s b" and "fits_i32 s" and "mutex_inv s b"
  shows "m_calm s b'"
proof (cases t)
  case MtMain
  with assms(1) calm main_calm show ?thesis by simp
next
  case MtConsumer
  with assms(1) obtain c k where k: "mutex_consumer_step s (mdone b) (mc b) (inner b) = Some (c, k)"
    and b': "b' = b\<lparr>inner := c, mc := k\<rparr>" by auto
  from section_count_step [OF k calm assms(3,4)] calm show ?thesis by (simp add: m_calm_def b')
next
  case (MtProducer p)
  with assms(1) obtain c k where k: "mutex_producer_step s p (mp b p) (inner b) = Some (c, k)"
    and b': "b' = b\<lparr>inner := c, mp := (mp b)(p := k)\<rparr>" by auto
  from producer_calm [OF k] calm show ?thesis by (simp add: m_calm_def b')
qed

lemma mutex_reach_calm:
  assumes "mutex_reach s b" and "fits_i32 s"
  shows "mutex_inv s b" and "m_calm s b"
proof -
  note fits = fits_i32_fits [OF assms(2)]
  show "mutex_inv s b" by (rule mutex_reach_inv [OF assms(1) fits])
  show "m_calm s b"
    using assms(1)
  proof (induction rule: mutex_reach.induct)
    case mutex_start
    show ?case by (rule m_calm_start)
  next
    case (mutex_next b t b')
    from m_calm_step [OF mutex_next.hyps(2) mutex_next.IH assms(2) mutex_reach_inv [OF mutex_next.hyps(1) fits]]
    show ?case .
  qed
qed

lemma m_calm_count:
  assumes "m_calm s b" and "mutex_inv s b" and "fits_i32 s"
  shows "\<forall>n. mc b \<noteq> McProcess n i32_max"
proof -
  have "section_count s (mc b) (mprocessed (inner b))" "mutex_ctl s b" "mutex_acc s b"
    using assms(1,2) by (simp_all add: m_calm_def mutex_inv_def)
  with section_below_max(1) [OF assms(3)] show ?thesis by blast
qed

end
