(* ===== verification/MutexBenchLive.thy ===== *)
theory MutexBenchLive
  imports MutexCount Schedules
begin

text \<open>
  From every reachable state the mutex benchmark can still be brought to its end: the owner of the
  mutex leaves its critical section, every producer finishes, the consumer empties the queue.
\<close>

abbreviation m_reaches :: "scenario \<Rightarrow> mutex_bench \<Rightarrow> mutex_bench \<Rightarrow> bool" where
  "m_reaches s \<equiv> leads_to (mutex_step s)"

lemma mutex_schedule_steps: "mutex_schedule s = run_steps (mutex_step s)"
proof (intro ext)
  fix ts b
  show "mutex_schedule s ts b = run_steps (mutex_step s) ts b"
    by (induction ts arbitrary: b) (auto split: option.splits)
qed

interpretation mb: interleaving "mutex_step s" mutex_bench_new "mutex_reach s" for s
proof
  show "leads_to (mutex_step s) mutex_bench_new b" if "mutex_reach s b" for b
    using that by (induction rule: mutex_reach.induct) (auto intro: leads_to_step leads_to_trans)
qed (auto intro: mutex_start mutex_next)

section \<open>The owner leaves its critical section\<close>

text \<open>What is left of each critical section; popping and counting take two steps per item.\<close>

fun consumer_left :: "mutex_consumer \<Rightarrow> nat" where
  "consumer_left McLock = 2 ^ 70"
| "consumer_left (McPop n now) = 2 * unat n + 2 ^ 64 + 8"
| "consumer_left (McProcess n now) = 2 * unat n + 2 ^ 64 + 9"
| "consumer_left (McSpin n) = unat n + 7"
| "consumer_left McLoad = 6"
| "consumer_left McDone = 5"
| "consumer_left (McEmpty fin) = 4"
| "consumer_left McDrop = 3"
| "consumer_left McYield = 2"
| "consumer_left McExit = 0"
| "consumer_left McPanic = 0"
| "consumer_left _ = 1"

fun producer_section :: "mutex_producer \<Rightarrow> nat" where
  "producer_section (MpNext i) = 3"
| "producer_section (MpPush i x) = 2"
| "producer_section _ = 1"

fun main_section :: "mutex_main \<Rightarrow> nat" where
  "main_section (MmLen x) = 2"
| "main_section _ = 1"

fun section_left :: "mutex_bench \<Rightarrow> mtid \<Rightarrow> nat" where
  "section_left b MtMain = main_section (mm b)"
| "section_left b MtConsumer = consumer_left (mc b)"
| "section_left b (MtProducer p) = producer_section (mp b p)"

lemma usize_dec: "(n :: usize) \<noteq> 0 \<Longrightarrow> unat (n - 1) < unat n"
  using unat_Suc_dec [of n] by simp

lemma usize_small: "unat (n :: usize) < 2 ^ 64"
  by (rule less_le_trans [OF unsigned_less]) simp

lemma consumer_section_step:
  assumes "mc_owns k"
  shows "\<exists>c' k'. mutex_consumer_step s fin k c = Some (c', k') \<and>
    (mc_owns k' \<and> mlocked c' = mlocked c \<and> consumer_left k' < consumer_left k \<or> \<not> mlocked c')"
proof (cases k)
  case (McPop n now)
  then show ?thesis
    using usize_small [of "consumer_hold_spin s"] usize_dec [of n]
    by (cases "mqueue c") auto
next
  case (McSpin n)
  then show ?thesis using usize_dec [of n] by auto
qed (use assms in auto)

lemma section_step:
  assumes "mutex_owner b t"
  shows "\<exists>b'. mutex_step s t b = Some b' \<and>
    (mutex_owner b' t \<and> section_left b' t < section_left b t \<or> \<not> mlocked (inner b'))"
proof (cases t)
  case MtMain
  with assms show ?thesis by (cases "mm b") (simp_all add: mutex_main_step_def)
next
  case MtConsumer
  with consumer_section_step [of "mc b" s "mdone b" "inner b"] assms show ?thesis by fastforce
next
  case (MtProducer p)
  with assms show ?thesis by (cases "mp b p") simp_all
qed

definition m_free :: "scenario \<Rightarrow> mutex_bench \<Rightarrow> bool" where
  "m_free s b \<longleftrightarrow> mutex_reach s b \<and> \<not> mlocked (inner b)"

lemma m_reaches_free:
  assumes "mutex_reach s b" and "fits s"
  shows "\<exists>b'. m_reaches s b b' \<and> m_free s b'"
proof (cases "mlocked (inner b)")
  case True
  with mutex_reach_inv [OF assms] obtain t where t: "mutex_owner b t"
    by (auto simp: mutex_inv_def mutex_excl_def)
  have "\<exists>y. m_reaches s b y \<and> mutex_reach s y \<and> (mlocked (inner y) \<longrightarrow> mutex_owner y t) \<and>
      \<not> mlocked (inner y)"
  proof (rule mb.reach_measure [OF assms(1), where f = "\<lambda>x. if mlocked (inner x) then Suc (section_left x t) else 0"])
    show "mlocked (inner b) \<longrightarrow> mutex_owner b t" using t by simp
    fix x assume x: "mlocked (inner x) \<longrightarrow> mutex_owner x t" "\<not> \<not> mlocked (inner x)"
    with section_step [of x t s] obtain y where "mutex_step s t x = Some y"
      "mutex_owner y t \<and> section_left y t < section_left x t \<or> \<not> mlocked (inner y)" by blast
    with x show "\<exists>y. m_reaches s x y \<and> (mlocked (inner y) \<longrightarrow> mutex_owner y t) \<and>
        (if mlocked (inner y) then Suc (section_left y t) else 0) <
        (if mlocked (inner x) then Suc (section_left x t) else 0)"
      by (intro exI [of _ y]) (auto intro: leads_to_step)
  qed
  then show ?thesis by (auto simp: m_free_def)
next
  case False
  with assms(1) show ?thesis by (intro exI [of _ b]) (simp add: m_free_def)
qed

section \<open>Every producer finishes\<close>

fun m_producer_left :: "nat \<Rightarrow> mutex_producer \<Rightarrow> nat" where
  "m_producer_left m (MpLoop i) = 7 * (m - i) + 1"
| "m_producer_left m (MpCount i) = 7 * (m - i)"
| "m_producer_left m (MpLock i) = 7 * (m - i) - 1"
| "m_producer_left m (MpNext i) = 7 * (m - i) - 2"
| "m_producer_left m (MpPush i x) = 7 * (m - i) - 3"
| "m_producer_left m (MpDrop i) = 7 * (m - i) - 4"
| "m_producer_left m (MpYield i) = 7 * (m - i) - 5"
| "m_producer_left m _ = 0"

lemma m_producer_round:
  assumes "k \<noteq> MpNew" and "k \<noteq> MpExit" and "\<forall>i. k \<noteq> MpPanic i" and "\<not> mpoisoned c" and "mlocked c \<longrightarrow> mp_owns k"
    and "m_iterations (unat (ops_per_producer s)) k"
  shows "\<exists>c' k'. mutex_producer_step s p k c = Some (c', k') \<and> k' \<noteq> MpNew \<and> (mlocked c' \<longrightarrow> mp_owns k') \<and>
    m_producer_left (unat (ops_per_producer s)) k' < m_producer_left (unat (ops_per_producer s)) k"
  using assms by (cases k) auto

definition m_moved :: "nat \<Rightarrow> mutex_bench \<Rightarrow> mutex_bench \<Rightarrow> bool" where
  "m_moved p b b' \<longleftrightarrow> mm b' = mm b \<and> mp b' p \<noteq> MpNew \<and> (mlocked (inner b') \<longrightarrow> mp_owns (mp b' p))"

lemma m_producer_finishes:
  assumes "m_free s b" and "mp b p \<noteq> MpNew" and "fits_i32 s"
  shows "\<exists>b'. m_reaches s b b' \<and> m_free s b' \<and> mm b' = mm b \<and> mp b' p = MpExit"
proof -
  let ?m = "unat (ops_per_producer s)"
  have "\<exists>y. m_reaches s b y \<and> mutex_reach s y \<and> m_moved p b y \<and> mp y p = MpExit"
  proof (rule mb.reach_measure [where f = "\<lambda>x. m_producer_left ?m (mp x p)"])
    show "mutex_reach s b" "m_moved p b b" using assms by (simp_all add: m_moved_def m_free_def)
    fix x assume x: "mutex_reach s x" "m_moved p b x" "mp x p \<noteq> MpExit"
    from mutex_reach_calm [OF x(1) assms(3)]
    have "m_iterations ?m (mp x p)" "\<forall>i. mp x p \<noteq> MpPanic i" "\<not> mpoisoned (inner x)"
      by (simp_all add: mutex_inv_def mutex_ctl_def m_calm_def)
    with m_producer_round [of "mp x p" "inner x" s p] x obtain c k where
      k: "mutex_producer_step s p (mp x p) (inner x) = Some (c, k)" "k \<noteq> MpNew" "mlocked c \<longrightarrow> mp_owns k"
      "m_producer_left ?m k < m_producer_left ?m (mp x p)"
      unfolding m_moved_def by blast
    let ?y = "x\<lparr>inner := c, mp := (mp x)(p := k)\<rparr>"
    have "mutex_step s (MtProducer p) x = Some ?y" using k(1) by simp
    from leads_to_step [of "mutex_step s", OF this] x k(2-4)
    show "\<exists>y. m_reaches s x y \<and> m_moved p b y \<and>
        m_producer_left ?m (mp y p) < m_producer_left ?m (mp x p)"
      by (intro exI [of _ ?y]) (simp add: m_moved_def)
  qed
  then show ?thesis by (auto simp: m_moved_def m_free_def)
qed

section \<open>The main thread reaches the join of the consumer\<close>

fun m_main_left :: "nat \<Rightarrow> mutex_main \<Rightarrow> nat" where
  "m_main_left n MmSpawnConsumer = 2 * n + 5"
| "m_main_left n (MmSpawn p) = (n - p) + n + 4"
| "m_main_left n (MmJoin p) = (n - p) + 2"
| "m_main_left n MmStoreDone = 1"
| "m_main_left n _ = 0"

lemma m_main_round:
  assumes "m_free s b" and "\<not> m_stored (mm b)" and "fits_i32 s"
  shows "\<exists>b'. m_reaches s b b' \<and> m_free s b' \<and>
    m_main_left (unat (producers s)) (mm b') < m_main_left (unat (producers s)) (mm b)"
proof -
  let ?n = "unat (producers s)"
  have ctl: "mutex_ctl s b" and calm: "no_panic (mm b)"
    using assms(1) mutex_reach_calm [OF _ assms(3)] by (auto simp: mutex_inv_def m_free_def m_calm_def)
  have step: ?thesis if "m_reaches s b x" "m_free s x" "mutex_main_step s x = Some b'" "inner b' = inner x"
    "m_main_left ?n (mm b') < m_main_left ?n (mm b)" for x b'
    using that mutex_next [of s x MtMain b'] leads_to_trans [OF that(1) leads_to_step [of "mutex_step s" MtMain]]
    by (intro exI [of _ b']) (simp add: m_free_def)
  note here = step [OF leads_to_refl assms(1)]
  show ?thesis
  proof (cases "mm b")
    case (MmJoin p)
    show ?thesis
    proof (cases "p < ?n")
      case True
      from ctl True have "mp b p \<noteq> MpNew" using MmJoin by (simp add: mutex_ctl_def)
      from m_producer_finishes [OF assms(1) this assms(3)] obtain b1 where
        b1: "m_reaches s b b1" "m_free s b1" "mm b1 = mm b" "mp b1 p = MpExit" by blast
      show ?thesis
        by (rule step [OF b1(1,2), of "b1\<lparr>mm := MmJoin (p + 1)\<rparr>"])
          (use b1(3,4) MmJoin True in \<open>auto simp: mutex_main_step_def\<close>)
    next
      case False
      show ?thesis
        by (rule here [of "b\<lparr>mm := MmStoreDone\<rparr>"]) (use False MmJoin in \<open>simp_all add: mutex_main_step_def\<close>)
    qed
  next
    case (MmSpawn p)
    let ?b = "if p < ?n then b\<lparr>mp := (mp b)(p := MpLoop 0), mm := MmSpawn (p + 1)\<rparr> else b\<lparr>mm := MmJoin 0\<rparr>"
    show ?thesis by (rule here [of ?b]) (use MmSpawn in \<open>auto simp: mutex_main_step_def\<close>)
  next
    case MmSpawnConsumer
    show ?thesis
      by (rule here [of "b\<lparr>mc := McCount, mm := MmSpawn 0\<rparr>"])
        (use MmSpawnConsumer in \<open>simp_all add: mutex_main_step_def\<close>)
  next
    case MmStoreDone
    show ?thesis
      by (rule here [of "b\<lparr>mdone := True, mm := MmJoinConsumer\<rparr>"])
        (use MmStoreDone in \<open>simp_all add: mutex_main_step_def\<close>)
  qed (use assms(2) calm in simp_all)
qed

lemma m_main_stores:
  "m_free s b \<Longrightarrow> fits_i32 s \<Longrightarrow> \<exists>b'. m_reaches s b b' \<and> m_free s b' \<and> m_stored (mm b')"
  by (rule leads_to_measure [where f = "\<lambda>x. m_main_left (unat (producers s)) (mm x)"])
    (use m_main_round in blast)+

section \<open>The consumer empties the queue\<close>

text \<open>
  An iteration that started with \<open>len\<close> queued items, after the producers have finished: if it comes
  to the end of the loop body it has taken at least one item.
\<close>

fun iteration_ok :: "scenario \<Rightarrow> nat \<Rightarrow> mutex_consumer \<Rightarrow> mutex_inner \<Rightarrow> bool" where
  "iteration_ok s len McNew c = False"
| "iteration_ok s len McLock c = (length (mqueue c) \<le> len)"
| "iteration_ok s len (McPop n now) c =
     (length (mqueue c) \<le> len \<and> (n = consumer_budget s \<or> length (mqueue c) < len))"
| "iteration_ok s len (McSpin n) c = (total_ops_of s = 0 \<or> mqueue c = [] \<or> length (mqueue c) < len)"
| "iteration_ok s len McLoad c = (total_ops_of s = 0 \<or> mqueue c = [] \<or> length (mqueue c) < len)"
| "iteration_ok s len McDone c = (mqueue c = [] \<or> length (mqueue c) < len)"
| "iteration_ok s len (McEmpty fin) c = (fin \<and> (mqueue c = [] \<or> length (mqueue c) < len))"
| "iteration_ok s len McBreak c = True"
| "iteration_ok s len McExit c = True"
| "iteration_ok s len McUnwind c = False"
| "iteration_ok s len McPanic c = False"
| "iteration_ok s len _ c = (length (mqueue c) < len)"

definition iterated :: "nat \<Rightarrow> mutex_consumer \<Rightarrow> mutex_inner \<Rightarrow> bool" where
  "iterated len k c \<longleftrightarrow> k = McExit \<or> k = McLock \<and> length (mqueue c) < len"

lemma iteration_step:
  assumes "iteration_ok s len k c" and "mlocked c \<longrightarrow> mc_owns k" and "\<not> iterated len k c"
    and "can_serve s" and "\<not> mpoisoned c" and "\<forall>n. k \<noteq> McProcess n i32_max"
  shows "\<exists>c' k'. mutex_consumer_step s True k c = Some (c', k') \<and> iteration_ok s len k' c' \<and>
    (mlocked c' \<longrightarrow> mc_owns k') \<and> (consumer_left k' < consumer_left k \<or> iterated len k' c')"
proof (cases k)
  case (McPop n now)
  then show ?thesis
    using usize_small [of "consumer_hold_spin s"] usize_dec [of n] assms
    by (cases "mqueue c") (auto simp: can_serve_def)
next
  case (McSpin n)
  then show ?thesis using usize_dec [of n] assms by auto
next
  case McLock
  then show ?thesis using usize_small [of "consumer_budget s"] assms by auto
qed (use assms in \<open>auto simp: iterated_def\<close>)

definition m_consuming :: "mutex_bench \<Rightarrow> mutex_bench \<Rightarrow> bool" where
  "m_consuming b b' \<longleftrightarrow> mm b' = mm b \<and> mdone b' \<and> (mlocked (inner b') \<longrightarrow> mc_owns (mc b'))"

lemma m_consumer_move:
  assumes "mutex_reach s x" and "mutex_consumer_step s True (mc x) (inner x) = Some (c, k)" and "mdone x"
  shows "m_reaches s x (x\<lparr>inner := c, mc := k\<rparr>)" and "mutex_reach s (x\<lparr>inner := c, mc := k\<rparr>)"
proof -
  have "mutex_step s MtConsumer x = Some (x\<lparr>inner := c, mc := k\<rparr>)" using assms by simp
  from leads_to_step [of "mutex_step s", OF this] mutex_next [OF assms(1) this]
  show "m_reaches s x (x\<lparr>inner := c, mc := k\<rparr>)" and "mutex_reach s (x\<lparr>inner := c, mc := k\<rparr>)" by blast+
qed

lemma m_consumer_iteration:
  assumes "mutex_reach s b" and "m_consuming b b" and "iteration_ok s n (mc b) (inner b)"
    and "can_serve s" and "fits_i32 s"
  shows "\<exists>b'. m_reaches s b b' \<and> mutex_reach s b' \<and> m_consuming b b' \<and> iterated n (mc b') (inner b')"
proof -
  let ?keep = "\<lambda>x. m_consuming b x \<and> iteration_ok s n (mc x) (inner x)"
  let ?f = "\<lambda>x. if iterated n (mc x) (inner x) then 0 else Suc (consumer_left (mc x))"
  have "\<exists>y. m_reaches s b y \<and> mutex_reach s y \<and> ?keep y \<and> iterated n (mc y) (inner y)"
  proof (rule mb.reach_measure [OF assms(1), where f = ?f])
    show "?keep b" using assms by simp
    fix x assume x: "mutex_reach s x" "?keep x" "\<not> iterated n (mc x) (inner x)"
    note calm = mutex_reach_calm [OF x(1) assms(5)]
    have "\<not> mpoisoned (inner x)" using calm(2) by (simp add: m_calm_def)
    with iteration_step [of s n "mc x" "inner x"] m_calm_count [OF calm(2,1) assms(5)] x assms(4) obtain c k where
      k: "mutex_consumer_step s True (mc x) (inner x) = Some (c, k)" "iteration_ok s n k c"
      "mlocked c \<longrightarrow> mc_owns k" "consumer_left k < consumer_left (mc x) \<or> iterated n k c"
      unfolding m_consuming_def by blast
    let ?y = "x\<lparr>inner := c, mc := k\<rparr>"
    from x have "mutex_reach s x" "mdone x" by (simp_all add: m_consuming_def)
    from m_consumer_move [OF this(1) k(1) this(2)] x k(2-4)
    show "\<exists>y. m_reaches s x y \<and> ?keep y \<and> ?f y < ?f x"
      by (intro exI [of _ ?y]) (auto simp: m_consuming_def)
  qed
  then show ?thesis by blast
qed

lemma m_consumer_exits:
  assumes "m_free s b" and "mdone b" and "mc b \<noteq> McNew" and "fits_i32 s" and "can_serve s"
  shows "\<exists>b'. m_reaches s b b' \<and> m_free s b' \<and> mm b' = mm b \<and> mc b' = McExit"
proof -
  have reach: "mutex_reach s b" and free: "\<not> mlocked (inner b)" using assms(1) by (simp_all add: m_free_def)
  note calm = mutex_reach_calm [OF reach assms(4)]
  from free calm(1) have "\<not> mutex_owner b MtConsumer"
    unfolding mutex_inv_def mutex_excl_def by blast
  then have "iteration_ok s (Suc (length (mqueue (inner b)))) (mc b) (inner b)"
    using assms(3) calm(2) by (cases "mc b") (simp_all add: m_calm_def)
  moreover have "m_consuming b b" using free assms(2) by (simp add: m_consuming_def)
  ultimately obtain b1 where b1: "m_reaches s b b1" "mutex_reach s b1" "m_consuming b b1"
    "mc b1 = McLock \<or> mc b1 = McExit"
    using m_consumer_iteration [OF reach _ _ assms(5,4)] by (fastforce simp: iterated_def)
  let ?keep = "\<lambda>x. m_consuming b x \<and> (mc x = McLock \<or> mc x = McExit)"
  have "\<exists>y. m_reaches s b1 y \<and> mutex_reach s y \<and> ?keep y \<and> mc y = McExit"
  proof (rule mb.reach_measure [OF b1(2), where f = "\<lambda>x. if mc x = McExit then 0 else Suc (length (mqueue (inner x)))"])
    show "?keep b1" using b1 by simp
    fix x assume x: "mutex_reach s x" "?keep x" "mc x \<noteq> McExit"
    then have "m_consuming x x" "iteration_ok s (length (mqueue (inner x))) (mc x) (inner x)"
      by (auto simp: m_consuming_def)
    from m_consumer_iteration [OF _ this assms(5,4)] x
    show "\<exists>y. m_reaches s x y \<and> ?keep y \<and> (if mc y = McExit then 0 else Suc (length (mqueue (inner y)))) <
        (if mc x = McExit then 0 else Suc (length (mqueue (inner x))))"
      by (fastforce simp: m_consuming_def iterated_def)
  qed
  then obtain b2 where "m_reaches s b1 b2" "mutex_reach s b2" "?keep b2" "mc b2 = McExit" by blast
  with leads_to_trans [OF b1(1)] show ?thesis
    by (intro exI [of _ b2]) (auto simp: m_consuming_def m_free_def)
qed

section \<open>The main thread returns\<close>

fun m_report_left :: "mutex_main \<Rightarrow> nat" where
  "m_report_left MmProcessed = 7"
| "m_report_left (MmLock x) = 6"
| "m_report_left (MmLen x) = 5"
| "m_report_left (MmUnlock x y) = 4"
| "m_report_left (MmCheck x y) = 3"
| "m_report_left (MmProducerCount x y) = 2"
| "m_report_left (MmConsumerCount x y z) = 1"
| "m_report_left _ = 0"

definition m_reporting :: "mutex_bench \<Rightarrow> bool" where
  "m_reporting b \<longleftrightarrow> m_consumed (mm b) \<and> (mlocked (inner b) \<longrightarrow> mm_owns (mm b))"

lemma m_report_round:
  assumes "m_reporting b" and "\<forall>r. mm b \<noteq> MmReturn r" and "mutex_result_ok s (mm b)"
    and "no_panic (mm b)" and "\<not> mpoisoned (inner b)"
  shows "\<exists>b'. mutex_main_step s b = Some b' \<and> m_reporting b' \<and> m_report_left (mm b') < m_report_left (mm b)"
  using assms by (cases "mm b") (auto simp: m_reporting_def mutex_main_step_def)

lemma m_main_returns:
  assumes "mutex_reach s b" and "m_reporting b" and "fits_i32 s"
  shows "\<exists>b'. m_reaches s b b' \<and> (\<exists>r. mm b' = MmReturn r)"
proof -
  have "\<exists>y. m_reaches s b y \<and> mutex_reach s y \<and> m_reporting y \<and> (\<exists>r. mm y = MmReturn r)"
  proof (rule mb.reach_measure [OF assms(1), where f = "\<lambda>x. m_report_left (mm x)"])
    show "m_reporting b" by (rule assms(2))
    fix x assume x: "mutex_reach s x" "m_reporting x" "\<not> (\<exists>r. mm x = MmReturn r)"
    from mutex_reach_calm [OF x(1) assms(3)]
    have "mutex_result_ok s (mm x)" "no_panic (mm x)" "\<not> mpoisoned (inner x)"
      by (simp_all add: mutex_inv_def mutex_fin_def m_calm_def)
    with x m_report_round [of x s] obtain y where y: "mutex_step s MtMain x = Some y" "m_reporting y"
      "m_report_left (mm y) < m_report_left (mm x)" by auto
    with leads_to_step [of "mutex_step s", OF y(1)]
    show "\<exists>y. m_reaches s x y \<and> m_reporting y \<and>
        m_report_left (mm y) < m_report_left (mm x)" by blast
  qed
  then show ?thesis by blast
qed

lemma m_main_joins:
  assumes "m_free s b" and "m_stored (mm b)" and "fits_i32 s" and "can_serve s"
  shows "\<exists>b'. m_reaches s b b' \<and> mutex_reach s b' \<and> m_reporting b'"
proof (cases "mm b = MmJoinConsumer")
  case True
  from assms(1) mutex_reach_calm(1) [OF _ assms(3)] have "mutex_ctl s b" by (auto simp: mutex_inv_def m_free_def)
  with True have "mc b \<noteq> McNew" "mdone b" by (simp_all add: mutex_ctl_def)
  from m_consumer_exits [OF assms(1) this(2,1) assms(3,4)] True obtain b1 where
    b1: "m_reaches s b b1" "m_free s b1" "mm b1 = MmJoinConsumer" "mc b1 = McExit" by auto
  let ?b = "b1\<lparr>mm := MmProcessed\<rparr>"
  have step: "mutex_step s MtMain b1 = Some ?b" using b1(3,4) by (simp add: mutex_main_step_def)
  from leads_to_trans [OF b1(1) leads_to_step [of "mutex_step s", OF step]] mutex_next [OF _ step] b1(2)
  show ?thesis by (intro exI [of _ ?b]) (simp add: m_reporting_def m_free_def)
next
  case False
  moreover have "no_panic (mm b)" using assms(1) mutex_reach_calm(2) [OF _ assms(3)] by (auto simp: m_calm_def m_free_def)
  ultimately show ?thesis using assms(1,2)
    by (intro exI [of _ b]) (cases "mm b"; simp add: m_reporting_def m_free_def)
qed

lemma mutex_can_return:
  assumes "mutex_reach s b" and "fits_i32 s" and "can_serve s"
  shows "\<exists>ts b' r. mutex_schedule s ts b = Some b' \<and> mm b' = MmReturn r"
proof -
  from m_reaches_free [OF assms(1) fits_i32_fits [OF assms(2)]] obtain b1 where b1: "m_reaches s b b1" "m_free s b1" by blast
  from m_main_stores [OF b1(2) assms(2)] obtain b2 where b2: "m_reaches s b1 b2" "m_free s b2" "m_stored (mm b2)"
    by blast
  from m_main_joins [OF b2(2,3) assms(2,3)] obtain b3 where b3: "m_reaches s b2 b3" "mutex_reach s b3"
    "m_reporting b3" by blast
  from m_main_returns [OF b3(2,3) assms(2)] b1(1) b2(1) b3(1) show ?thesis
    unfolding mutex_schedule_steps by (meson leads_to_trans leads_to_schedule)
qed

end
