(* ===== verification/Program.thy ===== *)
theory Program
  imports SoftBenchLive MutexBenchLive
begin

text \<open>
  The whole program of \<^verbatim>\<open>softlock-std-demo/src/main.rs\<close>: \<open>main\<close> runs \<open>run_scenario\<close> over its table, which
  runs the two benchmarks one after the other and prints what they return. Durations and \<open>f64\<close> are
  the types \<open>'d\<close> and \<open>'f\<close>; their arithmetic and formatting in the standard library is the parameter
  \<open>io\<close>, of which nothing is assumed.
\<close>

section \<open>Results\<close>

record ('d, 'f) std_float =
  f64_of :: "usize \<Rightarrow> 'f"
  f64_div :: "'f \<Rightarrow> 'f \<Rightarrow> 'f"
  f64_zero :: 'f
  f64_million :: 'f
  as_secs :: "'d \<Rightarrow> 'f"
  fmt_duration :: "'d \<Rightarrow> string"
  fmt3 :: "'f \<Rightarrow> string"
  fmt2 :: "'f \<Rightarrow> string"

record ('d, 'f) soft_result =
  sr_elapsed :: 'd
  sr_throughput_mops :: 'f
  sr_full_entries :: usize
  sr_pend_entries :: usize
  sr_drained_items :: usize
  sr_drained_batches :: usize
  sr_avg_batch :: 'f

record ('d, 'f) mutex_summary =
  ms_elapsed :: 'd
  ms_throughput_mops :: 'f
  ms_lock_acquires_producer :: usize
  ms_lock_acquires_consumer :: usize

definition throughput :: "('d, 'f) std_float \<Rightarrow> scenario \<Rightarrow> 'd \<Rightarrow> 'f" where
  "throughput io s d = f64_div io (f64_div io (f64_of io (total_ops_of s)) (as_secs io d)) (f64_million io)"

definition avg_batch :: "('d, 'f) std_float \<Rightarrow> counts \<Rightarrow> 'f" where
  "avg_batch io ct =
     (if ct_drained_batches ct = 0 then f64_zero io
      else f64_div io (f64_of io (ct_drained_items ct)) (f64_of io (ct_drained_batches ct)))"

definition soft_result_of :: "('d, 'f) std_float \<Rightarrow> scenario \<Rightarrow> 'd \<Rightarrow> counts \<Rightarrow> ('d, 'f) soft_result" where
  "soft_result_of io s d ct =
     \<lparr>sr_elapsed = d, sr_throughput_mops = throughput io s d, sr_full_entries = ct_full_entries ct,
      sr_pend_entries = ct_pend_entries ct, sr_drained_items = ct_drained_items ct,
      sr_drained_batches = ct_drained_batches ct, sr_avg_batch = avg_batch io ct\<rparr>"

definition mutex_summary_of :: "('d, 'f) std_float \<Rightarrow> scenario \<Rightarrow> 'd \<Rightarrow> mutex_result \<Rightarrow> ('d, 'f) mutex_summary" where
  "mutex_summary_of io s d r =
     \<lparr>ms_elapsed = d, ms_throughput_mops = throughput io s d,
      ms_lock_acquires_producer = lock_acquires_producer r, ms_lock_acquires_consumer = lock_acquires_consumer r\<rparr>"

section \<open>Printing\<close>

fun show_nat :: "nat \<Rightarrow> string" where
  "show_nat n = (if n < 10 then [char_of (48 + n)] else show_nat (n div 10) @ [char_of (48 + n mod 10)])"

declare show_nat.simps [simp del]

definition show_usize :: "usize \<Rightarrow> string" where
  "show_usize n = show_nat (unat n)"

text \<open>Each \<open>println!\<close> is one string, without its line feed.\<close>

definition scenario_lines :: "scenario \<Rightarrow> string list" where
  "scenario_lines s =
     [CHR 0x0A # ''=== Scenario: '' @ scenario_name s @ '' ==='',
      ''producers='' @ show_usize (producers s) @ '', ops/producer='' @ show_usize (ops_per_producer s) @
      '', budget='' @ show_usize (consumer_budget s) @ '', hold_spin='' @ show_usize (consumer_hold_spin s)]"

definition result_lines ::
  "('d, 'f) std_float \<Rightarrow> ('d, 'f) soft_result \<Rightarrow> ('d, 'f) mutex_summary \<Rightarrow> string list" where
  "result_lines io soft mutex =
     [''SoftLock: elapsed='' @ fmt_duration io (sr_elapsed soft) @ '', throughput='' @
        fmt3 io (sr_throughput_mops soft) @ '' Mops/s'',
      ''          full='' @ show_usize (sr_full_entries soft) @ '', pend='' @ show_usize (sr_pend_entries soft) @
        '', drained_items='' @ show_usize (sr_drained_items soft) @ '', drained_batches='' @
        show_usize (sr_drained_batches soft) @ '', avg_batch='' @ fmt2 io (sr_avg_batch soft),
      ''Mutex   : elapsed='' @ fmt_duration io (ms_elapsed mutex) @ '', throughput='' @
        fmt3 io (ms_throughput_mops mutex) @ '' Mops/s'',
      ''          producer_lock_acq='' @ show_usize (ms_lock_acquires_producer mutex) @ '', consumer_lock_acq='' @
        show_usize (ms_lock_acquires_consumer mutex),
      ''SoftLock/Mutex throughput ratio = '' @
        fmt2 io (f64_div io (sr_throughput_mops soft) (ms_throughput_mops mutex)) @ ''x'']"

definition banner :: "string list" where
  "banner = [''SoftLock vs Mutex benchmark (throughput only)'',
     ''Note: This excludes interrupt-latency semantics by design.'']"

section \<open>The program\<close>

text \<open>
  \<open>AtLoop\<close> is the head of the loop over the table; \<open>InSoft\<close> and \<open>InMutex\<close> are the two calls of
  \<open>run_scenario\<close>; a failed assertion of a benchmark, and an
  \<open>expect\<close> that fails, ends the program.
\<close>

datatype ('d, 'f) place =
    AtLoop
  | InSoft scenario bench
  | InMutex scenario "('d, 'f) soft_result" mutex_bench
  | Finished
  | Panicked string

record ('d, 'f) program =
  place :: "('d, 'f) place"
  todo :: "scenario list"
  out :: "string list"

definition program_new :: "scenario list \<Rightarrow> ('d, 'f) program" where
  "program_new ss = \<lparr>place = AtLoop, todo = ss, out = banner\<rparr>"

text \<open>Who moves: a thread of the running benchmark, or \<open>run_scenario\<close> itself; \<open>d\<close> is the measured duration.\<close>

datatype 'd mover = SoftThread tid | MutexThread mtid | Advance 'd

fun scenario_step :: "('d, 'f) std_float \<Rightarrow> 'd mover \<Rightarrow> ('d, 'f) place \<Rightarrow> (('d, 'f) place \<times> string list) option" where
  "scenario_step io (SoftThread t) (InSoft s b) = map_option (\<lambda>b'. (InSoft s b', [])) (bench_step s t b)"
| "scenario_step io (MutexThread t) (InMutex s r b) = map_option (\<lambda>b'. (InMutex s r b', [])) (mutex_step s t b)"
| "scenario_step io (Advance d) (InSoft s b) =
     (case mpc b of
        MReturn ct \<Rightarrow> Some (InMutex s (soft_result_of io s d ct) mutex_bench_new, [])
      | MPanic m \<Rightarrow> Some (Panicked m, [])
      | _ \<Rightarrow> None)"
| "scenario_step io (Advance d) (InMutex s r b) =
     (case mm b of
        MmReturn x \<Rightarrow> Some (AtLoop, result_lines io r (mutex_summary_of io s d x))
      | MmPanic m \<Rightarrow> Some (Panicked m, [])
      | MmProducerPanicked \<Rightarrow> Some (Panicked ''producer panicked'', [])
      | MmConsumerPanicked \<Rightarrow> Some (Panicked ''consumer panicked'', [])
      | MmPoisoned \<Rightarrow> Some (Panicked ''queue mutex poisoned'', [])
      | _ \<Rightarrow> None)"
| "scenario_step io m pl = None"

definition program_step :: "('d, 'f) std_float \<Rightarrow> 'd mover \<Rightarrow> ('d, 'f) program \<Rightarrow> ('d, 'f) program option" where
  "program_step io m p =
     (case place p of
        AtLoop \<Rightarrow>
          (case (m, todo p) of
             (Advance d, []) \<Rightarrow> Some (p\<lparr>place := Finished\<rparr>)
           | (Advance d, s # ss) \<Rightarrow>
               Some (p\<lparr>place := InSoft s bench_new, todo := ss, out := out p @ scenario_lines s\<rparr>)
           | _ \<Rightarrow> None)
      | pl \<Rightarrow> map_option (\<lambda>(pl', ls). p\<lparr>place := pl', out := out p @ ls\<rparr>) (scenario_step io m pl))"

inductive program_reach :: "('d, 'f) std_float \<Rightarrow> scenario list \<Rightarrow> ('d, 'f) program \<Rightarrow> bool" for io ss where
  program_start: "program_reach io ss (program_new ss)"
| program_next: "program_reach io ss p \<Longrightarrow> program_step io m p = Some p' \<Longrightarrow> program_reach io ss p'"

interpretation pr: interleaving "program_step io" "program_new ss" "program_reach io ss" for io ss
proof
  show "leads_to (program_step io) (program_new ss) p" if "program_reach io ss p" for p
    using that by (induction rule: program_reach.induct) (auto intro: leads_to_step leads_to_trans)
qed (auto intro: program_start program_next)

section \<open>What the program has printed\<close>

text \<open>The lines of one completed scenario.\<close>

definition scenario_block :: "('d, 'f) std_float \<Rightarrow> scenario \<Rightarrow> string list \<Rightarrow> bool" where
  "scenario_block io s ls \<longleftrightarrow>
     (\<exists>d ct d' r. ls = scenario_lines s @ result_lines io (soft_result_of io s d ct) (mutex_summary_of io s d' r) \<and>
        report_ok s ct \<and> lock_acquires_producer r = total_ops_of s)"

definition completed_blocks :: "('d, 'f) std_float \<Rightarrow> scenario list \<Rightarrow> string list \<Rightarrow> bool" where
  "completed_blocks io ss ls \<longleftrightarrow> (\<exists>bs. ls = banner @ concat bs \<and> list_all2 (scenario_block io) ss bs)"

lemma completed_blocks_Nil: "completed_blocks io [] banner"
  unfolding completed_blocks_def by (rule exI [of _ "[]"]) simp

lemma completed_blocks_snoc:
  assumes "completed_blocks io ss ls" and "scenario_block io s bl"
  shows "completed_blocks io (ss @ [s]) (ls @ bl)"
proof -
  from assms(1) obtain bs where "ls = banner @ concat bs" "list_all2 (scenario_block io) ss bs"
    by (auto simp: completed_blocks_def)
  with assms(2) show ?thesis
    unfolding completed_blocks_def by (intro exI [of _ "bs @ [bl]"]) (simp add: list_all2_appendI)
qed

text \<open>
  Sensible parameters: no counter overflows, neither a \<open>usize\<close> nor the \<open>i32\<close> of the mutex benchmark, and the
  consumer can serve.
\<close>

definition scenario_fine :: "scenario \<Rightarrow> bool" where
  "scenario_fine s \<longleftrightarrow> fits_i32 s \<and> can_serve s"

fun place_ok :: "('d, 'f) std_float \<Rightarrow> scenario list \<Rightarrow> ('d, 'f) place \<Rightarrow> scenario list \<Rightarrow> scenario list
    \<Rightarrow> string list \<Rightarrow> bool" where
  "place_ok io ss AtLoop don rest ls = (ss = don @ rest \<and> completed_blocks io don ls)"
| "place_ok io ss (InSoft s b) don rest ls =
     (ss = don @ s # rest \<and> bench_reach s b \<and>
      (\<exists>ls'. ls = ls' @ scenario_lines s \<and> completed_blocks io don ls'))"
| "place_ok io ss (InMutex s r b) don rest ls =
     (ss = don @ s # rest \<and> mutex_reach s b \<and> (\<exists>d ct. r = soft_result_of io s d ct \<and> report_ok s ct) \<and>
      (\<exists>ls'. ls = ls' @ scenario_lines s \<and> completed_blocks io don ls'))"
| "place_ok io ss Finished don rest ls = (ss = don \<and> rest = [] \<and> completed_blocks io don ls)"
| "place_ok io ss (Panicked m) don rest ls = False"

definition program_inv :: "('d, 'f) std_float \<Rightarrow> scenario list \<Rightarrow> ('d, 'f) program \<Rightarrow> bool" where
  "program_inv io ss p \<longleftrightarrow> (\<exists>don. place_ok io ss (place p) don (todo p) (out p))"

lemma scenario_step_ok:
  assumes "scenario_step io m pl = Some (pl', ls')" and "place_ok io ss pl don rest ls"
    and fine: "\<forall>s\<in>set ss. scenario_fine s"
  shows "\<exists>don'. place_ok io ss pl' don' rest (ls @ ls')"
proof (cases pl)
  case (InSoft s b)
  with assms(2) fine have b: "bench_reach s b" and fits: "fits s" by (auto simp: scenario_fine_def fits_i32_def)
  note rep = bench_reach_rep [OF b fits, unfolded rep_inv_def]
  show ?thesis
  proof (cases m)
    case (SoftThread t)
    with assms(1,2) InSoft show ?thesis by (auto intro: bench_next)
  next
    case (Advance d)
    with assms(1) InSoft rep obtain ct where "pl' = InMutex s (soft_result_of io s d ct) mutex_bench_new"
      "ls' = []" "report_ok s ct" by (auto split: main_state.splits)
    with assms(2) InSoft mutex_start [of s] show ?thesis by (intro exI [of _ don]) auto
  qed (use assms(1) InSoft in simp)
next
  case (InMutex s r b)
  with assms(2) fine have b: "mutex_reach s b" and fits: "fits_i32 s" by (auto simp: scenario_fine_def)
  have res: "mutex_result_ok s (mm b)" "no_panic (mm b)"
    using mutex_reach_calm [OF b fits] by (simp_all add: mutex_inv_def mutex_fin_def m_calm_def)
  show ?thesis
  proof (cases m)
    case (MutexThread t)
    with assms(1) InMutex obtain b1 where b1: "mutex_step s t b = Some b1" "pl' = InMutex s r b1" "ls' = []"
      by auto
    with assms(2) InMutex mutex_next [OF b b1(1)] show ?thesis by (intro exI [of _ don]) simp
  next
    case (Advance d)
    with assms(1) InMutex res obtain x where x: "mm b = MmReturn x" "pl' = AtLoop"
      "ls' = result_lines io r (mutex_summary_of io s d x)" by (auto split: mutex_main.splits)
    from assms(2) InMutex obtain d' ct l where r: "r = soft_result_of io s d' ct" "report_ok s ct"
      and l: "ls = l @ scenario_lines s" "completed_blocks io don l" and ss: "ss = don @ s # rest" by auto
    have "scenario_block io s (scenario_lines s @ ls')"
      using r x res unfolding scenario_block_def
      by (intro exI [of _ d'] exI [of _ ct] exI [of _ d] exI [of _ x]) simp
    from completed_blocks_snoc [OF l(2) this] show ?thesis
      by (intro exI [of _ "don @ [s]"]) (simp add: x(2) l(1) ss)
  qed (use assms(1) InMutex in simp)
qed (use assms(1) in \<open>cases m; simp\<close>)+

lemma program_inv_step:
  assumes "program_step io m p = Some p'" and "program_inv io ss p" and fine: "\<forall>s\<in>set ss. scenario_fine s"
  shows "program_inv io ss p'"
proof -
  from assms(2) obtain don where ok: "place_ok io ss (place p) don (todo p) (out p)"
    by (auto simp: program_inv_def)
  show ?thesis
  proof (cases "place p = AtLoop")
    case True
    with assms(1) ok show ?thesis
      unfolding program_inv_def
      by (intro exI [of _ don])
        (auto simp: program_step_def split: mover.splits list.splits intro: bench_start)
  next
    case False
    with assms(1) obtain pl' ls' where
      step: "scenario_step io m (place p) = Some (pl', ls')" and p': "p' = p\<lparr>place := pl', out := out p @ ls'\<rparr>"
      by (auto simp: program_step_def split: place.splits)
    from scenario_step_ok [OF step ok fine] show ?thesis by (simp add: program_inv_def p')
  qed
qed

lemma program_reach_inv:
  "program_reach io ss p \<Longrightarrow> \<forall>s\<in>set ss. scenario_fine s \<Longrightarrow> program_inv io ss p"
proof (induction rule: program_reach.induct)
  case program_start
  show ?case
    unfolding program_inv_def program_new_def
    by (rule exI [of _ "[]"]) (simp add: completed_blocks_Nil)
next
  case (program_next p m p')
  then show ?case by (blast intro: program_inv_step)
qed

section \<open>The program can come to its end\<close>

lemma leads_to_lift:
  assumes "leads_to step b b'" and "\<And>t x y. step t x = Some y \<Longrightarrow> \<exists>m. step' m (g x) = Some (g y)"
  shows "leads_to step' (g b) (g b')"
  using assms(1) unfolding leads_to_def
proof (induction rule: rtranclp_induct)
  case (step y z)
  then obtain t where "step t y = Some z" by blast
  with assms(2) have "\<exists>m. step' m (g y) = Some (g z)" by blast
  with step.IH show ?case by (rule rtranclp.rtrancl_into_rtrancl)
qed simp

lemma soft_to_mutex:
  assumes "place p = InSoft s b" and "bench_reach s b" and "scenario_fine s"
  shows "\<exists>r. leads_to (program_step io) p (p\<lparr>place := InMutex s r mutex_bench_new\<rparr>)"
proof -
  obtain ts b' ct where run: "run_schedule s ts b = Some b'" and ret: "mpc b' = MReturn ct"
    using bench_can_return [OF assms(2)] assms(3) by (auto simp: scenario_fine_def fits_i32_def)
  from run have "leads_to (bench_step s) b b'" unfolding run_schedule_steps by (rule run_steps_leads_to)
  then have "leads_to (program_step io) (p\<lparr>place := InSoft s b\<rparr>) (p\<lparr>place := InSoft s b'\<rparr>)"
  proof (rule leads_to_lift [where g = "\<lambda>b. p\<lparr>place := InSoft s b\<rparr>"])
    fix t x y assume "bench_step s t x = Some y"
    then show "\<exists>m. program_step io m (p\<lparr>place := InSoft s x\<rparr>) = Some (p\<lparr>place := InSoft s y\<rparr>)"
      by (intro exI [of _ "SoftThread t"]) (simp add: program_step_def del: bench_step.simps)
  qed
  moreover have "program_step io (Advance d) (p\<lparr>place := InSoft s b'\<rparr>) =
      Some (p\<lparr>place := InMutex s (soft_result_of io s d ct) mutex_bench_new\<rparr>)" for d
    by (simp add: program_step_def ret)
  moreover have "p\<lparr>place := InSoft s b\<rparr> = p" using assms(1) by (cases p) simp
  ultimately show ?thesis by (metis leads_to_step leads_to_trans)
qed

lemma mutex_to_loop:
  assumes "place p = InMutex s r b" and "mutex_reach s b" and "scenario_fine s"
  shows "\<exists>ls. leads_to (program_step io) p (p\<lparr>place := AtLoop, out := ls\<rparr>)"
proof -
  obtain ts b' x where run: "mutex_schedule s ts b = Some b'" and ret: "mm b' = MmReturn x"
    using mutex_can_return [OF assms(2)] assms(3) by (auto simp: scenario_fine_def)
  from run have "leads_to (mutex_step s) b b'" unfolding mutex_schedule_steps by (rule run_steps_leads_to)
  then have "leads_to (program_step io) (p\<lparr>place := InMutex s r b\<rparr>) (p\<lparr>place := InMutex s r b'\<rparr>)"
  proof (rule leads_to_lift [where g = "\<lambda>b. p\<lparr>place := InMutex s r b\<rparr>"])
    fix t x y assume "mutex_step s t x = Some y"
    then show "\<exists>m. program_step io m (p\<lparr>place := InMutex s r x\<rparr>) = Some (p\<lparr>place := InMutex s r y\<rparr>)"
      by (intro exI [of _ "MutexThread t"]) (simp add: program_step_def del: mutex_step.simps)
  qed
  moreover have "program_step io (Advance d) (p\<lparr>place := InMutex s r b'\<rparr>) =
      Some (p\<lparr>place := AtLoop, out := out p @ result_lines io r (mutex_summary_of io s d x)\<rparr>)" for d
    by (simp add: program_step_def ret)
  moreover have "p\<lparr>place := InMutex s r b\<rparr> = p" using assms(1) by (cases p) simp
  ultimately show ?thesis by (metis leads_to_step leads_to_trans)
qed

lemma loop_to_end:
  assumes "\<forall>s\<in>set (todo p). scenario_fine s" and "place p = AtLoop"
  shows "\<exists>p'. leads_to (program_step io) p p' \<and> place p' = Finished"
  using assms
proof (induction "todo p" arbitrary: p)
  case Nil
  then have "program_step io (Advance d) p = Some (p\<lparr>place := Finished\<rparr>)" for d
    by (auto simp: program_step_def)
  then show ?case by (intro exI [of _ "p\<lparr>place := Finished\<rparr>"]) (auto intro: leads_to_step)
next
  case (Cons s ss)
  let ?p1 = "p\<lparr>place := InSoft s bench_new, todo := ss, out := out p @ scenario_lines s\<rparr>"
  have fine: "scenario_fine s" using Cons.prems(1) Cons.hyps(2) [symmetric] by simp
  have "program_step io (Advance d) p = Some ?p1" for d
    using Cons.prems(2) Cons.hyps(2) [symmetric] by (simp add: program_step_def)
  then have p1: "leads_to (program_step io) p ?p1" by (rule leads_to_step)
  obtain r where p2: "leads_to (program_step io) ?p1 (?p1\<lparr>place := InMutex s r mutex_bench_new\<rparr>)"
    using soft_to_mutex [of ?p1 s bench_new io] bench_start fine by auto
  let ?p2 = "?p1\<lparr>place := InMutex s r mutex_bench_new\<rparr>"
  obtain ls where p3: "leads_to (program_step io) ?p2 (?p2\<lparr>place := AtLoop, out := ls\<rparr>)"
    using mutex_to_loop [of ?p2 s r mutex_bench_new io] mutex_start fine by auto
  let ?p3 = "?p2\<lparr>place := AtLoop, out := ls\<rparr>"
  have "\<exists>p'. leads_to (program_step io) ?p3 p' \<and> place p' = Finished"
    using Cons.prems(1) Cons.hyps(2) [symmetric] by (intro Cons.hyps(1)) simp_all
  with p1 p2 p3 show ?case by (meson leads_to_trans)
qed

lemma program_can_finish:
  assumes "program_reach io ss p" and fine: "\<forall>s\<in>set ss. scenario_fine s"
  shows "\<exists>p'. leads_to (program_step io) p p' \<and> place p' = Finished"
proof -
  from program_reach_inv [OF assms] obtain don where
    ok: "place_ok io ss (place p) don (todo p) (out p)" by (auto simp: program_inv_def)
  have mutex: "\<exists>p'. leads_to (program_step io) q p' \<and> place p' = Finished"
    if q: "place q = InMutex s r b" "mutex_reach s b" "scenario_fine s" "\<forall>s\<in>set (todo q). scenario_fine s"
    for q s r b
  proof -
    obtain ls where "leads_to (program_step io) q (q\<lparr>place := AtLoop, out := ls\<rparr>)"
      using mutex_to_loop [OF q(1-3)] by blast
    with loop_to_end [of "q\<lparr>place := AtLoop, out := ls\<rparr>" io] q(4) show ?thesis
      by (auto intro: leads_to_trans)
  qed
  show ?thesis
  proof (cases "place p")
    case AtLoop
    with ok fine show ?thesis by (intro loop_to_end) simp_all
  next
    case (InSoft s b)
    with ok fine obtain r where r: "leads_to (program_step io) p (p\<lparr>place := InMutex s r mutex_bench_new\<rparr>)"
      using soft_to_mutex [of p s b io] by auto
    with mutex [of "p\<lparr>place := InMutex s r mutex_bench_new\<rparr>"] ok fine InSoft mutex_start show ?thesis
      by (auto intro: leads_to_trans)
  next
    case (InMutex s r b)
    with mutex [OF InMutex] ok fine show ?thesis by simp
  next
    case Finished
    then show ?thesis by (intro exI [of _ p]) simp
  next
    case (Panicked m)
    with ok show ?thesis by simp
  qed
qed

end
