(* ===== verification/Budget.thy ===== *)
theory Budget
  imports SoftBenchLive MutexBenchLive
begin

text \<open>
  The boundary of the consumer's budget. With a budget of 0 the consumer of either benchmark never takes
  an item, so a benchmark that has operations to serve never returns; in every other case it can be
  brought to its end from wherever it is.
\<close>

section \<open>The soft-lock benchmark\<close>

fun idle_op :: "op_pc \<Rightarrow> bool" where
  "idle_op (OpConsumer (CoProcess prior (PsLock b))) = (b = 0)"
| "idle_op (OpConsumer (CoProcess prior (PsPop b now))) = (b = 0)"
| "idle_op (OpConsumer (CoProcess prior (PsCount b now))) = False"
| "idle_op _ = True"

fun idle_pc :: "(op_pc, drain_pc, op_result) guard_pc \<Rightarrow> bool" where
  "idle_pc (AtGuard f p) = (idle_op f \<and> idle_op p)"
| "idle_pc (InOp held k) = idle_op k"
| "idle_pc _ = True"

lemma idle_op_step:
  assumes "op_code s T e k c = Some (c', x)" and "idle_op k" and "consumer_budget s = 0"
  shows "processed c' = processed c \<and> (\<forall>k'. x = Inl k' \<longrightarrow> idle_op k')"
proof (cases "\<exists>prior j. k = OpConsumer (CoProcess prior j)")
  case True
  then obtain prior j where "k = OpConsumer (CoProcess prior j)" by blast
  with assms show ?thesis
    by (cases j) (auto simp: tail_call_eq_Some call_eq_Some split: if_splits list.splits)
next
  case False
  with assms(1) have "processed c' = processed c" by (intro op_processed) auto
  moreover have "idle_op k'" if "x = Inl k'" for k'
  proof (cases k)
    case (OpConsumer j)
    with assms False that show ?thesis
      by (cases j) (auto simp: tail_call_eq_Some call_eq_Some split: if_splits sum.splits)
  qed (use assms that in \<open>auto simp: tail_call_eq_Some\<close>)
  ultimately show ?thesis by blast
qed

lemma idle_guard_step:
  assumes "guard_step (op_code s T e) run_pended_op_code RpSwap l pc = Some (l', pc')"
    and "idle_pc pc" and "consumer_budget s = 0"
  shows "processed (content l') = processed (content l) \<and> idle_pc pc'"
proof (cases pc)
  case (InOp held k)
  with assms show ?thesis
    by (auto split: option.splits sum.splits prod.splits if_splits dest!: idle_op_step)
next
  case (InDrain d r)
  with assms show ?thesis
    by (auto split: option.splits sum.splits prod.splits dest: processed_codes(3))
qed (use assms in \<open>auto simp: guard_def split: if_splits\<close>)

definition idle_inv :: "soft_world \<Rightarrow> bool" where
  "idle_inv w \<longleftrightarrow> processed (content (lk w)) = 0 \<and> (\<forall>t pc. act w t = Some pc \<longrightarrow> idle_pc pc)"

lemma idle_reach: "bench_reach s b \<Longrightarrow> consumer_budget s = 0 \<Longrightarrow> idle_inv (bw b)"
proof (induction rule: bench_reach.induct)
  case bench_start
  show ?case by (simp add: idle_inv_def bench_new_def world_new_def soft_lock_new_def demo_inner_new_def)
next
  case (bench_next b t b')
  then have inv: "idle_inv (bw b)" by simp
  from bench_next.hyps(2) bench_reach_call [OF bench_next.hyps(1)] show ?case
  proof (cases rule: bench_step_access)
    case (enter f p)
    with inv show ?thesis by (auto simp: idle_inv_def enter_access_def bench_arms_def)
  next
    case (instr fin)
    then show ?thesis
      by (rule access_instr_cases)
        (use inv idle_guard_step [OF _ _ bench_next.prems] in \<open>fastforce simp: idle_inv_def\<close>)
  qed (use inv in \<open>simp_all add: idle_inv_def leave_access_def\<close>)
qed

lemma no_budget_no_return:
  assumes "bench_reach s b" and "fits s" and "mpc b = MReturn ct"
  shows "can_serve s"
proof (cases "consumer_budget s = 0")
  case True
  from bench_reach_ctl [OF assms(1)] assms(3) have "cpc b = CExit" by (simp add: ctl_inv_def)
  with bench_reach_con [OF assms(1,2)] have "all_processed s (content (lk (bw b)))" by (simp add: con_inv_def)
  with idle_reach [OF assms(1) True] show ?thesis
    by (simp add: can_serve_iff [OF assms(2)] idle_inv_def all_processed_def)
qed (simp add: can_serve_def)

lemma bench_returns_iff:
  assumes "bench_reach s b" and "fits s"
  shows "(\<exists>ts b' ct. run_schedule s ts b = Some b' \<and> mpc b' = MReturn ct) \<longleftrightarrow>
    consumer_budget s \<noteq> 0 \<or> total_nat s = 0"
proof
  assume "\<exists>ts b' ct. run_schedule s ts b = Some b' \<and> mpc b' = MReturn ct"
  with no_budget_no_return [OF run_schedule_reach [OF _ assms(1)] assms(2)] have "can_serve s" by blast
  then show "consumer_budget s \<noteq> 0 \<or> total_nat s = 0" unfolding can_serve_iff [OF assms(2)] .
next
  assume "consumer_budget s \<noteq> 0 \<or> total_nat s = 0"
  then have "can_serve s" unfolding can_serve_iff [OF assms(2)] .
  with assms show "\<exists>ts b' ct. run_schedule s ts b = Some b' \<and> mpc b' = MReturn ct" by (rule bench_can_return)
qed

section \<open>The mutex benchmark\<close>

fun idle_consumer :: "mutex_consumer \<Rightarrow> bool" where
  "idle_consumer (McPop n now) = (n = 0)"
| "idle_consumer (McProcess n now) = False"
| "idle_consumer _ = True"

lemma idle_consumer_step:
  assumes "mutex_consumer_step s fin k c = Some (c', k')" and "idle_consumer k" and "consumer_budget s = 0"
  shows "mprocessed c' = mprocessed c \<and> idle_consumer k'"
  using assms by (cases k) (auto split: if_splits)

lemma idle_producer_step: "mutex_producer_step s p k c = Some (c', k') \<Longrightarrow> mprocessed c' = mprocessed c"
  by (cases k) (auto split: if_splits)

lemma idle_main_step:
  assumes "mutex_main_step s b = Some b'" and "idle_consumer (mc b)"
  shows "mprocessed (inner b') = mprocessed (inner b) \<and> idle_consumer (mc b')"
  using assms(1) by (cases rule: mutex_main_cases) (use assms(2) in simp_all)

lemma mutex_idle_reach:
  "mutex_reach s b \<Longrightarrow> consumer_budget s = 0 \<Longrightarrow> mprocessed (inner b) = 0 \<and> idle_consumer (mc b)"
proof (induction rule: mutex_reach.induct)
  case mutex_start
  show ?case by (simp add: mutex_bench_new_def mutex_inner_new_def)
next
  case (mutex_next b t b')
  then show ?case
    by (cases t) (auto dest: idle_main_step idle_producer_step idle_consumer_step)
qed

lemma mutex_no_budget_no_return:
  assumes "mutex_reach s b" and "fits s" and "mm b = MmReturn r"
  shows "can_serve s"
proof (cases "consumer_budget s = 0")
  case True
  from mutex_reach_inv [OF assms(1,2)] assms(3) have "mc b = McExit" "mutex_fin s b"
    by (simp_all add: mutex_inv_def mutex_ctl_def)
  then have "mutex_all_done s (inner b)" by (simp add: mutex_fin_def)
  with mutex_idle_reach [OF assms(1) True] show ?thesis
    by (simp add: can_serve_iff [OF assms(2)] mutex_all_done_def)
qed (simp add: can_serve_def)

lemma mutex_returns_iff:
  assumes "mutex_reach s b" and "fits_i32 s"
  shows "(\<exists>ts b' r. mutex_schedule s ts b = Some b' \<and> mm b' = MmReturn r) \<longleftrightarrow>
    consumer_budget s \<noteq> 0 \<or> total_nat s = 0"
proof
  assume "\<exists>ts b' r. mutex_schedule s ts b = Some b' \<and> mm b' = MmReturn r"
  with mutex_no_budget_no_return [OF mutex_schedule_reach [OF _ assms(1)] fits_i32_fits [OF assms(2)]] have "can_serve s" by blast
  then show "consumer_budget s \<noteq> 0 \<or> total_nat s = 0" unfolding can_serve_iff [OF fits_i32_fits [OF assms(2)]] .
next
  assume "consumer_budget s \<noteq> 0 \<or> total_nat s = 0"
  then have "can_serve s" unfolding can_serve_iff [OF fits_i32_fits [OF assms(2)]] .
  with assms show "\<exists>ts b' r. mutex_schedule s ts b = Some b' \<and> mm b' = MmReturn r" by (rule mutex_can_return)
qed

end
