(* ===== verification/SoftCounters.thy ===== *)
theory SoftCounters
  imports SoftBatches
begin

text \<open>
  No counter of \<open>DemoInner\<close> ever wraps around: read as unsigned numbers, the cumulative ones never
  decrease, and the number of recorded intents goes down only by being taken over as a whole.
\<close>

section \<open>What may happen to the counters in a step\<close>

definition counters_grow :: "demo_inner \<Rightarrow> demo_inner \<Rightarrow> bool" where
  "counters_grow c c' \<longleftrightarrow>
     next_id c \<le> next_id c' \<and> processed c \<le> processed c' \<and> drained_items c \<le> drained_items c' \<and>
     drained_batches c \<le> drained_batches c' \<and> direct_items c \<le> direct_items c' \<and>
     full_entries c \<le> full_entries c' \<and> pend_entries c \<le> pend_entries c' \<and>
     (pending_submit c' = 0 \<or> pending_submit c \<le> pending_submit c')"

lemma counters_grow_refl [simp]: "counters_grow c c"
  by (simp add: counters_grow_def)

text \<open>Enough room for the next increment of every counter.\<close>

definition batch_room_left :: "demo_inner \<Rightarrow> bool" where
  "batch_room_left c \<longleftrightarrow> uint (drained_batches c) < 2 ^ 64 - 1"

lemma inc_le: "uint (x :: 64 word) < 2 ^ 64 - 1 \<Longrightarrow> x \<le> x + 1"
  by (simp add: word_le_def uint_inc_no_wrap)

lemma add_le: "uint (x :: 64 word) + uint n < 2 ^ 64 \<Longrightarrow> x \<le> x + n"
  by (simp add: word_le_def uint_add_no_wrap)

lemma small_grows:
  assumes "small c"
  shows "full_entries c \<le> full_entries c + 1" and "pend_entries c \<le> pend_entries c + 1"
    and "direct_items c \<le> direct_items c + 1" and "pending_submit c \<le> pending_submit c + 1"
    and "processed c \<le> processed c + 1" and "next_id c \<le> next_id c + 1"
  using assms by (simp_all only: small_def inc_le)

section \<open>One instruction\<close>

lemma submit_grows: "submit_direct_code k c = Some (c', x) \<Longrightarrow> small c \<Longrightarrow> counters_grow c c'"
  by (cases k; auto simp: counters_grow_def small_grows split: if_splits)

lemma process_grows: "process_some_code k c = Some (c', x) \<Longrightarrow> small c \<Longrightarrow> counters_grow c c'"
  by (cases k; auto simp: counters_grow_def small_grows split: if_splits list.splits)

lemma len_grows: "queue_len_code k c = Some (c', x) \<Longrightarrow> counters_grow c c'"
  by (cases k; auto simp: counters_grow_def split: if_splits)

lemma drain_grows:
  assumes "run_pended_op_code k c = Some (c', x)" and "drain_room k c" and "batch_room_left c"
  shows "counters_grow c c'"
proof -
  have "k = RpItems n \<Longrightarrow> drained_items c \<le> drained_items c + n" for n
    using assms(2) by (auto simp: drain_room_def intro: add_le)
  with assms drain_room_small [OF assms(2)] show ?thesis
    by (cases k; auto simp: counters_grow_def small_grows batch_room_left_def inc_le split: if_splits)
qed

lemma op_grows:
  assumes "op_code s T e k c = Some (c', x)" and "op_room k c" and "batch_room_left c"
  shows "counters_grow c c'"
proof -
  note small = op_room_small [OF assms(2)]
  have plain: "counters_grow c (c\<lparr>full_entries := full_entries c + 1\<rparr>)"
    "counters_grow c (c\<lparr>pend_entries := pend_entries c + 1\<rparr>)" "counters_grow c (pend_submit c)"
    using small by (simp_all add: counters_grow_def small_grows pend_submit_def)
  show ?thesis
    using assms small plain
    by (cases k rule: op_pend.cases)
      (auto simp: tail_call_eq_Some call_eq_Some op_room_drain split: if_splits
        dest: submit_grows process_grows len_grows drain_grows)
qed

lemma guard_grows:
  assumes "guard_step (op_code s T e) run_pended_op_code RpSwap l pc = Some (l', pc')"
    and "ae.roomy pc (content l)" and "batch_room_left (content l)"
  shows "counters_grow (content l) (content l')"
proof (cases pc)
  case (InOp held k)
  with assms show ?thesis
    by (auto simp: ae.roomy_def split: option.splits sum.splits prod.splits dest: op_grows)
next
  case (InDrain d r)
  with assms show ?thesis
    by (auto simp: ae.roomy_def split: option.splits sum.splits prod.splits dest: drain_grows)
qed (use assms in \<open>auto simp: guard_def split: if_splits\<close>)

section \<open>Every step of the benchmark\<close>

lemma batches_bound:
  assumes "bench_reach s b" and "fits s"
  defines "c \<equiv> content (lk (bw b))"
  shows "unat (drained_batches c) \<le> unat (drained_items c) + 1"
    and "\<not> locked (lk (bw b)) \<Longrightarrow> unat (drained_batches c) \<le> unat (drained_items c)"
    and "drained_batches c = 0 \<Longrightarrow> drained_items c = 0"
    and "batch_room_left c"
proof -
  have ok: "batch_ok c (somebody_lags (act (bw b)))"
    using bench_reach_batches [OF assms(1,2)] by (simp add: batch_inv_def c_def)
  have le: "uint (drained_batches c) \<le> uint (drained_items c) + 1"
    using ok by (cases "somebody_lags (act (bw b))") (simp_all add: batch_ok_def)
  then have "int (unat (drained_batches c)) \<le> int (unat (drained_items c) + 1)" by simp
  then show "unat (drained_batches c) \<le> unat (drained_items c) + 1" by (simp only: of_nat_le_iff)
  show "drained_batches c = 0 \<Longrightarrow> drained_items c = 0" using ok by (simp add: batch_ok_def)
  note acc = bench_reach_accounts [OF assms(1,2), unfolded acc_inv_def]
  note bound = entries_bound [OF acc bench_reach_ctl [OF assms(1)] bench_reach_call [OF assms(1)]]
  show "batch_room_left c"
    using le counter_bounds(1,3) [OF acc bound] bounds_nonneg [of c s "bw b"] fits_int [OF assms(2)]
    unfolding batch_room_left_def c_def by linarith
  assume free: "\<not> locked (lk (bw b))"
  have "\<not> somebody_lags (act (bw b))"
  proof
    assume "somebody_lags (act (bw b))"
    then obtain t pc where pc: "act (bw b) t = Some pc" "drains pc \<noteq> None"
      by (auto simp: somebody_lags_def lags_def)
    from drains_holds [OF bench_reach_region [OF assms(1)] this] have "full_holder (bw b) t"
      using pc(1) by (simp add: full_holder_def)
    with free bench_reach_lock [OF assms(1)] show False by (auto simp: lock_inv_def)
  qed
  with ok have "int (unat (drained_batches c)) \<le> int (unat (drained_items c))" by (simp add: batch_ok_def)
  then show "unat (drained_batches c) \<le> unat (drained_items c)" by (simp only: of_nat_le_iff)
qed

lemma bench_counters_grow:
  assumes "bench_step s t b = Some b'" and reach: "bench_reach s b" and fits: "fits s"
  shows "counters_grow (content (lk (bw b))) (content (lk (bw b')))"
  using assms(1) bench_reach_call [OF reach]
proof (cases rule: bench_step_access)
  case (instr fin)
  note inv = bench_reach_ctl [OF reach] bench_reach_call [OF reach]
  from instr show ?thesis
  proof (rule access_instr_cases)
    fix pc l' pc'
    assume pc: "act (bw b) t = Some pc"
      and step: "guard_step (op_code s (total_ops_of s) fin) run_pended_op_code RpSwap (lk (bw b)) pc = Some (l', pc')"
      and w: "bw b' = (bw b)\<lparr>lk := l', act := (act (bw b))(t \<mapsto> pc')\<rparr>"
    have "t \<in> threads s" by (rule in_call_thread [OF inv(1) call_inv_in_call [OF inv(2) pc]])
    from roomy_in_bounds [OF _ inv fits this pc] bench_reach_accounts [OF reach fits]
    have "ae.roomy pc (content (lk (bw b)))" by (simp add: acc_inv_def)
    from guard_grows [OF step this batches_bound(4) [OF reach fits]] show ?thesis by (simp add: w)
  qed
qed (simp_all add: enter_access_def leave_access_def)

end
