(* ===== verification/SoftProperties.thy ===== *)
theory SoftProperties
  imports SoftBenchFinal SoftCounters
begin

text \<open>
  The properties of the soft-lock and of the soft-lock benchmark, each with the concrete run
  that shows its hypotheses can hold. Runs are given as schedules of a small scenario: two
  producers, one operation each.
\<close>

section \<open>Concrete runs\<close>

definition duo :: scenario where
  "duo = \<lparr>scenario_name = ''duo'', producers = 2, ops_per_producer = 1, producer_pause_every = 0,
     consumer_budget = 64, consumer_hold_spin = 0\<rparr>"

text \<open>
  \<open>overlap\<close>: producer 0 takes the lock, producer 1 finds it taken and records its intent, producer 0
  releases and leaves, and only then producer 1 raises the flag and leaves. \<open>to_end\<close>: both are
  joined, the consumer runs, the main thread reports.
\<close>

definition overlap :: "tid list" where
  "overlap = replicate 4 TMain @ replicate 2 (TProducer 0) @ replicate 4 (TProducer 1) @
     replicate 10 (TProducer 0) @ replicate 2 (TProducer 1)"

definition to_end :: "tid list" where
  "to_end = overlap @ [TProducer 0, TProducer 1] @ replicate 4 TMain @ replicate 24 TConsumer @
     replicate 17 TMain"

definition view :: "bench \<Rightarrow> (op_pc, drain_pc, op_result) guard_pc option list" where
  "view b = map (act (bw b)) [TMain, TConsumer, TProducer 0, TProducer 1]"

definition overlap_end :: "demo_inner soft_lock" where
  "overlap_end = \<lparr>content = demo_inner_new\<lparr>pending_submit := 1, queue := [1], next_id := 2, direct_items := 1,
       full_entries := 1, pend_entries := 1\<rparr>, pending = True, locked = False\<rparr>"

lemma overlap_run:
  "map_option (\<lambda>b. (mpc b, cpc b, view b, lk (bw b))) (run_schedule duo overlap bench_new) =
     Some (MJoin 0, CLoop, [None, None, None, None], overlap_end)"
  by code_simp

definition duo_counts :: counts where
  "duo_counts = \<lparr>ct_processed = 2, ct_pending = 0, ct_queue_left = 0, ct_full_entries = 1,
     ct_pend_entries = 1, ct_drained_items = 1, ct_drained_batches = 1\<rparr>"

lemma to_end_run:
  "map_option mpc (run_schedule duo to_end bench_new) = Some (MReturn duo_counts)"
  by code_simp

lemma consumer_exit_run:
  "map_option cpc (run_schedule duo (take 52 to_end) bench_new) = Some CExit"
  by code_simp

lemma holder_run:
  "map_option (\<lambda>b. map_option holds (act (bw b) (TProducer 0))) (run_schedule duo (take 6 overlap) bench_new) =
     Some (Some True)"
  by code_simp

lemma duo_fits: "fits duo"
  by (simp add: fits_def total_nat_def duo_def)

lemma reach_schedule:
  assumes "map_option f (run_schedule s ts bench_new) = Some x"
  obtains b where "bench_reach s b" and "f b = x"
  using assms run_schedule_reach [OF _ bench_start] by auto

section \<open>No thread is ever blocked\<close>

lemma access_enabled:
  assumes "bench_reach s b" and "in_call b t"
  shows "(\<exists>r. act (bw b) t = Some (Returned r) \<and> result_of t r) \<or> access_instr s fin t (bw b) \<noteq> None"
proof -
  note inv = bench_reach_call [OF assms(1)]
  from inv assms(2) obtain pc where pc: "act (bw b) t = Some pc" unfolding call_inv_def by blast
  show ?thesis
  proof (cases "guard_step (op_code s (total_ops_of s) fin) run_pended_op_code RpSwap (lk (bw b)) pc")
    case None
    with ex.never_blocked [OF bench_reach_access [OF assms(1)] demo_res_new pc] obtain r where "pc = Returned r"
      by blast
    with pc call_inv_ok [OF inv pc] show ?thesis by simp
  next
    case (Some x)
    with pc show ?thesis by (simp add: access_instr_def)
  qed
qed

lemma producer_enabled:
  assumes "bench_reach s b" and "ppc b p \<noteq> PNew" and "ppc b p \<noteq> PExit"
  shows "producer_step s p b \<noteq> None"
proof (cases "ppc b p")
  case (PCall i)
  with access_enabled [OF assms(1), of "TProducer p" "producers_done b"] show ?thesis
    by (auto simp: producer_step_def split: option.splits guard_pc.splits)
qed (use assms(2,3) in \<open>auto simp: producer_step_def\<close>)

lemma consumer_enabled:
  assumes "bench_reach s b" and "cpc b \<noteq> CNew" and "cpc b \<noteq> CExit"
  shows "consumer_step s b \<noteq> None"
proof (cases "cpc b")
  case CCall
  with access_enabled [OF assms(1), of TConsumer "producers_done b"] show ?thesis
    by (auto simp: consumer_step_def split: option.splits guard_pc.splits op_result.splits)
qed (use assms(2,3) in \<open>auto simp: consumer_step_def\<close>)

text \<open>The main thread only ever waits for a thread that it joins, and that thread can move.\<close>

lemma main_enabled:
  assumes "bench_reach s b"
  shows "main_step s b \<noteq> None \<or> (\<exists>ct. mpc b = MReturn ct) \<or> (\<exists>m. mpc b = MPanic m) \<or>
    (\<exists>p. ppc b p \<noteq> PNew \<and> ppc b p \<noteq> PExit) \<or> (cpc b \<noteq> CNew \<and> cpc b \<noteq> CExit)"
proof (cases "mpc b")
  case MCall
  with access_enabled [OF assms, of TMain "producers_done b"] show ?thesis
    by (auto simp: main_step_def split: option.splits guard_pc.splits op_result.splits report.splits)
next
  case (MJoin p)
  with bench_reach_ctl [OF assms] have "p < unat (producers s) \<Longrightarrow> ppc b p \<noteq> PNew"
    by (auto simp: ctl_inv_def)
  with MJoin show ?thesis by (auto simp: main_step_def)
next
  case MJoinConsumer
  with bench_reach_ctl [OF assms] have "cpc b \<noteq> CNew" by (auto simp: ctl_inv_def)
  with MJoinConsumer show ?thesis by (auto simp: main_step_def)
qed (auto simp: main_step_def)

section \<open>While the lock is free\<close>

lemma undrawn_when_free:
  assumes "bench_reach s b" and "\<not> locked (lk (bw b))"
  shows "outstanding s op_drawn drain_drawn (\<lambda>_. 0) (bw b) = 0"
proof -
  have "weight_opt op_drawn drain_drawn (\<lambda>_. 0) (act (bw b) t) = 0" for t
  proof (cases "act (bw b) t")
    case (Some pc)
    with bench_reach_lock [OF assms(1)] assms(2) have "\<not> holds pc"
      by (auto simp: lock_inv_def full_holder_def split: option.splits)
    moreover have "ex.region pc (content (lk (bw b)))"
      using bench_reach_region [OF assms(1)] Some by (simp add: ex.region_inv_def)
    moreover have "op_pend k \<Longrightarrow> op_drawn k = 0" for k by (cases k rule: op_pend.cases) auto
    ultimately show ?thesis using Some by (simp add: nonholder_weight)
  qed simp
  then show ?thesis by (simp add: outstanding_def)
qed

section \<open>The benchmark as a whole\<close>

text \<open>C1: whatever the scheduler does, \<open>run_softlock_bench\<close> never reaches \<open>unreachable!\<close> and none of its
  three assertions fails; when it returns, every operation has been processed exactly once in
  number, nothing is pending or queued, each operation entered by exactly one arm, and the
  release loop and the consumer together have drained exactly the pended ones, in batches none of
  which was empty.\<close>

theorem softlock_bench_report:
  assumes "fits s" and "bench_reach s b"
  shows "(\<forall>m. mpc b \<noteq> MPanic m) \<and>
    (\<forall>ct. mpc b = MReturn ct \<longrightarrow>
       ct_processed ct = total_ops_of s \<and> ct_pending ct = 0 \<and> ct_queue_left ct = 0 \<and>
       unat (ct_full_entries ct) + unat (ct_pend_entries ct) = total_nat s \<and>
       ct_drained_items ct = ct_pend_entries ct \<and>
       unat (ct_drained_batches ct) \<le> unat (ct_drained_items ct) \<and>
       (ct_drained_batches ct = 0 \<longleftrightarrow> ct_drained_items ct = 0))"
proof -
  have report: "unat (ct_full_entries ct) + unat (ct_pend_entries ct) = total_nat s \<and>
      unat (ct_drained_batches ct) \<le> unat (ct_drained_items ct) \<and>
      (ct_drained_batches ct = 0 \<longleftrightarrow> ct_drained_items ct = 0)" if "report_ok s ct" for ct
  proof -
    have i: "uint x = int (unat x)" for x :: usize by simp
    from that have "unat (ct_full_entries ct) + unat (ct_pend_entries ct) = total_nat s"
      "unat (ct_drained_batches ct) \<le> unat (ct_drained_items ct)"
      "ct_drained_batches ct = 0 \<longrightarrow> ct_drained_items ct = 0"
      unfolding report_ok_def i of_nat_le_iff of_nat_add [symmetric] of_nat_eq_iff by blast+
    then show ?thesis by (auto simp: unat_eq_zero)
  qed
  have "report_ok s ct \<Longrightarrow> ct_processed ct = total_ops_of s \<and> ct_pending ct = 0 \<and> ct_queue_left ct = 0 \<and>
      ct_drained_items ct = ct_pend_entries ct" for ct by (simp add: report_ok_def)
  with report show ?thesis
    using bench_reach_rep [OF assms(2,1)] unfolding rep_inv_def by blast
qed

theorem softlock_bench_report_witness:
  "\<exists>b. bench_reach duo b \<and> mpc b = MReturn duo_counts \<and>
     ct_processed duo_counts = total_ops_of duo \<and> ct_drained_items duo_counts = ct_pend_entries duo_counts"
proof -
  obtain b where "bench_reach duo b" "mpc b = MReturn duo_counts"
    by (rule reach_schedule [OF to_end_run])
  with softlock_bench_report [OF duo_fits] show ?thesis by blast
qed

text \<open>The benchmark never deadlocks and the soft-lock never blocks: in every reachable state a
  spawned producer that has not finished can take a step, so can the consumer, and as long as the
  main thread has not returned some thread can.\<close>

lemma softlock_bench_progress:
  assumes "fits s" and "bench_reach s b"
  shows "(\<forall>p. ppc b p \<noteq> PNew \<and> ppc b p \<noteq> PExit \<longrightarrow> bench_step s (TProducer p) b \<noteq> None) \<and>
    (cpc b \<noteq> CNew \<and> cpc b \<noteq> CExit \<longrightarrow> bench_step s TConsumer b \<noteq> None) \<and>
    ((\<forall>ct. mpc b \<noteq> MReturn ct) \<longrightarrow> (\<exists>t. bench_step s t b \<noteq> None))"
proof -
  note inv = bench_reach_ctl [OF assms(2)] bench_reach_call [OF assms(2)]
  have producer: "bench_step s (TProducer p) b \<noteq> None" if "ppc b p \<noteq> PNew" "ppc b p \<noteq> PExit" for p
    using that producer_enabled [OF assms(2)] by simp
  have consumer: "bench_step s TConsumer b \<noteq> None" if "cpc b \<noteq> CNew" "cpc b \<noteq> CExit"
    using that consumer_enabled [OF assms(2)] by simp
  have "\<exists>t. bench_step s t b \<noteq> None" if "\<forall>ct. mpc b \<noteq> MReturn ct"
    using main_enabled [OF assms(2)] bench_reach_rep [OF assms(2,1)] that producer consumer
    unfolding rep_inv_def by (metis bench_step.simps(1))
  with producer consumer show ?thesis by blast
qed

lemma softlock_bench_progress_witness:
  "\<exists>b. bench_reach duo b \<and> mpc b = MJoin 0 \<and> (\<exists>t. bench_step duo t b \<noteq> None)"
proof -
  obtain b where "bench_reach duo b" "(mpc b, cpc b, view b, lk (bw b)) =
      (MJoin 0, CLoop, [None, None, None, None], overlap_end)"
    by (rule reach_schedule [OF overlap_run])
  with softlock_bench_progress [OF duo_fits] show ?thesis by fastforce
qed

text \<open>First in, first out: whenever the lock is free, no thread is inside the queue's mutex and
  the queue holds exactly the ids that follow the processed ones, in order and without duplicates;
  so the items processed so far are the ids \<open>1 .. processed\<close>, each once.\<close>

lemma softlock_queue_fifo:
  assumes "fits s" and "bench_reach s b" and "\<not> locked (lk (bw b))"
  defines "c \<equiv> content (lk (bw b))"
  shows "\<not> queue_locked c \<and> queue c = ids (processed c + 1) (length (queue c)) \<and> distinct (queue c) \<and>
    unat (next_id c) = unat (processed c) + length (queue c) + 1"
proof -
  note acc = bench_reach_accounts [OF assms(2,1), unfolded acc_inv_def]
  note inv = bench_reach_ctl [OF assms(2)] bench_reach_call [OF assms(2)]
  have res: "demo_res c"
    using bench_reach_region [OF assms(2)] assms(3) by (simp add: ex.region_inv_def c_def)
  have "uint (next_id c) - 1 - uint (processed c) - int (length (queue c)) = 0"
    using acc undrawn_when_free [OF assms(2,3)] by (simp add: accounts_def bal_queue_def c_def)
  then have "int (unat (next_id c)) = int (unat (processed c) + length (queue c) + 1)" by simp
  then have n: "unat (next_id c) = unat (processed c) + length (queue c) + 1" by linarith
  then have "(of_nat (unat (next_id c)) :: u64) = of_nat (unat (processed c) + length (queue c) + 1)"
    by (rule arg_cong)
  then have id: "next_id c = processed c + of_nat (length (queue c)) + 1" by simp
  then have q: "queue c = ids (processed c + 1) (length (queue c))"
    using res by (simp add: demo_res_def fifo_def)
  have "length (queue c) \<le> 2 ^ 64" using n unsigned_less [of "next_id c", where 'a = nat] by simp
  then have "distinct (queue c)" by (subst q) (rule distinct_ids)
  with res q n show ?thesis by (simp add: demo_res_def)
qed

lemma softlock_queue_fifo_witness:
  "\<exists>b. bench_reach duo b \<and> queue (content (lk (bw b))) = [1] \<and> distinct (queue (content (lk (bw b))))"
proof -
  obtain b where b: "bench_reach duo b" and "(mpc b, cpc b, view b, lk (bw b)) =
      (MJoin 0, CLoop, [None, None, None, None], overlap_end)"
    by (rule reach_schedule [OF overlap_run])
  then have l: "lk (bw b) = overlap_end" by simp
  then have "\<not> locked (lk (bw b))" by (simp add: overlap_end_def)
  from softlock_queue_fifo [OF duo_fits b this] have "distinct (queue (content (lk (bw b))))" by blast
  moreover have "queue (content (lk (bw b))) = [1]" by (simp add: l overlap_end_def)
  ultimately show ?thesis using b by blast
qed

text \<open>C11: nothing is invented or lost in any reachable state: the operations that entered an arm are at
  most the scenario's total; direct submissions are at most the Full entries; recorded and drained
  intents are at most the PendOnly entries; processed and queued items are at most the ids handed
  out, and these at most the entries. No batch is empty: there are at most as many batches as drained
  items (one more while a thread is between the two counters, which it is under the lock), and no
  item without a batch. And no counter ever wraps around: whatever thread moves, the seven cumulative
  counters do not decrease as unsigned numbers, and the count of recorded intents only when
  it is taken over as a whole.\<close>

theorem softlock_counters:
  assumes "fits s" and "bench_reach s b"
  defines "c \<equiv> content (lk (bw b))"
  shows "unat (full_entries c) + unat (pend_entries c) \<le> total_nat s \<and>
    unat (direct_items c) \<le> unat (full_entries c) \<and>
    unat (pending_submit c) + unat (drained_items c) \<le> unat (pend_entries c) \<and>
    unat (processed c) + length (queue c) + 1 \<le> unat (next_id c) \<and>
    unat (next_id c) \<le> unat (full_entries c) + unat (pend_entries c) + 1 \<and>
    unat (drained_batches c) \<le> unat (drained_items c) + (if locked (lk (bw b)) then 1 else 0) \<and>
    (drained_batches c = 0 \<longrightarrow> drained_items c = 0) \<and>
    (\<forall>t b'. bench_step s t b = Some b' \<longrightarrow> counters_grow c (content (lk (bw b'))))"
proof -
  note acc = bench_reach_accounts [OF assms(2,1), unfolded acc_inv_def]
  note bound = entries_bound [OF acc bench_reach_ctl [OF assms(2)] bench_reach_call [OF assms(2)]]
  note cb = counter_bounds [OF acc order_refl, folded c_def, unfolded bal_entry_def]
  note batches = batches_bound [OF assms(2,1), folded c_def]
  have taken: "0 \<le> outstanding s op_taken drain_taken (\<lambda>_. 0) (bw b)"
    by (rule outstanding_nonneg; simp add: weights_nonneg)
  have i: "uint x = int (unat x)" for x :: "64 word" by simp
  from bound [unfolded bal_entry_def, folded c_def] cb taken
  have "unat (full_entries c) + unat (pend_entries c) \<le> total_nat s \<and>
    unat (direct_items c) \<le> unat (full_entries c) \<and>
    unat (pending_submit c) + unat (drained_items c) \<le> unat (pend_entries c) \<and>
    unat (processed c) + length (queue c) + 1 \<le> unat (next_id c) \<and>
    unat (next_id c) \<le> unat (full_entries c) + unat (pend_entries c) + 1"
    unfolding i by linarith
  moreover have "\<forall>t b'. bench_step s t b = Some b' \<longrightarrow> counters_grow c (content (lk (bw b')))"
    using bench_counters_grow [OF _ assms(2,1)] by (simp add: c_def)
  ultimately show ?thesis using batches(1-3) by simp
qed

lemma entered_run:
  "map_option (\<lambda>b. (pend_entries (content (lk (bw b))), bench_step duo (TProducer 1) b = None))
     (run_schedule duo (take 9 overlap) bench_new) = Some (1, False)"
  by code_simp

theorem softlock_counters_witness:
  "\<exists>b b'. bench_reach duo b \<and> pend_entries (content (lk (bw b))) = 1 \<and>
     unat (next_id (content (lk (bw b)))) \<le> 3 \<and> bench_step duo (TProducer 1) b = Some b' \<and>
     counters_grow (content (lk (bw b))) (content (lk (bw b')))"
proof -
  obtain b where b: "bench_reach duo b"
    and v: "(pend_entries (content (lk (bw b))), bench_step duo (TProducer 1) b = None) = (1, False)"
    by (rule reach_schedule [OF entered_run])
  note c = softlock_counters [OF duo_fits b]
  from v obtain b' where b': "bench_step duo (TProducer 1) b = Some b'" by (cases "bench_step duo (TProducer 1) b") auto
  moreover have "total_nat duo = 2" by (simp add: total_nat_def duo_def)
  with c have "unat (next_id (content (lk (bw b)))) \<le> 3" by linarith
  moreover have "counters_grow (content (lk (bw b))) (content (lk (bw b')))" using c b' by blast
  ultimately show ?thesis using b v by blast
qed

text \<open>C12: the consumer's loop stops only when everything has been processed, although it decides with
  loads that other threads interleave with.\<close>

theorem softlock_consumer_exit:
  assumes "fits s" and "bench_reach s b" and "cpc b = CExit"
  shows "unat (processed (content (lk (bw b)))) = total_nat s"
  using bench_reach_con [OF assms(2,1)] assms(3)
  by (auto simp: con_inv_def all_processed_def dest: arg_cong [of _ _ nat])

theorem softlock_consumer_exit_witness:
  "\<exists>b. bench_reach duo b \<and> cpc b = CExit \<and> unat (processed (content (lk (bw b)))) = 2"
proof -
  obtain b where b: "bench_reach duo b" and "cpc b = CExit"
    by (rule reach_schedule [OF consumer_exit_run])
  with softlock_consumer_exit [OF duo_fits] show ?thesis
    by (intro exI [of _ b]) (simp add: total_nat_def duo_def)
qed

text \<open>The benchmark is an instance of the generic soft-lock: every step of a thread is either local
  to it or one step of the world of accesses (entering, one instruction of \<open>with_access\<close>, leaving).\<close>

lemma softlock_bench_refines:
  assumes "bench_reach s b" and "bench_step s t b = Some b'"
  shows "bw b' = bw b \<or>
    access_step (op_code s (total_ops_of s)) run_pended_op_code RpSwap bench_arms (bw b) (bw b')"
  using bench_step_refines [OF assms(2) bench_reach_call [OF assms(1)]] .

lemma softlock_bench_refines_witness:
  "\<exists>b b'. bench_step duo TMain b = Some b' \<and>
     (bw b' = bw b \<or>
      access_step (op_code duo (total_ops_of duo)) run_pended_op_code RpSwap bench_arms (bw b) (bw b'))"
proof -
  have "bench_step duo TMain bench_new = Some (bench_new\<lparr>cpc := CLoop, mpc := MSpawn 0\<rparr>)"
    by (simp add: main_step_def bench_new_def)
  from softlock_bench_refines [OF bench_start this] this show ?thesis by blast
qed

section \<open>Typing\<close>

text \<open>
  The types of the source, read as a judgement on program points: a thread runs its own closure, the
  arm that runs on the Full accessor is the one of a guard that holds the lock, the other one that of a
  guard that does not, and the value that is returned is one of the thread's closure.
\<close>

fun arm_typed :: "(op_pc, drain_pc, op_result) guard_pc \<Rightarrow> bool" where
  "arm_typed (AtGuard f p) = (\<not> op_pend f \<and> op_pend p)"
| "arm_typed (InOp held k) = (held = (\<not> op_pend k))"
| "arm_typed _ = True"

definition access_typed :: "tid \<Rightarrow> (op_pc, drain_pc, op_result) guard_pc \<Rightarrow> bool" where
  "access_typed t pc \<longleftrightarrow> thread_ok t pc \<and> arm_typed pc"

lemma region_typed: "ex.region pc c \<Longrightarrow> arm_typed pc"
proof -
  have "op_own k c \<Longrightarrow> \<not> op_pend k" for k by (cases "(k, c)" rule: op_own.cases) auto
  then show "ex.region pc c \<Longrightarrow> ?thesis" by (cases pc) (auto simp: bench_arms_def split: if_splits)
qed

lemma nonholder_frame:
  assumes "guard_step (op_code s T e) run_pended_op_code RpSwap l pc = Some (l', pc')"
    and "ex.region pc (content l)" and "\<not> holds pc"
  shows "same_full_state (content l) (content l')"
proof (cases pc)
  case (InOp held k)
  with assms have "op_pend k" by simp
  with assms(1) InOp show ?thesis
    by (auto intro: op_pend_frame split: option.splits sum.splits prod.splits)
qed (use assms in \<open>auto simp: same_full_state_def guard_def split: if_splits\<close>)

lemma typed_step:
  assumes "bench_reach s b" and pc: "act (bw b) t = Some pc"
    and step: "guard_step (op_code s (total_ops_of s) e) run_pended_op_code RpSwap (lk (bw b)) pc = Some (l', pc')"
  shows "access_typed t pc'"
proof -
  have region: "ex.region pc (content (lk (bw b)))" "\<not> locked (lk (bw b)) \<longrightarrow> demo_res (content (lk (bw b)))"
    using bench_reach_region [OF assms(1)] pc by (simp_all add: ex.region_inv_def)
  have "holds pc \<Longrightarrow> locked (lk (bw b))"
    using bench_reach_lock [OF assms(1)] pc by (auto simp: lock_inv_def full_holder_def split: option.splits)
  from ex.region_owner_step(1) [OF step region this] have "arm_typed pc'" by (rule region_typed)
  with thread_ok_step [OF call_inv_ok [OF bench_reach_call [OF assms(1)] pc] step] show ?thesis
    by (simp add: access_typed_def)
qed

text \<open>C10: type soundness of the accesses: in every reachable state a thread inside \<open>with_access\<close> is at a
  well-typed program point. Unless it stands at the return with a value of its closure's type, its next
  instruction can be executed, whatever the other threads do, leads to a well-typed point, and, if the
  thread does not own the lock, changes nothing of \<open>DemoInner\<close> but \<open>pending_submit\<close> and \<open>pend_entries\<close>.\<close>

theorem softlock_access_typed:
  assumes "bench_reach s b" and "act (bw b) t = Some pc"
  shows "access_typed t pc \<and>
    ((\<exists>r. pc = Returned r \<and> result_of t r) \<or>
     (\<exists>l' pc'. guard_step (op_code s (total_ops_of s) e) run_pended_op_code RpSwap (lk (bw b)) pc = Some (l', pc') \<and>
        access_typed t pc' \<and> (holds pc \<or> same_full_state (content (lk (bw b))) (content l'))))"
proof -
  have region: "ex.region pc (content (lk (bw b)))"
    using bench_reach_region [OF assms(1)] assms(2) by (simp add: ex.region_inv_def)
  have ok: "thread_ok t pc" by (rule call_inv_ok [OF bench_reach_call [OF assms(1)] assms(2)])
  have typed: "access_typed t pc" using ok region_typed [OF region] by (simp add: access_typed_def)
  show ?thesis
  proof (cases "guard_step (op_code s (total_ops_of s) e) run_pended_op_code RpSwap (lk (bw b)) pc")
    case None
    with ex.never_blocked [OF bench_reach_access [OF assms(1)] demo_res_new assms(2)] obtain r where "pc = Returned r"
      by blast
    with ok typed show ?thesis by simp
  next
    case (Some x)
    then obtain l' pc' where "guard_step (op_code s (total_ops_of s) e) run_pended_op_code RpSwap (lk (bw b)) pc = Some (l', pc')"
      by (cases x) simp
    with typed_step [OF assms this] nonholder_frame [OF this region] typed show ?thesis by blast
  qed
qed

lemma pending_arm_run:
  "map_option (\<lambda>b. act (bw b) (TProducer 1)) (run_schedule duo (take 9 overlap) bench_new) =
     Some (Some (InOp False (OpProducer PrPendSubmit)))"
  by code_simp

theorem softlock_access_typed_witness:
  "\<exists>b. bench_reach duo b \<and> access_typed (TProducer 1) (InOp False (OpProducer PrPendSubmit)) \<and>
     (\<exists>l' pc'. guard_step (op_code duo (total_ops_of duo) False) run_pended_op_code RpSwap (lk (bw b))
        (InOp False (OpProducer PrPendSubmit)) = Some (l', pc') \<and> same_full_state (content (lk (bw b))) (content l'))"
proof -
  obtain b where b: "bench_reach duo b" and "act (bw b) (TProducer 1) = Some (InOp False (OpProducer PrPendSubmit))"
    by (rule reach_schedule [OF pending_arm_run])
  from softlock_access_typed [OF this, of False] b show ?thesis by fastforce
qed

section \<open>The lock among threads\<close>

text \<open>C7: mutual exclusion, for any content, any closures and any number of threads: the lock bit is
  set exactly while some access owns Full access, and no two accesses own it at the same time.\<close>

theorem softlock_mutual_exclusion:
  assumes "access_reach os ds d0 arms c0 w"
  shows "(locked (lk w) \<longleftrightarrow> (\<exists>t. full_holder w t)) \<and> (\<forall>t u. full_holder w t \<longrightarrow> full_holder w u \<longrightarrow> t = u)"
  using lock_inv_reach [OF assms] by (simp add: lock_inv_def)

theorem softlock_mutual_exclusion_witness:
  "\<exists>b. bench_reach duo b \<and> full_holder (bw b) (TProducer 0) \<and> \<not> full_holder (bw b) (TProducer 1)"
proof -
  obtain b where b: "bench_reach duo b" and "map_option holds (act (bw b) (TProducer 0)) = Some True"
    by (rule reach_schedule [OF holder_run])
  then have h: "full_holder (bw b) (TProducer 0)" by (auto simp: full_holder_def)
  note softlock_mutual_exclusion [OF bench_reach_access [OF b], THEN conjunct2]
  with h have "\<not> full_holder (bw b) (TProducer 1)" by fastforce
  with b h show ?thesis by blast
qed

text \<open>C16: what the protocol promises to threads about recorded intents: once no access is in progress,
  intents that are still recorded in \<open>DemoInner\<close> are announced by the pending flag, so that the next
  Full access runs them.\<close>

theorem softlock_backlog_flagged:
  assumes "bench_reach s b" and "\<forall>t pc. act (bw b) t = Some pc \<longrightarrow> (\<exists>r. pc = Returned r)"
    and "pending_submit (content (lk (bw b))) \<noteq> 0"
  shows "pending (lk (bw b)) \<and> \<not> locked (lk (bw b))"
proof -
  have "demo_backlog demo_inner_new = 0" by (simp add: demo_backlog_def demo_inner_new_def)
  moreover have "0 < demo_backlog (content (lk (bw b)))"
    using assms(3) by (simp add: demo_backlog_def unat_gt_0)
  ultimately have "pending (lk (bw b))"
    using dl.quiescent_backlog_flagged [OF bench_reach_access [OF assms(1)]] assms(2) by blast
  moreover have "\<not> full_holder (bw b) t" for t
    using assms(2) by (fastforce simp: full_holder_def split: option.splits)
  ultimately show ?thesis using bench_reach_lock [OF assms(1)] by (simp add: lock_inv_def)
qed

text \<open>The state that the schedule \<open>overlap\<close> leads to.\<close>

lemma overlap_quiet:
  assumes "bench_reach duo b" and "(mpc b, cpc b, view b, lk (bw b)) =
      (MJoin 0, CLoop, [None, None, None, None], overlap_end)"
  shows "act (bw b) t = None"
proof (cases t)
  case (TProducer p)
  show ?thesis
  proof (cases "p < 2")
    case True
    then have "p = 0 \<or> p = 1" by auto
    with TProducer assms(2) show ?thesis by (auto simp: view_def)
  next
    case False
    then have "ppc b p = PNew"
      using bench_reach_ctl [OF assms(1)] assms(2) by (simp add: ctl_inv_def duo_def)
    with TProducer show ?thesis by (intro call_inv_None [OF bench_reach_call [OF assms(1)]]) simp
  qed
qed (use assms(2) in \<open>simp_all add: view_def\<close>)

theorem softlock_backlog_flagged_witness:
  "\<exists>b. bench_reach duo b \<and> pending_submit (content (lk (bw b))) = 1 \<and> pending (lk (bw b))"
proof -
  obtain b where b: "bench_reach duo b" and v: "(mpc b, cpc b, view b, lk (bw b)) =
      (MJoin 0, CLoop, [None, None, None, None], overlap_end)"
    by (rule reach_schedule [OF overlap_run])
  have "act (bw b) t = None" for t by (rule overlap_quiet [OF b v])
  moreover have l: "lk (bw b) = overlap_end" using v by simp
  ultimately have "pending (lk (bw b)) \<and> \<not> locked (lk (bw b))"
    by (intro softlock_backlog_flagged [OF b]) (simp_all add: overlap_end_def)
  with b l show ?thesis by (intro exI [of _ b]) (simp add: overlap_end_def)
qed

text \<open>C17: but among threads the flag is all there is: a reachable state of the benchmark has a recorded
  intent, the flag up, the lock free and no access in progress, so neither the winner of the lock
  nor the thread that recorded the intent is going to execute it; only a later Full access will.\<close>

theorem softlock_intent_outlives_accesses:
  "\<exists>b. bench_reach duo b \<and> (\<forall>t. act (bw b) t = None) \<and> \<not> locked (lk (bw b)) \<and> pending (lk (bw b)) \<and>
     pending_submit (content (lk (bw b))) = 1 \<and> full_entries (content (lk (bw b))) = 1"
proof -
  obtain b where b: "bench_reach duo b" and v: "(mpc b, cpc b, view b, lk (bw b)) =
      (MJoin 0, CLoop, [None, None, None, None], overlap_end)"
    by (rule reach_schedule [OF overlap_run])
  then have "lk (bw b) = overlap_end" by simp
  with b overlap_quiet [OF b v] show ?thesis by (intro exI [of _ b]) (simp add: overlap_end_def)
qed

section \<open>The lock under interrupts\<close>

text \<open>C5: under the interrupt discipline (handlers nest and run to completion), no intent recorded by any
  handler is lost: once the outermost access has returned, the lock is free, the flag is down and
  \<open>pending_submit\<close> is zero.\<close>

theorem isr_no_intent_lost:
  assumes "isr_reach (op_code s T) run_pended_op_code RpSwap bench_arms demo_inner_new (l, [])"
  shows "\<not> locked l \<and> \<not> pending l \<and> pending_submit (content l) = 0"
  using dl.isr_quiescent [OF assms] by (simp add: demo_backlog_def demo_inner_new_def unat_eq_zero)

text \<open>Runs of nested accesses: each move is an interrupt, one instruction of the top access, or a return.\<close>

datatype isr_move = Preempt op_pc op_pc | Execute | Resume

fun isr_run :: "scenario \<Rightarrow> usize \<Rightarrow> isr_move list \<Rightarrow> (demo_inner, op_pc, drain_pc, op_result) nest
    \<Rightarrow> (demo_inner, op_pc, drain_pc, op_result) nest option" where
  "isr_run s T [] w = Some w"
| "isr_run s T (Preempt f p # ms) (l, pcs) =
     (if bench_arms f p then isr_run s T ms (l, AtGuard f p # pcs) else None)"
| "isr_run s T (Execute # ms) (l, pc # pcs) =
     (case guard_step (op_code s T False) run_pended_op_code RpSwap l pc of
        None \<Rightarrow> None
      | Some (l', pc') \<Rightarrow> isr_run s T ms (l', pc' # pcs))"
| "isr_run s T (Resume # ms) (l, Returned r # pcs) = isr_run s T ms (l, pcs)"
| "isr_run s T _ _ = None"

lemma isr_moves:
  assumes "isr_reach (op_code s T) run_pended_op_code RpSwap bench_arms c0 w"
  shows "w = (l, pcs) \<Longrightarrow> bench_arms f p \<Longrightarrow>
      isr_reach (op_code s T) run_pended_op_code RpSwap bench_arms c0 (l, AtGuard f p # pcs)"
    and "w = (l, pc # pcs) \<Longrightarrow> guard_step (op_code s T e) run_pended_op_code RpSwap l pc = Some (l', pc') \<Longrightarrow>
      isr_reach (op_code s T) run_pended_op_code RpSwap bench_arms c0 (l', pc' # pcs)"
    and "w = (l, Returned r # pcs) \<Longrightarrow>
      isr_reach (op_code s T) run_pended_op_code RpSwap bench_arms c0 (l, pcs)"
  using assms by (auto intro: isr_next preempt execute resume)

lemma isr_run_reach:
  "isr_run s T ms w = Some w' \<Longrightarrow> isr_reach (op_code s T) run_pended_op_code RpSwap bench_arms c0 w \<Longrightarrow>
   isr_reach (op_code s T) run_pended_op_code RpSwap bench_arms c0 w'"
  by (induction s T ms w rule: isr_run.induct)
    (auto split: option.splits if_splits prod.splits dest: isr_moves)

text \<open>
  A producer's Full access is interrupted right before it hands the lock back, after its last look at
  the flag: the handler's PendOnly access records an intent and returns, and the interrupted release
  loop finds it.
\<close>

abbreviation "producer_isr \<equiv> Preempt (OpProducer PrFull) (OpProducer PrPend)"

definition interrupted :: "isr_move list" where
  "interrupted = producer_isr # replicate 8 Execute @ producer_isr # replicate 4 Execute @ Resume #
     replicate 13 Execute @ [Resume]"

lemma interrupted_run:
  "isr_run duo 2 interrupted (soft_lock_new demo_inner_new, []) =
     Some (soft_lock_new (demo_inner_new\<lparr>queue := [1, 2], next_id := 3, direct_items := 1, full_entries := 1,
       pend_entries := 1, drained_items := 1, drained_batches := 1\<rparr>), [])"
  by code_simp

theorem isr_no_intent_lost_witness:
  "\<exists>l. isr_reach (op_code duo 2) run_pended_op_code RpSwap bench_arms demo_inner_new (l, []) \<and>
     pend_entries (content l) = 1 \<and> queue (content l) = [1, 2] \<and> \<not> pending l"
  using isr_no_intent_lost [OF isr_run_reach [OF interrupted_run isr_new]]
    isr_run_reach [OF interrupted_run isr_new]
  by (intro exI conjI) (assumption | simp add: soft_lock_new_def)+

text \<open>Under the interrupt discipline the reacquiring loop of \<open>AccessGuard::drop\<close> never spins: whenever
  an access executes its compare-and-exchange, it succeeds at once. (This holds for any content.)\<close>

lemma isr_reacquire_succeeds:
  assumes "isr_reach os ds d0 arms c0 (l, AtReacquire r # pcs)"
  shows "guard_step (os e) ds d0 l (AtReacquire r) = Some (l\<lparr>locked := True\<rparr>, AtSwap r)"
  using reacquire_free [OF assms] by (simp add: guard_simps)

definition caught :: "isr_move list" where
  "caught = producer_isr # replicate 8 Execute @ producer_isr # replicate 4 Execute @ Resume #
     replicate 2 Execute"

definition caught_lock :: "demo_inner soft_lock" where
  "caught_lock = \<lparr>content = demo_inner_new\<lparr>pending_submit := 1, queue := [1], next_id := 2,
     direct_items := 1, full_entries := 1, pend_entries := 1\<rparr>, pending = True, locked = False\<rparr>"

lemma caught_isr_run:
  "isr_run duo 2 caught (soft_lock_new demo_inner_new, []) = Some (caught_lock, [AtReacquire RProducer])"
  by code_simp

lemma isr_reacquire_succeeds_witness:
  "guard_step (op_code duo 2 False) run_pended_op_code RpSwap caught_lock (AtReacquire RProducer) =
     Some (caught_lock\<lparr>locked := True\<rparr>, AtSwap RProducer)"
  by (rule isr_reacquire_succeeds [OF isr_run_reach [OF caught_isr_run isr_new]])

section \<open>What the functions compute\<close>

text \<open>\<open>run_pended_op\<close>, executed instruction by instruction, terminates and does exactly this: it takes
  the recorded count to zero; if it was not zero, it counts one batch and that many drained items, and
  appends that many consecutive ids to the queue.\<close>

lemma run_pended_op_computes:
  assumes "\<not> queue_locked c"
  shows "runs run_pended_op_code RpSwap c c' u \<longleftrightarrow> c' = run_pended_op_spec c"
  using run_pended_op_runs [OF assms] by (auto dest: runs_deterministic)

lemma run_pended_op_computes_witness:
  "runs run_pended_op_code RpSwap (demo_inner_new\<lparr>pending_submit := 3\<rparr>)
     (demo_inner_new\<lparr>queue := [1, 2, 3], next_id := 4, drained_items := 3, drained_batches := 1\<rparr>) ()"
proof -
  let ?c = "demo_inner_new\<lparr>pending_submit := 3\<rparr>"
  have "run_pended_op_spec ?c =
      demo_inner_new\<lparr>queue := [1, 2, 3], next_id := 4, drained_items := 3, drained_batches := 1\<rparr>"
    by (simp add: run_pended_op_spec_def demo_inner_new_def ids_def upt_rec)
  then show ?thesis
    using run_pended_op_computes [of ?c "run_pended_op_spec ?c" "()"] by (simp add: demo_inner_new_def)
qed

text \<open>\<open>process_some(budget)\<close> terminates, removes the oldest \<open>min(budget, queue length)\<close> items, counts them
  as processed and returns their number, and changes nothing else.\<close>

lemma process_some_computes:
  assumes "\<not> queue_locked c"
  shows "runs process_some_code (PsLock budget) c c' n \<longleftrightarrow> (c', n) = process_some_spec budget c"
  using process_some_runs [OF assms, of budget] by (metis runs_deterministic prod.collapse prod.inject)

lemma process_some_computes_witness:
  "runs process_some_code (PsLock 2) (demo_inner_new\<lparr>queue := [5, 6, 7]\<rparr>)
     (demo_inner_new\<lparr>queue := [7], processed := 2\<rparr>) 2"
proof -
  let ?c = "demo_inner_new\<lparr>queue := [5, 6, 7]\<rparr>"
  have "process_some_spec 2 ?c = (demo_inner_new\<lparr>queue := [7], processed := 2\<rparr>, 2)"
    by code_simp
  then show ?thesis using process_some_computes [of ?c 2] by (simp add: demo_inner_new_def)
qed

text \<open>C13: a producer's \<open>with_access\<close> that nothing interrupts returns, whatever the state of the lock: if
  the lock is free it submits one id directly and, if the flag was up, then drains all recorded
  intents, and leaves lock and flag down; if the lock is taken it records one intent and raises the flag.\<close>

theorem producer_access_computes:
  assumes "\<not> queue_locked (content l)"
  shows "guard_runs (op_code s T e) run_pended_op_code RpSwap l
      (AtGuard (OpProducer PrFull) (OpProducer PrPend)) l' r \<longleftrightarrow>
    (l', r) = with_access_spec (\<lambda>c. (producer_full_spec c, RProducer)) (\<lambda>c. (producer_pend_spec c, RProducer))
      run_pended_op_spec l"
  using assms op_producer_runs [OF producer_full_runs [OF assms]] op_producer_runs [OF producer_pend_runs]
  by (intro guard_runs_with_access_iff) (simp_all add: run_pended_op_runs producer_full_spec_def)

theorem producer_access_computes_witness:
  "guard_runs (op_code duo 2 False) run_pended_op_code RpSwap overlap_end
     (AtGuard (OpProducer PrFull) (OpProducer PrPend))
     (soft_lock_new (demo_inner_new\<lparr>queue := [1, 2, 3], next_id := 4, direct_items := 2, full_entries := 2,
       pend_entries := 1, drained_items := 1, drained_batches := 1\<rparr>)) RProducer"
  by (subst producer_access_computes)
    (simp_all add: overlap_end_def with_access_spec_def producer_full_spec_def submit_direct_spec_def
      run_pended_op_spec_def soft_lock_new_def demo_inner_new_def ids_def)

text \<open>C14: the same for the consumer's \<open>with_access\<close>: on a free lock it drains the recorded intents, processes
  up to its budget, and asks to be called again unless everything is processed or the producers have
  finished and nothing is recorded or queued; on a taken lock it changes nothing but the flag.\<close>

theorem consumer_access_computes:
  assumes "\<not> queue_locked (content l)"
  shows "guard_runs (op_code s T e) run_pended_op_code RpSwap l
      (AtGuard (OpConsumer CoLoad) (OpConsumer CoPendOnly)) l' r \<longleftrightarrow>
    (l', r) = with_access_spec (\<lambda>c. map_prod id RConsumer (consumer_full_spec s T e c))
      (\<lambda>c. (c, RConsumer True)) run_pended_op_spec l"
  by (rule guard_runs_with_access_iff)
    (simp_all add: assms op_consumer_runs consumer_full_runs op_consumer_pend_runs run_pended_op_runs,
      simp add: consumer_full_spec_def Let_def run_pended_op_runs assms)

theorem consumer_access_computes_witness:
  "guard_runs (op_code duo 2 True) run_pended_op_code RpSwap overlap_end
     (AtGuard (OpConsumer CoLoad) (OpConsumer CoPendOnly))
     (soft_lock_new (demo_inner_new\<lparr>processed := 2, next_id := 3, direct_items := 1, full_entries := 1,
       pend_entries := 1, drained_items := 1, drained_batches := 1\<rparr>)) (RConsumer False)"
  by (subst consumer_access_computes)
    (simp_all add: overlap_end_def with_access_spec_def consumer_full_spec_def process_some_spec_def
      run_pended_op_spec_def soft_lock_new_def demo_inner_new_def ids_def duo_def)

text \<open>The type separation of the accessors: an arm that runs without owning the lock changes nothing of
  \<open>DemoInner\<close> but \<open>pending_submit\<close> and \<open>pend_entries\<close>, at any of its instructions; it stays within its arm
  and never waits for the queue's mutex.\<close>

lemma pend_only_frame:
  assumes "op_pend k"
  shows "op_code s T e k c \<noteq> None \<and>
    (\<forall>c' x. op_code s T e k c = Some (c', x) \<longrightarrow>
       c' = c\<lparr>pending_submit := pending_submit c', pend_entries := pend_entries c'\<rparr> \<and>
       (\<forall>k'. x = Inl k' \<longrightarrow> op_pend k'))"
  using op_enabled(2) [OF assms] op_pend_frame [OF assms] op_pend_next [OF assms]
  unfolding same_full_state_def by blast

lemma pend_only_frame_witness:
  "op_pend (OpProducer PrPendSubmit) \<and>
   op_code duo 2 False (OpProducer PrPendSubmit) (demo_inner_new\<lparr>queue_locked := True\<rparr>) \<noteq> None"
  using pend_only_frame [of "OpProducer PrPendSubmit" duo 2 False "demo_inner_new\<lparr>queue_locked := True\<rparr>"] by simp

end
