(* ===== verification/Fairness.thy ===== *)
theory Fairness
  imports Schedules
begin

text \<open>
  Infinite runs of interleaved threads, and strong fairness: a thread that can move infinitely often does.
  Two principles: when all threads but one lower a measure, from some point on only that one
  moves; and a schedule that leads back to the same state gives a run.
\<close>

section \<open>Runs\<close>

text \<open>\<open>who i\<close> moves in the \<open>i\<close>-th step, from the state \<open>run i\<close>.\<close>

definition infinite_run :: "('t \<Rightarrow> 'b \<Rightarrow> 'b option) \<Rightarrow> (nat \<Rightarrow> 't) \<Rightarrow> (nat \<Rightarrow> 'b) \<Rightarrow> bool" where
  "infinite_run step who run \<longleftrightarrow> (\<forall>i. step (who i) (run i) = Some (run (Suc i)))"

definition fair_run :: "('t \<Rightarrow> 'b \<Rightarrow> 'b option) \<Rightarrow> (nat \<Rightarrow> 't) \<Rightarrow> (nat \<Rightarrow> 'b) \<Rightarrow> bool" where
  "fair_run step who run \<longleftrightarrow> infinite_run step who run \<and>
     (\<forall>t. (\<forall>n. \<exists>i\<ge>n. step t (run i) \<noteq> None) \<longrightarrow> (\<forall>n. \<exists>i\<ge>n. who i = t))"

lemma infinite_run_step: "infinite_run step who run \<Longrightarrow> step (who i) (run i) = Some (run (Suc i))"
  by (simp add: infinite_run_def)

lemma infinite_run_inv:
  assumes "infinite_run step who run" and "keep (run 0)" and "\<And>t b b'. keep b \<Longrightarrow> step t b = Some b' \<Longrightarrow> keep b'"
  shows "keep (run i)"
  by (induction i) (use assms infinite_run_step in blast)+

lemma no_descent:
  fixes f :: "nat \<Rightarrow> nat"
  assumes "\<And>i. n \<le> i \<Longrightarrow> f (Suc i) < f i"
  shows False
proof -
  have "f (n + k) + k \<le> f n" for k
  proof (induction k)
    case (Suc k)
    with assms [of "n + k"] show ?case by simp
  qed simp
  from this [of "Suc (f n)"] show False by simp
qed

section \<open>Only one thread in the end\<close>

lemma run_settles:
  fixes f :: "'b \<Rightarrow> nat"
  assumes "\<And>i. who i \<noteq> t \<Longrightarrow> f (run (Suc i)) < f (run i)" and "\<And>i. who i = t \<Longrightarrow> f (run (Suc i)) \<le> f (run i)"
  obtains n where "\<And>i. n \<le> i \<Longrightarrow> who i = t"
proof -
  have down: "f (run (Suc i)) \<le> f (run i)" for i using assms [of i] by (cases "who i = t") auto
  obtain n where least: "\<And>i. f (run n) \<le> f (run i)"
    using ex_has_least_nat [of "\<lambda>_. True" 0 "\<lambda>i. f (run i)"] by auto
  have "who i = t" if "n \<le> i" for i
  proof (rule ccontr)
    assume "who i \<noteq> t"
    have "f (run i) \<le> f (run n)" using that down by (rule lift_Suc_antimono_le [of "\<lambda>i. f (run i)", rotated])
    with assms(1) [OF \<open>who i \<noteq> t\<close>] least [of "Suc i"] show False by simp
  qed
  with that show ?thesis by blast
qed

lemma others_disabled:
  assumes fair: "fair_run step who run" and "\<And>i. n \<le> i \<Longrightarrow> who i = t" and "finite T" and "t \<notin> T"
  obtains n' where "n \<le> n'" and "\<And>i u. n' \<le> i \<Longrightarrow> u \<in> T \<Longrightarrow> step u (run i) = None"
proof -
  from \<open>finite T\<close> \<open>t \<notin> T\<close> have "\<exists>n'\<ge>n. \<forall>i\<ge>n'. \<forall>u\<in>T. step u (run i) = None"
  proof (induction T)
    case empty
    show ?case by blast
  next
    case (insert u T)
    then obtain n1 where n1: "n \<le> n1" "\<forall>i\<ge>n1. \<forall>v\<in>T. step v (run i) = None" by auto
    have "\<not> (\<forall>m. \<exists>i\<ge>m. who i = u)" using assms(2) insert.prems by (metis insertI1)
    then obtain n2 where "\<forall>i\<ge>n2. step u (run i) = None" using fair unfolding fair_run_def by meson
    with n1 show ?case by (intro exI [of _ "max n1 n2"]) simp
  qed
  with that show ?thesis by blast
qed

section \<open>A run from a schedule that repeats\<close>

lemma fair_run_Cons:
  assumes step: "step t b = Some (run 0)" and fair: "fair_run step who run"
  shows "fair_run step (case_nat t who) (case_nat b run)"
proof -
  have "infinite_run step (case_nat t who) (case_nat b run)"
    using assms by (auto simp: infinite_run_def fair_run_def split: nat.split)
  moreover have "\<exists>i\<ge>n. case_nat t who i = u" if "\<forall>n. \<exists>i\<ge>n. step u (case_nat b run i) \<noteq> None" for u n
  proof -
    have "\<exists>i\<ge>m. step u (run i) \<noteq> None" for m
    proof -
      from that obtain i where "Suc m \<le> i" "step u (case_nat b run i) \<noteq> None" by blast
      then show ?thesis by (cases i) auto
    qed
    with fair obtain i where "n \<le> i" "who i = u" unfolding fair_run_def by blast
    then show ?thesis by (intro exI [of _ "Suc i"]) simp
  qed
  ultimately show ?thesis by (simp add: fair_run_def)
qed

lemma fair_run_prefix:
  assumes "run_steps step ts b = Some (run 0)" and "fair_run step who run"
  shows "\<exists>who' run'. fair_run step who' run' \<and> run' 0 = b \<and> (\<forall>i. run' (length ts + i) = run i)"
  using assms(1)
proof (induction ts arbitrary: b)
  case Nil
  with assms(2) show ?case by (intro exI [of _ who] exI [of _ run]) simp
next
  case (Cons t ts)
  then obtain b1 where step: "step t b = Some b1" and "run_steps step ts b1 = Some (run 0)"
    by (auto split: option.splits)
  from Cons.IH [OF this(2)] obtain who' run' where
    r: "fair_run step who' run'" "run' 0 = b1" "\<forall>i. run' (length ts + i) = run i" by blast
  with fair_run_Cons [of step t b run' who'] step show ?case
    by (intro exI [of _ "case_nat t who'"] exI [of _ "case_nat b run'"]) simp
qed

lemma run_steps_take:
  assumes "run_steps step ts b = Some b'" and "j < length ts"
  shows "\<exists>x y. run_steps step (take j ts) b = Some x \<and> step (ts ! j) x = Some y \<and>
    run_steps step (take (Suc j) ts) b = Some y"
  using assms
proof (induction ts arbitrary: b j)
  case (Cons t ts)
  then obtain b1 where "step t b = Some b1" "run_steps step ts b1 = Some b'" by (auto split: option.splits)
  with Cons.IH [of b1 "j - 1"] Cons.prems(2) show ?case by (cases j) auto
qed simp

lemma cycle_run:
  assumes cycle: "run_steps step ts b = Some b" and "ts \<noteq> []"
    and others: "\<And>j t. j < length ts \<Longrightarrow> t \<notin> set ts \<Longrightarrow> step t (the (run_steps step (take j ts) b)) = None"
  defines "run \<equiv> \<lambda>i. the (run_steps step (take (i mod length ts) ts) b)"
  shows "fair_run step (\<lambda>i. ts ! (i mod length ts)) run" and "run 0 = b"
proof -
  let ?n = "length ts"
  have n: "0 < ?n" using assms(2) by simp
  have in_cycle: "i mod ?n < ?n" for i using n by simp
  show "run 0 = b" by (simp add: run_def)
  have "step (ts ! (i mod ?n)) (run i) = Some (run (Suc i))" for i
  proof -
    from run_steps_take [OF cycle in_cycle [of i]] obtain y where
      y: "step (ts ! (i mod ?n)) (run i) = Some y" "run_steps step (take (Suc (i mod ?n)) ts) b = Some y"
      by (auto simp: run_def)
    have "run (Suc i) = y"
      using y(2) cycle by (cases "Suc (i mod ?n) = ?n") (simp_all add: run_def mod_Suc)
    with y(1) show ?thesis by simp
  qed
  then have "infinite_run step (\<lambda>i. ts ! (i mod ?n)) run" by (simp add: infinite_run_def)
  moreover have "\<exists>i\<ge>m. ts ! (i mod ?n) = t" if "\<forall>n. \<exists>i\<ge>n. step t (run i) \<noteq> None" for t m
  proof -
    from that obtain i where "step t (run i) \<noteq> None" by blast
    with others [OF in_cycle [of i], of t] have "t \<in> set ts" unfolding run_def by metis
    then obtain j where "j < ?n" "ts ! j = t" by (auto simp: in_set_conv_nth)
    then show ?thesis using n by (intro exI [of _ "m * ?n + j"]) (simp add: trans_le_add1)
  qed
  ultimately show "fair_run step (\<lambda>i. ts ! (i mod ?n)) run" by (simp add: fair_run_def)
qed

end
