(* ===== verification/SoftLivelock.thy ===== *)
theory SoftLivelock
  imports SoftBenchLive SoftProperties Fairness
begin

text \<open>
  A strongly fair run in which the soft-lock benchmark does not end: the release loop of
  \<open>AccessGuard::drop\<close> and a consumer that keeps finding the lock taken keep each other busy.
\<close>

section \<open>One round of the release loop\<close>

text \<open>
  Producer 0 takes the flag down and has nothing to drain; the consumer calls \<open>with_access\<close>, gets
  PendOnly access and raises the flag again; producer 0 unlocks, sees the flag and locks again.
\<close>

definition livelock_round :: "tid list" where
  "livelock_round = replicate 2 (TProducer 0) @ replicate 6 TConsumer @ replicate 3 (TProducer 0)"

fun visited :: "scenario \<Rightarrow> tid list \<Rightarrow> bench \<Rightarrow> bench list" where
  "visited s [] b = [b]"
| "visited s (t # ts) b = b # (case bench_step s t b of None \<Rightarrow> [] | Some b' \<Rightarrow> visited s ts b')"

definition at_round :: "bench \<Rightarrow> bool" where
  "at_round b \<longleftrightarrow> act (bw b) (TProducer 0) = Some (AtSwap RProducer) \<and> act (bw b) TConsumer = None \<and>
     locked (lk (bw b)) \<and> pending (lk (bw b)) \<and> pending_submit (content (lk (bw b))) = 0 \<and>
     cpc b = CLoop \<and> ppc b 0 = PCall 0"

lemmas round_steps = producer_step_def consumer_step_def access_instr_def enter_access_def leave_access_def
  guard_def tail_call_def

lemma round_returns:
  assumes "at_round b"
  shows "run_schedule s livelock_round b = Some b"
proof -
  obtain w d m c p where b: "b = \<lparr>bw = w, producers_done = d, mpc = m, cpc = c, ppc = p\<rparr>" by (cases b)
  obtain l a where w: "w = \<lparr>lk = l, act = a\<rparr>" by (cases w)
  obtain cn pn lo where l: "l = \<lparr>content = cn, pending = pn, locked = lo\<rparr>" by (cases l)
  have cn: "cn\<lparr>pending_submit := 0\<rparr> = cn" using assms by (cases cn) (simp add: at_round_def b w l)
  have a: "a(TProducer 0 \<mapsto> AtSwap RProducer, TConsumer := None) = a"
    "a(TConsumer := None, TProducer 0 \<mapsto> AtSwap RProducer) = a"
    using assms by (auto simp: at_round_def b w l fun_eq_iff)
  show ?thesis
    using assms cn a
    by (simp add: livelock_round_def at_round_def b w l round_steps numeral_nat fun_upd_twist)
qed

lemma run_schedule_append:
  "run_schedule s ts b = Some b1 \<Longrightarrow> run_schedule s (ts @ us) b = run_schedule s us b1"
  by (induction ts arbitrary: b) (auto split: option.splits)

lemma round_blocked:
  assumes "at_round b" and "mpc b = MJoin 0" and "0 < unat (producers s)"
  shows "list_all (\<lambda>x. bench_step s TMain x = None \<and> mpc x = MJoin 0 \<and> ppc x = ppc b) (visited s livelock_round b)"
  using assms
  by (simp add: livelock_round_def at_round_def round_steps main_step_def numeral_nat)

lemma visited_nth:
  "run_schedule s ts b = Some b' \<Longrightarrow> j \<le> length ts \<Longrightarrow>
   j < length (visited s ts b) \<and> visited s ts b ! j = the (run_schedule s (take j ts) b)"
proof (induction ts arbitrary: b j)
  case (Cons t ts)
  then show ?case by (cases j) (auto split: option.splits)
qed simp

text \<open>
  The way into the round: producer 1 runs to its end, producer 0 pushes its item and is about to
  release, the consumer finds the lock taken.
\<close>

definition into_round :: "tid list" where
  "into_round = replicate 4 TMain @ replicate 13 (TProducer 1) @ replicate 8 (TProducer 0) @ replicate 6 TConsumer"

lemma into_round_run:
  "map_option (\<lambda>b. (view b, locked (lk (bw b)), pending (lk (bw b)), pending_submit (content (lk (bw b))),
       mpc b, cpc b, ppc b 0, ppc b 1)) (run_schedule duo into_round bench_new) =
     Some ([None, None, Some (AtSwap RProducer), None], True, True, 0, MJoin 0, CLoop, PCall 0, PExit)"
  by code_simp

section \<open>The schedule\<close>

lemma livelock_start:
  obtains b where "run_schedule duo into_round bench_new = Some b" and "bench_reach duo b" and "at_round b"
    and "mpc b = MJoin 0" and "ppc b 0 = PCall 0" and "\<forall>q. ppc b (Suc q) = PExit \<or> ppc b (Suc q) = PNew"
proof -
  obtain b where run: "run_schedule duo into_round bench_new = Some b"
    and v: "(view b, locked (lk (bw b)), pending (lk (bw b)), pending_submit (content (lk (bw b))), mpc b, cpc b,
      ppc b 0, ppc b 1) = ([None, None, Some (AtSwap RProducer), None], True, True, 0, MJoin 0, CLoop, PCall 0, PExit)"
    using into_round_run by auto
  have b: "bench_reach duo b" by (rule run_schedule_reach [OF run bench_start])
  have "ppc b (Suc q) = PExit \<or> ppc b (Suc q) = PNew" for q
  proof (cases q)
    case 0
    with v show ?thesis by simp
  next
    case (Suc r)
    with bench_reach_ctl [OF b] v show ?thesis by (auto simp: ctl_inv_def duo_def)
  qed
  with that run b v show ?thesis by (simp add: at_round_def view_def)
qed

text \<open>C15: the benchmark need not end, even if the scheduler is strongly fair: it has an infinite fair run. From
  some point on the main thread waits for producer 0, which is in the release loop of
  \<open>AccessGuard::drop\<close> for ever: whenever it looks at the pending flag, the consumer, which polls the lock,
  has raised the flag again (although it records nothing), while no other thread can move.\<close>

theorem softlock_release_livelock:
  "\<exists>who run n. run 0 = bench_new \<and> fair_run (bench_step duo) who run \<and>
     (\<forall>i. mpc (run (n + i)) = MJoin 0 \<and> ppc (run (n + i)) 0 = PCall 0)"
proof -
  obtain b where into: "run_schedule duo into_round bench_new = Some b" and round: "at_round b"
    and m: "mpc b = MJoin 0" and p: "ppc b 0 = PCall 0" "\<forall>q. ppc b (Suc q) = PExit \<or> ppc b (Suc q) = PNew"
    by (rule livelock_start)
  note cycle = round_returns [OF round, of duo]
  let ?at = "\<lambda>j. the (run_schedule duo (take j livelock_round) b)"
  have at: "bench_step duo TMain (?at j) = None \<and> mpc (?at j) = MJoin 0 \<and> ppc (?at j) = ppc b"
    if "j < length livelock_round" for j
    using round_blocked [OF round m, of duo] visited_nth [OF cycle, of j] that
    by (auto simp: list_all_length duo_def)
  have others: "bench_step duo t (?at j) = None" if "j < length livelock_round" "t \<notin> set livelock_round" for j t
  proof (cases t)
    case TMain
    with at [OF that(1)] show ?thesis by simp
  next
    case TConsumer
    with that(2) show ?thesis by (simp add: livelock_round_def)
  next
    case (TProducer q)
    with that(2) obtain r where "q = Suc r" by (cases q) (auto simp: livelock_round_def)
    with p(2) have "ppc b q = PExit \<or> ppc b q = PNew" by simp
    with at [OF that(1)] TProducer show ?thesis by (elim disjE) (simp_all add: producer_step_def)
  qed
  let ?run = "\<lambda>i. ?at (i mod length livelock_round)"
  have "livelock_round \<noteq> []" by (simp add: livelock_round_def)
  note run = cycle_run [where step = "bench_step duo" and ts = livelock_round and b = b, folded run_schedule_steps,
      OF cycle this others]
  from fair_run_prefix [where step = "bench_step duo" and ts = into_round and b = bench_new and run = ?run,
      folded run_schedule_steps, OF _ run(1)] into run(2)
  obtain who' run' where r: "fair_run (bench_step duo) who' run'" "run' 0 = bench_new"
    "\<forall>i. run' (length into_round + i) = ?run i" by auto
  have "i mod length livelock_round < length livelock_round" for i by (simp add: livelock_round_def)
  with r at p(1) show ?thesis by (intro exI [of _ who'] exI [of _ run'] exI [of _ "length into_round"]) simp
qed

end
