(* ===== verification/MutexProperties.thy ===== *)
theory MutexProperties
  imports MutexCount
begin

text \<open>
  The properties of the mutex benchmark, with a concrete run of one producer and one operation.
\<close>

section \<open>A concrete run\<close>

definition solo :: scenario where
  "solo = \<lparr>scenario_name = ''solo'', producers = 1, ops_per_producer = 1, producer_pause_every = 1,
     consumer_budget = 64, consumer_hold_spin = 1\<rparr>"

lemma solo_fits: "fits solo"
  by (simp add: fits_def total_nat_def solo_def)

lemma solo_fits_i32: "fits_i32 solo"
  using solo_fits by (simp add: fits_i32_def solo_def)

definition solo_run :: "mtid list" where
  "solo_run = replicate 3 MtMain @ replicate 8 (MtProducer 0) @ replicate 3 MtMain @
     replicate 9 MtConsumer @ replicate 8 MtMain"

definition solo_result :: mutex_result where
  "solo_result = \<lparr>mr_processed = 1, mr_queue_left = 0, lock_acquires_producer = 1, lock_acquires_consumer = 1\<rparr>"

lemma solo_end: "map_option mm (mutex_schedule solo solo_run mutex_bench_new) = Some (MmReturn solo_result)"
  by code_simp

lemma solo_queue:
  "map_option (\<lambda>b. (mm b, mqueue (inner b), mlocked (inner b))) (mutex_schedule solo (take 10 solo_run) mutex_bench_new)
     = Some (MmJoin 0, [1], False)"
  by code_simp

lemma mutex_reach_schedule:
  assumes "map_option f (mutex_schedule s ts mutex_bench_new) = Some x"
  obtains b where "mutex_reach s b" and "f b = x"
  using assms mutex_schedule_reach [OF _ mutex_start] by auto

section \<open>Somebody can move\<close>

lemma mutex_owner_enabled:
  assumes "mutex_owner b t"
  shows "mutex_step s t b \<noteq> None"
proof (cases t)
  case MtMain
  with assms show ?thesis by (cases "mm b") (simp_all add: mutex_main_step_def)
next
  case MtConsumer
  with assms show ?thesis by (cases "mc b") (simp_all split: list.splits)
next
  case (MtProducer p)
  with assms show ?thesis by (cases "mp b p") simp_all
qed

lemma mutex_free_enabled:
  assumes "\<not> mlocked (inner b)" and calm: "m_calm s b"
  shows "mp b p \<noteq> MpNew \<Longrightarrow> mp b p \<noteq> MpExit \<Longrightarrow> mutex_step s (MtProducer p) b \<noteq> None"
    and "mc b \<noteq> McNew \<Longrightarrow> mc b \<noteq> McExit \<Longrightarrow> mutex_step s MtConsumer b \<noteq> None"
proof -
  assume "mp b p \<noteq> MpNew" "mp b p \<noteq> MpExit"
  with assms calm show "mutex_step s (MtProducer p) b \<noteq> None" by (cases "mp b p") (auto simp: m_calm_def)
next
  assume "mc b \<noteq> McNew" "mc b \<noteq> McExit"
  with assms calm show "mutex_step s MtConsumer b \<noteq> None"
    by (cases "mc b") (auto simp: m_calm_def split: list.splits)
qed

lemma mutex_main_enabled:
  assumes "mutex_ctl s b" and "\<not> mlocked (inner b)" and "m_calm s b"
  shows "mutex_step s MtMain b \<noteq> None \<or> (\<exists>r. mm b = MmReturn r) \<or> (\<exists>m. mm b = MmPanic m) \<or>
    (\<exists>p. mp b p \<noteq> MpNew \<and> mp b p \<noteq> MpExit) \<or> (mc b \<noteq> McNew \<and> mc b \<noteq> McExit)"
proof (cases "mm b")
  case (MmJoin p)
  with assms(1) have "p < unat (producers s) \<Longrightarrow> mp b p \<noteq> MpNew" by (auto simp: mutex_ctl_def)
  with MmJoin show ?thesis by (cases "mp b p = MpExit") (auto simp: mutex_main_step_def)
next
  case MmJoinConsumer
  with assms(1) have "mc b \<noteq> McNew" by (auto simp: mutex_ctl_def)
  with MmJoinConsumer show ?thesis by (cases "mc b = McExit") (auto simp: mutex_main_step_def)
qed (use assms(2,3) in \<open>simp_all add: mutex_main_step_def m_calm_def\<close>)

section \<open>Properties\<close>

text \<open>C18: whatever the scheduler does, neither assertion of \<open>run_mutex_bench\<close> fails; when it returns, every
  operation has been processed, the queue is empty, and the producers have taken the mutex exactly
  once per operation.\<close>

theorem mutex_bench_report:
  assumes "fits s" and "mutex_reach s b"
  shows "(\<forall>m. mm b \<noteq> MmPanic m) \<and>
    (\<forall>r. mm b = MmReturn r \<longrightarrow> mr_processed r = total_ops_of s \<and> mr_queue_left r = 0 \<and>
       lock_acquires_producer r = total_ops_of s)"
  using mutex_reach_inv [OF assms(2,1)] by (auto simp: mutex_inv_def mutex_fin_def)

theorem mutex_bench_report_witness:
  "\<exists>b. mutex_reach solo b \<and> mm b = MmReturn solo_result \<and> mr_processed solo_result = total_ops_of solo"
proof -
  obtain b where "mutex_reach solo b" "mm b = MmReturn solo_result"
    by (rule mutex_reach_schedule [OF solo_end])
  with mutex_bench_report [OF solo_fits] show ?thesis by blast
qed

text \<open>C21: in every reachable state of the mutex benchmark the mutex is taken exactly while one thread is in
  its critical section, never two; and while it is free the queue holds exactly the ids that follow
  the processed ones, in order.\<close>

theorem mutex_bench_exclusive:
  assumes "fits s" and "mutex_reach s b"
  shows "(mlocked (inner b) \<longleftrightarrow> (\<exists>t. mutex_owner b t)) \<and>
    (\<forall>t u. mutex_owner b t \<longrightarrow> mutex_owner b u \<longrightarrow> t = u) \<and>
    (\<not> mlocked (inner b) \<longrightarrow>
       mqueue (inner b) = ids (mprocessed (inner b) + 1) (length (mqueue (inner b))))"
proof -
  have inv: "mutex_excl b" "mutex_acc s b" using mutex_reach_inv [OF assms(2,1)] by (simp_all add: mutex_inv_def)
  have "popped (mc b) = 0" if "\<not> mlocked (inner b)"
  proof -
    have "\<not> mutex_owner b MtConsumer" using inv(1) that unfolding mutex_excl_def by blast
    then show ?thesis by (cases "mc b") simp_all
  qed
  moreover have "mutex_order (inner b) (popped (mc b))" using inv(2) by (simp add: mutex_acc_def)
  ultimately have "mutex_order (inner b) 0" if "\<not> mlocked (inner b)" using that by simp
  then have "\<not> mlocked (inner b) \<longrightarrow>
      mqueue (inner b) = ids (mprocessed (inner b) + 1) (length (mqueue (inner b)))"
    unfolding mutex_order_def semiring_1_class.of_nat_0 add_0_right by (rule impI)
  with inv(1) show ?thesis unfolding mutex_excl_def by blast
qed

theorem mutex_bench_exclusive_witness:
  "\<exists>b. mutex_reach solo b \<and> mqueue (inner b) = [1] \<and> \<not> mutex_owner b MtConsumer"
proof -
  obtain b where b: "mutex_reach solo b"
    and v: "(mm b, mqueue (inner b), mlocked (inner b)) = (MmJoin 0, [1], False)"
    by (rule mutex_reach_schedule [OF solo_queue])
  then have "mqueue (inner b) = [1]" "\<not> mlocked (inner b)" by simp_all
  with mutex_bench_exclusive [OF solo_fits b] b show ?thesis by blast
qed

text \<open>The mutex benchmark never deadlocks: as long as the main thread has not returned, some thread
  can take a step.\<close>

lemma mutex_bench_progress:
  assumes "fits_i32 s" and "mutex_reach s b" and "\<forall>r. mm b \<noteq> MmReturn r"
  shows "\<exists>t. mutex_step s t b \<noteq> None"
proof -
  note calm = mutex_reach_calm [OF assms(2,1)]
  then have inv: "mutex_ctl s b" "mutex_excl b" "mutex_fin s b" by (simp_all add: mutex_inv_def)
  show ?thesis
  proof (cases "mlocked (inner b)")
    case True
    then obtain t where "mutex_owner b t" using inv(2) by (auto simp: mutex_excl_def)
    from mutex_owner_enabled [OF this] show ?thesis by (rule exI)
  next
    case False
    have "\<forall>m. mm b \<noteq> MmPanic m" using inv(3) by (auto simp: mutex_fin_def)
    with mutex_main_enabled [OF inv(1) False calm(2)] assms(3) mutex_free_enabled [OF False calm(2)] show ?thesis by blast
  qed
qed

lemma mutex_bench_progress_witness:
  "\<exists>b. mutex_reach solo b \<and> mm b = MmJoin 0 \<and> (\<exists>t. mutex_step solo t b \<noteq> None)"
proof -
  obtain b where b: "mutex_reach solo b"
    and v: "(mm b, mqueue (inner b), mlocked (inner b)) = (MmJoin 0, [1], False)"
    by (rule mutex_reach_schedule [OF solo_queue])
  then have m: "mm b = MmJoin 0" by simp
  then have "\<forall>r. mm b \<noteq> MmReturn r" by simp
  from mutex_bench_progress [OF solo_fits_i32 b this] b m show ?thesis by blast
qed

end
