(* ===== verification/ProgramProperties.thy ===== *)
theory ProgramProperties
  imports Program Budget SoftLivelock MutexProperties
begin

text \<open>
  Liveness of the two benchmarks and of the whole program: when a benchmark can return at all, and that
  no reachable state is then one from which the end cannot be reached any more.
\<close>

section \<open>The benchmarks\<close>

text \<open>C8: from every reachable state of \<open>run_softlock_bench\<close>, however unlucky the schedule so far, the threads
  can be scheduled so that the function returns its counts, exactly if the consumer's budget is not 0
  or there are no operations at all. So for a sensible scenario no state is a deadlock or a livelock
  trap, and with a budget of 0 and something to serve no schedule ever brings the function to its end.\<close>

theorem softlock_bench_can_finish:
  assumes "fits s" and "bench_reach s b"
  shows "(\<exists>ts b' ct. run_schedule s ts b = Some b' \<and> mpc b' = MReturn ct) \<longleftrightarrow>
    consumer_budget s \<noteq> 0 \<or> total_nat s = 0"
  using assms(2,1) by (rule bench_returns_iff)

theorem softlock_bench_can_finish_witness:
  "(\<exists>b. bench_reach duo b \<and> mpc b = MJoin 0 \<and>
     (\<exists>ts b' ct. run_schedule duo ts b = Some b' \<and> mpc b' = MReturn ct)) \<and>
   (\<nexists>ts b' ct. run_schedule (duo\<lparr>consumer_budget := 0\<rparr>) ts bench_new = Some b' \<and> mpc b' = MReturn ct)"
proof
  obtain b where b: "bench_reach duo b" and "(mpc b, cpc b, view b, lk (bw b)) =
      (MJoin 0, CLoop, [None, None, None, None], overlap_end)"
    by (rule reach_schedule [OF overlap_run])
  then have "mpc b = MJoin 0" by simp
  moreover have "consumer_budget duo \<noteq> 0" by (simp add: duo_def)
  ultimately show "\<exists>b. bench_reach duo b \<and> mpc b = MJoin 0 \<and>
      (\<exists>ts b' ct. run_schedule duo ts b = Some b' \<and> mpc b' = MReturn ct)"
    using softlock_bench_can_finish [OF duo_fits b] b by blast
next
  have "fits (duo\<lparr>consumer_budget := 0\<rparr>)" "total_nat (duo\<lparr>consumer_budget := 0\<rparr>) \<noteq> 0"
    by (simp_all add: fits_def total_nat_def duo_def)
  with softlock_bench_can_finish [OF this(1) bench_start]
  show "\<nexists>ts b' ct. run_schedule (duo\<lparr>consumer_budget := 0\<rparr>) ts bench_new = Some b' \<and> mpc b' = MReturn ct"
    by simp
qed

text \<open>C23: from every reachable state of \<open>run_mutex_bench\<close> the threads can be scheduled so that it returns,
  exactly if the consumer's budget is not 0 or there are no operations at all; provided that
  \<open>processed_now\<close>, an \<open>i32\<close>, can count the items of a critical section.\<close>

theorem mutex_bench_can_finish:
  assumes "fits_i32 s" and "mutex_reach s b"
  shows "(\<exists>ts b' r. mutex_schedule s ts b = Some b' \<and> mm b' = MmReturn r) \<longleftrightarrow>
    consumer_budget s \<noteq> 0 \<or> total_nat s = 0"
  using assms(2,1) by (rule mutex_returns_iff)

theorem mutex_bench_can_finish_witness:
  "\<exists>b. mutex_reach solo b \<and> mqueue (inner b) = [1] \<and>
     (\<exists>ts b' r. mutex_schedule solo ts b = Some b' \<and> mm b' = MmReturn r)"
proof -
  obtain b where b: "mutex_reach solo b"
    and "(mm b, mqueue (inner b), mlocked (inner b)) = (MmJoin 0, [1], False)"
    by (rule mutex_reach_schedule [OF solo_queue])
  moreover have "consumer_budget solo \<noteq> 0" by (simp add: solo_def)
  ultimately show ?thesis using mutex_bench_can_finish [OF solo_fits_i32 b] by auto
qed

section \<open>The program\<close>

text \<open>The table of \<open>main\<close> and the first steps of a run.\<close>

lemma main_scenarios_fine: "\<forall>s\<in>set main_scenarios. scenario_fine s"
  using main_scenarios_fit by (auto simp: scenario_fine_def fits_i32_def can_serve_def main_scenarios_def)

definition plain_io :: "(nat, nat) std_float" where
  "plain_io = \<lparr>f64_of = unat, f64_div = (div), f64_zero = 0, f64_million = 1000000, as_secs = id,
     fmt_duration = show_nat, fmt3 = show_nat, fmt2 = show_nat\<rparr>"

lemma main_run:
  "run_steps (program_step io) [Advance d, SoftThread TMain] (program_new (s # ss)) =
     Some \<lparr>place = InSoft s (bench_new\<lparr>cpc := CLoop, mpc := MSpawn 0\<rparr>), todo = ss,
       out = banner @ scenario_lines s\<rparr>"
  by (simp add: program_step_def program_new_def main_step_def bench_new_def)

text \<open>C4: the whole program, over any table of scenarios with sensible parameters (\<open>scenario_fine\<close>: counters that
  can count the operations, a consumer that can serve), such as that of \<open>main\<close>, and whatever the clock and
  the floating-point arithmetic say: it never panics; when it has finished it has printed its banner
  and then, for each scenario in the order of the table, one block of lines made from exact counts
  (all operations processed, direct and pended entries adding up, every pended one drained, one
  mutex acquisition per operation); and from every reachable state it can be run to its end.\<close>

theorem program_completes:
  assumes "\<forall>s\<in>set ss. scenario_fine s" and "program_reach io ss p"
  shows "(\<forall>m. place p \<noteq> Panicked m) \<and>
    (place p = Finished \<longrightarrow> completed_blocks io ss (out p)) \<and>
    (\<exists>ms p'. run_steps (program_step io) ms p = Some p' \<and> place p' = Finished)"
proof -
  from program_reach_inv [OF assms(2,1)] obtain don where
    "place_ok io ss (place p) don (todo p) (out p)" by (auto simp: program_inv_def)
  moreover from program_can_finish [OF assms(2,1)] obtain p' where
    "leads_to (program_step io) p p'" "place p' = Finished" by blast
  ultimately show ?thesis using leads_to_schedule [of "program_step io" p p'] by (cases "place p") auto
qed

theorem program_completes_witness:
  "\<exists>p. program_reach plain_io main_scenarios p \<and> place p \<noteq> Finished \<and>
     out p = banner @ scenario_lines (hd main_scenarios) \<and>
     (\<exists>ms p'. run_steps (program_step plain_io) ms p = Some p' \<and> place p' = Finished)"
proof -
  obtain s ss where ss: "main_scenarios = s # ss" by (simp add: main_scenarios_def)
  have "program_reach plain_io main_scenarios \<lparr>place = InSoft s (bench_new\<lparr>cpc := CLoop, mpc := MSpawn 0\<rparr>),
      todo = ss, out = banner @ scenario_lines s\<rparr>"
    using pr.run_steps_reach [OF main_run program_start] by (simp add: ss)
  from program_completes [OF main_scenarios_fine this] this show ?thesis
    by (intro exI [of _ "\<lparr>place = InSoft s (bench_new\<lparr>cpc := CLoop, mpc := MSpawn 0\<rparr>), todo = ss,
      out = banner @ scenario_lines s\<rparr>"]) (simp add: ss)
qed

end
