(* ===== verification/Service.thy ===== *)
theory Service
  imports Schedules
begin

text \<open>
  What both benchmarks promise, without threads, locks or counters: a queue that numbers the items
  it accepts, serves them in order, and may accept an item later than it is asked to (an intent).
  The refinement of a benchmark to this service is a map of its states (\<open>abs\<close>) and of its steps
  (\<open>event\<close>: the one instruction of an operation at which it takes effect).
\<close>

section \<open>The service\<close>

text \<open>\<open>intents\<close>: promised submissions; \<open>waiting\<close>: the queue; \<open>served\<close>: everything taken out, in order.\<close>

record service =
  intents :: nat
  waiting :: "u64 list"
  served :: "u64 list"

definition service_new :: service where
  "service_new = \<lparr>intents = 0, waiting = [], served = []\<rparr>"

text \<open>Identifiers are the numbers from 1 on, in the order of acceptance.\<close>

definition new_id :: "service \<Rightarrow> u64" where
  "new_id v = of_nat (length (served v) + length (waiting v) + 1)"

datatype service_event = Submit | Intend | Replay | Serve

fun service_do :: "service_event \<Rightarrow> service \<Rightarrow> service option" where
  "service_do Submit v = Some (v\<lparr>waiting := waiting v @ [new_id v]\<rparr>)"
| "service_do Intend v = Some (v\<lparr>intents := intents v + 1\<rparr>)"
| "service_do Replay v =
     (if intents v = 0 then None
      else Some (v\<lparr>intents := intents v - 1, waiting := waiting v @ [new_id v]\<rparr>))"
| "service_do Serve v =
     (case waiting v of [] \<Rightarrow> None | x # q \<Rightarrow> Some (v\<lparr>waiting := q, served := served v @ [x]\<rparr>))"

text \<open>A step without an event leaves the service alone.\<close>

definition service_step :: "service_event option \<Rightarrow> service \<Rightarrow> service option" where
  "service_step e v = (case e of None \<Rightarrow> Some v | Some ev \<Rightarrow> service_do ev v)"

lemma service_step_simps [simp]:
  "service_step None v = Some v"
  "service_step (Some ev) v = service_do ev v"
  by (simp_all add: service_step_def)

lemma service_do_effects:
  "service_do Submit v = Some v' \<Longrightarrow> waiting v' = waiting v @ [new_id v]"
  "service_do Intend v = Some v' \<Longrightarrow> intents v' = intents v + 1"
  by auto

section \<open>What the service guarantees\<close>

text \<open>Every accepted item is served or waiting, once, in the order of acceptance.\<close>

definition in_order :: "service \<Rightarrow> bool" where
  "in_order v \<longleftrightarrow> served v @ waiting v = ids 1 (length (served v) + length (waiting v))"

lemma in_order_new: "in_order service_new"
  by (simp add: in_order_def service_new_def)

lemma in_order_accept:
  "in_order v \<Longrightarrow> in_order (v\<lparr>intents := n, waiting := waiting v @ [new_id v]\<rparr>)"
  by (simp add: in_order_def new_id_def ids_Suc append_assoc [symmetric] del: append_assoc)

lemma in_order_step:
  assumes "service_step e v = Some v'" and "in_order v"
  shows "in_order v'"
proof (cases e)
  case (Some ev)
  with assms in_order_accept [OF assms(2), of "intents v"] in_order_accept [OF assms(2), of "intents v - 1"]
  show ?thesis by (cases ev) (auto simp: in_order_def split: if_splits list.splits)
qed (use assms in simp)

text \<open>Accepted and promised items together: the total changes only when a submission arrives.\<close>

fun arrivals :: "service_event option \<Rightarrow> nat" where
  "arrivals (Some Submit) = 1"
| "arrivals (Some Intend) = 1"
| "arrivals _ = 0"

definition accepted :: "service \<Rightarrow> nat" where
  "accepted v = intents v + length (waiting v) + length (served v)"

lemma accepted_step: "service_step e v = Some v' \<Longrightarrow> accepted v' = accepted v + arrivals e"
  by (cases e rule: arrivals.cases) (auto simp: accepted_def split: if_splits list.splits)

lemma accepted_step_le: "service_step e v = Some v' \<Longrightarrow> accepted v \<le> accepted v'"
  by (simp add: accepted_step)

section \<open>What is taken from a queue\<close>

text \<open>
  The log of an observer who sees nothing but a queue: after every step of the schedule, the items
  that have just disappeared from it, in the order in which they stood there.
\<close>

fun taken :: "('t \<Rightarrow> 'b \<Rightarrow> 'b option) \<Rightarrow> ('b \<Rightarrow> 'x list) \<Rightarrow> 't list \<Rightarrow> 'b \<Rightarrow> 'x list" where
  "taken step q [] b = []"
| "taken step q (t # ts) b =
     (case step t b of
        None \<Rightarrow> []
      | Some b' \<Rightarrow> filter (\<lambda>x. x \<notin> set (q b')) (q b) @ taken step q ts b')"

text \<open>One step of the service: serving removes the head, everything else removes nothing.\<close>

lemma service_step_taken:
  assumes "service_step e v = Some v'" and "distinct (waiting v)"
  shows "served v' = served v @ filter (\<lambda>x. x \<notin> set (waiting v')) (waiting v)"
proof (cases e)
  case None
  with assms(1) show ?thesis by simp
next
  case (Some ev)
  show ?thesis
  proof (cases ev)
    case Serve
    with Some assms obtain x q where "waiting v = x # q" "v' = v\<lparr>waiting := q, served := served v @ [x]\<rparr>"
      by (auto split: list.splits)
    with assms(2) show ?thesis by (auto simp: filter_empty_conv)
  qed (use Some assms(1) in \<open>auto simp: filter_empty_conv split: if_splits\<close>)
qed

section \<open>Implementations\<close>

text \<open>
  A system of interleaved threads implements the service if every step of a reachable state is the
  service's step for the event that this instruction is. \<open>bounded\<close> is the condition on the instance
  under which its machine integers do not wrap around.
\<close>

locale implements_service = interleaving +
  fixes bounded :: bool
    and abs :: "'b \<Rightarrow> service"
    and event :: "'a \<Rightarrow> 'b \<Rightarrow> service_event option"
  assumes abs_start: "abs start = service_new"
    and abs_step: "bounded \<Longrightarrow> reach b \<Longrightarrow> step t b = Some b' \<Longrightarrow>
      service_step (event t b) (abs b) = Some (abs b')"
begin

lemma abs_invariant:
  assumes "bounded" and "reach b" and "keep service_new"
    and "\<And>e v v'. service_step e v = Some v' \<Longrightarrow> keep v \<Longrightarrow> keep v'"
  shows "keep (abs b)"
proof -
  have "reach b \<and> keep (abs b)"
  proof (rule leads_to_inv [OF reach_least [OF assms(2)]])
    show "reach start \<and> keep (abs start)" by (simp add: reach_start abs_start assms(3))
    show "reach b2 \<and> keep (abs b2)" if "reach b1 \<and> keep (abs b1)" "step t b1 = Some b2" for t b1 b2
      using that by (blast intro: reach_step abs_step [OF assms(1)] assms(4))
  qed
  then show ?thesis by simp
qed

lemma abs_in_order: "bounded \<Longrightarrow> reach b \<Longrightarrow> in_order (abs b)"
  by (rule abs_invariant) (auto intro: in_order_new in_order_step)

lemma waiting_distinct:
  assumes "bounded" and "reach b" and "accepted (abs b) \<le> 2 ^ 64"
  shows "distinct (waiting (abs b))"
proof -
  let ?n = "length (served (abs b)) + length (waiting (abs b))"
  have "distinct (ids 1 ?n)" using assms(3) by (intro distinct_ids) (simp add: accepted_def)
  then have "distinct (served (abs b) @ waiting (abs b))"
    using abs_in_order [OF assms(1,2)] by (simp add: in_order_def)
  then show ?thesis by simp
qed

text \<open>Along every schedule, \<open>served\<close> is what the observer of the queue has seen leaving it.\<close>

lemma served_is_taken:
  assumes "bounded" and q: "\<And>b. q b = waiting (abs b)"
  shows "reach b \<Longrightarrow> run_steps step ts b = Some b' \<Longrightarrow> accepted (abs b') \<le> 2 ^ 64 \<Longrightarrow>
    accepted (abs b) \<le> accepted (abs b') \<and> served (abs b') = served (abs b) @ taken step q ts b"
proof (induction ts arbitrary: b)
  case (Cons t ts)
  from Cons.prems(2) obtain b1 where b1: "step t b = Some b1" "run_steps step ts b1 = Some b'"
    by (auto split: option.splits)
  note abs = abs_step [OF assms(1) Cons.prems(1) b1(1)]
  note rest = Cons.IH [OF reach_step [OF Cons.prems(1) b1(1)] b1(2) Cons.prems(3)]
  have le: "accepted (abs b) \<le> accepted (abs b')" using accepted_step_le [OF abs] rest by simp
  with Cons.prems(3) have "distinct (waiting (abs b))" by (intro waiting_distinct assms(1) Cons.prems(1)) simp
  from service_step_taken [OF abs this] rest le show ?case by (simp add: b1(1) q)
qed simp

lemma taken_from_start:
  assumes "bounded" and "\<And>b. q b = waiting (abs b)" and "run_steps step ts start = Some b"
    and "accepted (abs b) \<le> 2 ^ 64"
  shows "taken step q ts start = served (abs b)"
  using served_is_taken [OF assms(1,2) reach_start assms(3,4)] by (simp add: abs_start service_new_def)

text \<open>Once nothing waits, exactly the first \<open>n\<close> identifiers have been served.\<close>

lemma abs_settled:
  assumes "bounded" and "reach b" and "waiting (abs b) = []" and "length (served (abs b)) = n"
  shows "served (abs b) = ids 1 n"
  using abs_in_order [OF assms(1,2)] assms(3,4) by (simp add: in_order_def)

end

end
