(* ===== verification/SoftService.thy ===== *)
theory SoftService
  imports Service SoftBenchLive
begin

text \<open>
  The soft-lock benchmark implements the service of \<open>Service\<close>. An item takes effect when it is pushed
  or popped under the queue's mutex; an intent takes effect at the increment of \<open>pending_submit\<close> and
  stays promised while \<open>run_pended_op\<close> carries it in its locals.
\<close>

section \<open>Where the operations take effect\<close>

fun op_event :: "op_pc \<Rightarrow> demo_inner \<Rightarrow> service_event option" where
  "op_event (OpProducer (PrSubmit (SdPush i))) c = Some Submit"
| "op_event (OpProducer PrPendSubmit) c = Some Intend"
| "op_event (OpConsumer (CoDrain prior (RpPush n i))) c = Some Replay"
| "op_event (OpConsumer (CoProcess prior (PsPop budget now))) c =
     (if budget = 0 \<or> queue c = [] then None else Some Serve)"
| "op_event k c = None"

fun pc_event :: "(op_pc, drain_pc, op_result) guard_pc \<Rightarrow> demo_inner \<Rightarrow> service_event option" where
  "pc_event (InOp held k) c = op_event k c"
| "pc_event (InDrain (RpPush n i) r) c = Some Replay"
| "pc_event pc c = None"

definition soft_event :: "tid \<Rightarrow> bench \<Rightarrow> service_event option" where
  "soft_event t b = (case act (bw b) t of None \<Rightarrow> None | Some pc \<Rightarrow> pc_event pc (content (lk (bw b))))"

section \<open>Abstraction\<close>

text \<open>Intents that \<open>run_pended_op\<close> has taken over, and an item that \<open>process_some\<close> has popped and not counted.\<close>

fun drain_intents :: "drain_pc \<Rightarrow> int" where
  "drain_intents RpSwap = 0"
| "drain_intents (RpBatches n) = uint n"
| "drain_intents (RpItems n) = uint n"
| "drain_intents (RpLock n) = uint n"
| "drain_intents (RpNext n) = uint n"
| "drain_intents (RpPush n i) = uint n + 1"

fun op_intents :: "op_pc \<Rightarrow> int" where
  "op_intents (OpConsumer (CoDrain prior d)) = drain_intents d"
| "op_intents _ = 0"

fun op_popped :: "op_pc \<Rightarrow> int" where
  "op_popped (OpConsumer (CoProcess prior k)) = process_popped k"
| "op_popped _ = 0"

definition promised :: "scenario \<Rightarrow> soft_world \<Rightarrow> int" where
  "promised s w = uint (pending_submit (content (lk w))) + outstanding s op_intents drain_intents (\<lambda>_. 0) w"

definition taken_out :: "scenario \<Rightarrow> soft_world \<Rightarrow> int" where
  "taken_out s w = uint (processed (content (lk w))) + outstanding s op_popped (\<lambda>_. 0) (\<lambda>_. 0) w"

text \<open>
  The state does not record what has been taken out, so \<open>served\<close> is computed from the counters. That these ids are
  the items which have left the queue, in the order in which they left it, follows from the refinement
  (\<open>served_is_taken\<close>): \<open>Serve\<close> takes the head of the queue and no other event removes anything.
\<close>

definition soft_service :: "scenario \<Rightarrow> bench \<Rightarrow> service" where
  "soft_service s b =
     \<lparr>intents = nat (promised s (bw b)), waiting = queue (content (lk (bw b))),
      served = ids 1 (nat (taken_out s (bw b)))\<rparr>"

lemma drain_intents_nonneg [simp]: "0 \<le> drain_intents d"
  by (cases d) simp_all

lemma op_intents_nonneg [simp]: "0 \<le> op_intents k"
  by (cases k rule: op_intents.cases) simp_all

lemma op_popped_nonneg [simp]: "0 \<le> op_popped k"
proof -
  have "0 \<le> process_popped j" for j by (cases j) simp_all
  then show ?thesis by (cases k rule: op_popped.cases) simp_all
qed

lemma promised_nonneg: "0 \<le> promised s w" and taken_out_nonneg: "0 \<le> taken_out s w"
  unfolding promised_def taken_out_def
  by (intro add_nonneg_nonneg uint_ge_0 outstanding_nonneg; simp)+

section \<open>One instruction of the content's code\<close>

text \<open>What an event adds to the two totals.\<close>

fun intent_change :: "service_event option \<Rightarrow> int" where
  "intent_change (Some Intend) = 1"
| "intent_change (Some Replay) = - 1"
| "intent_change _ = 0"

fun serve_change :: "service_event option \<Rightarrow> int" where
  "serve_change (Some Serve) = 1"
| "serve_change _ = 0"

lemma drain_changes:
  assumes "run_pended_op_code d c = Some (c', x)"
  shows "uint (pending_submit c') + case_sum drain_intents (\<lambda>_. 0) x =
      uint (pending_submit c) + drain_intents d - (case d of RpPush _ _ \<Rightarrow> 1 | _ \<Rightarrow> 0)"
    and "processed c' = processed c"
    and "queue c' = (case d of RpPush n i \<Rightarrow> queue c @ [i] | _ \<Rightarrow> queue c)"
  using assms by (cases d; auto simp: uint_dec split: if_splits)+

lemma submit_changes:
  "submit_direct_code k c = Some (c', x) \<Longrightarrow> pending_submit c' = pending_submit c \<and> processed c' = processed c \<and>
     queue c' = (case k of SdPush i \<Rightarrow> queue c @ [i] | _ \<Rightarrow> queue c)"
  by (cases k) (auto split: if_splits)

lemma len_changes:
  "queue_len_code k c = Some (c', x) \<Longrightarrow> pending_submit c' = pending_submit c \<and> processed c' = processed c \<and>
     queue c' = queue c"
  by (cases k) (auto split: if_splits)

lemma process_changes:
  assumes "process_some_code k c = Some (c', x)" and "small c"
  shows "pending_submit c' = pending_submit c"
    and "uint (processed c') + case_sum process_popped (\<lambda>_. 0) x =
      uint (processed c) + process_popped k + (case k of PsPop n now \<Rightarrow> of_bool (n \<noteq> 0 \<and> queue c \<noteq> []) | _ \<Rightarrow> 0)"
    and "queue c' = (case k of PsPop n now \<Rightarrow> if n = 0 then queue c else tl (queue c) | _ \<Rightarrow> queue c)"
  using assms by (cases k; auto simp: small_inc word_gt_0 split: if_splits list.splits)+

section \<open>One instruction of a closure, and of an access\<close>

fun op_id :: "op_pc \<Rightarrow> u64" where
  "op_id (OpProducer (PrSubmit (SdPush i))) = i"
| "op_id (OpConsumer (CoDrain prior (RpPush n i))) = i"
| "op_id _ = 0"

fun pc_id :: "(op_pc, drain_pc, op_result) guard_pc \<Rightarrow> u64" where
  "pc_id (InOp held k) = op_id k"
| "pc_id (InDrain (RpPush n i) r) = i"
| "pc_id _ = 0"

fun queue_change :: "service_event option \<Rightarrow> u64 \<Rightarrow> u64 list \<Rightarrow> u64 list" where
  "queue_change (Some Submit) i q = q @ [i]"
| "queue_change (Some Replay) i q = q @ [i]"
| "queue_change (Some Serve) i q = tl q"
| "queue_change _ i q = q"

definition changes ::
  "service_event option \<Rightarrow> u64 \<Rightarrow> demo_inner \<Rightarrow> int \<Rightarrow> int \<Rightarrow> demo_inner \<Rightarrow> int \<Rightarrow> int \<Rightarrow> bool" where
  "changes e i c a p c' a' p' \<longleftrightarrow>
     uint (pending_submit c') + a' = uint (pending_submit c) + a + intent_change e \<and>
     uint (processed c') + p' = uint (processed c) + p + serve_change e \<and>
     queue c' = queue_change e i (queue c)"

lemma op_changes_drain:
  assumes "op_code s T f (OpConsumer (CoDrain prior d)) c = Some (c', x)"
  shows "changes (op_event (OpConsumer (CoDrain prior d)) c) (op_id (OpConsumer (CoDrain prior d))) c (drain_intents d) 0
    c' (case_sum op_intents (\<lambda>_. 0) x) (case_sum op_popped (\<lambda>_. 0) x)"
proof -
  from assms obtain y where y: "run_pended_op_code d c = Some (c', y)"
    and x: "case_sum op_intents (\<lambda>_. 0) x = case_sum drain_intents (\<lambda>_. 0) y" "case_sum op_popped (\<lambda>_. 0) x = 0"
    by (auto simp: tail_call_eq_Some call_eq_Some)
  from drain_changes [OF y] show ?thesis by (cases d) (simp_all add: changes_def x)
qed

lemma op_changes_process:
  assumes "op_code s T f (OpConsumer (CoProcess prior k)) c = Some (c', x)" and "small c"
  shows "changes (op_event (OpConsumer (CoProcess prior k)) c) i c 0 (process_popped k)
    c' (case_sum op_intents (\<lambda>_. 0) x) (case_sum op_popped (\<lambda>_. 0) x)"
proof -
  from assms(1) obtain y where y: "process_some_code k c = Some (c', y)"
    and x: "case_sum op_popped (\<lambda>_. 0) x = case_sum process_popped (\<lambda>_. 0) y" "case_sum op_intents (\<lambda>_. 0) x = 0"
    by (auto simp: tail_call_eq_Some call_eq_Some split: if_splits)
  from process_changes [OF y assms(2)] show ?thesis by (cases k) (auto simp: changes_def x)
qed

lemma op_changes:
  assumes "op_code s T f k c = Some (c', x)" and "small c"
  shows "changes (op_event k c) (op_id k) c (op_intents k) (op_popped k)
    c' (case_sum op_intents (\<lambda>_. 0) x) (case_sum op_popped (\<lambda>_. 0) x)"
proof -
  consider (drain) prior d where "k = OpConsumer (CoDrain prior d)"
    | (process) prior j where "k = OpConsumer (CoProcess prior j)"
    | (submit) j where "k = OpProducer (PrSubmit j)"
    | (other) "op_intents k = 0" "op_popped k = 0" "\<forall>j. k \<noteq> OpProducer (PrSubmit j)"
        "\<forall>prior d. k \<noteq> OpConsumer (CoDrain prior d)" "\<forall>prior j. k \<noteq> OpConsumer (CoProcess prior j)"
    by (cases k rule: op_pend.cases) auto
  then show ?thesis
  proof cases
    case drain
    with op_changes_drain assms(1) show ?thesis by simp
  next
    case process
    with op_changes_process [OF _ assms(2)] assms(1) show ?thesis by (simp del: op_code.simps op_event.simps)
  next
    case submit
    then obtain y where y: "submit_direct_code j c = Some (c', y)"
      and x: "case_sum op_intents (\<lambda>_. 0) x = 0" "case_sum op_popped (\<lambda>_. 0) x = 0"
      using assms(1) by (auto simp: tail_call_eq_Some)
    from submit_changes [OF y] show ?thesis by (cases j) (simp_all add: changes_def x submit)
  next
    case other
    with assms show ?thesis
      by (cases k rule: op_pend.cases)
        (auto simp: changes_def tail_call_eq_Some call_eq_Some pend_submit_def small_inc dest: len_changes split: if_splits)
  qed
qed

abbreviation pc_intents :: "(op_pc, drain_pc, op_result) guard_pc \<Rightarrow> int" where
  "pc_intents \<equiv> weight op_intents drain_intents (\<lambda>_. 0)"

abbreviation pc_popped :: "(op_pc, drain_pc, op_result) guard_pc \<Rightarrow> int" where
  "pc_popped \<equiv> weight op_popped (\<lambda>_. 0) (\<lambda>_. 0)"

lemma bench_arms_no_weight: "bench_arms f p \<Longrightarrow> op_intents f = 0 \<and> op_intents p = 0 \<and> op_popped f = 0 \<and> op_popped p = 0"
  by (auto simp: bench_arms_def)

lemma guard_changes:
  assumes "guard_step (op_code s T f) run_pended_op_code RpSwap l pc = Some (l', pc')"
    and "thread_ok t pc" and "small (content l)"
  shows "changes (pc_event pc (content l)) (pc_id pc) (content l) (pc_intents pc) (pc_popped pc)
    (content l') (pc_intents pc') (pc_popped pc')"
proof (cases pc)
  case (InOp held k)
  from assms(1) [unfolded InOp] obtain c x where x: "op_code s T f k (content l) = Some (c, x)" "l' = l\<lparr>content := c\<rparr>"
    "pc' = (case x of Inl k' \<Rightarrow> InOp held k' | Inr r \<Rightarrow> if held then AtSwap r else AtPendStore r)"
    by (rule guard_step_op)
  have "pc_intents pc' = case_sum op_intents (\<lambda>_. 0) x" "pc_popped pc' = case_sum op_popped (\<lambda>_. 0) x"
    by (cases x; simp add: x(3))+
  with op_changes [OF x(1) assms(3)] show ?thesis by (simp add: InOp x(2))
next
  case (InDrain d r)
  with assms(1) obtain c x where x: "run_pended_op_code d (content l) = Some (c, x)" "content l' = c"
    "pc' = (case x of Inl d' \<Rightarrow> InDrain d' r | Inr _ \<Rightarrow> AtRelease r)"
    by (auto split: option.splits sum.splits prod.splits)
  have w: "pc_intents pc' = case_sum drain_intents (\<lambda>_. 0) x" "pc_popped pc' = 0"
    by (cases x; simp add: x(3))+
  from drain_changes [OF x(1)] show ?thesis by (cases d) (simp_all add: changes_def InDrain x(2) w)
next
  case (AtGuard f p)
  with assms(1,2) show ?thesis
    by (auto simp: changes_def guard_def dest!: bench_arms_no_weight split: if_splits)
qed (use assms(1) in \<open>auto simp: changes_def guard_def split: if_splits\<close>)

section \<open>What the owner knows\<close>

lemma pend_weights: "op_pend k \<Longrightarrow> op_drawn k = 0" "op_pend k \<Longrightarrow> op_popped k = 0" "op_pend k \<Longrightarrow> op_intents k = 0"
  by (cases k rule: op_pend.cases; simp)+

text \<open>An event other than recording an intent belongs to the owner, who knows the next id.\<close>

lemma event_holds:
  assumes "ex.region pc c" and "pc_event pc c = Some e" and "e \<noteq> Intend"
  shows "holds pc"
proof (cases pc)
  case (InOp held k)
  with assms show ?thesis by (cases "(k, c)" rule: op_event.cases) (auto split: if_splits)
qed (use assms in simp_all)

lemma accept_event:
  assumes "ex.region pc c" and "holds pc" and "pc_event pc c \<in> {Some Submit, Some Replay}"
  shows "pc_id pc = next_id c - 1" and "weight op_drawn drain_drawn (\<lambda>_. 0) pc = 1" and "pc_popped pc = 0"
proof -
  have "pc_id pc = next_id c - 1 \<and> weight op_drawn drain_drawn (\<lambda>_. 0) pc = 1 \<and> pc_popped pc = 0"
  proof (cases pc)
    case (InOp held k)
    with assms show ?thesis by (cases "(k, c)" rule: op_event.cases) (auto split: if_splits)
  next
    case (InDrain d r)
    with assms show ?thesis by (cases d) auto
  qed (use assms in simp_all)
  then show "pc_id pc = next_id c - 1" and "weight op_drawn drain_drawn (\<lambda>_. 0) pc = 1" and "pc_popped pc = 0"
    by simp_all
qed

lemma serve_event:
  assumes "ex.region pc c" and "holds pc" and "pc_event pc c = Some Serve"
  shows "fifo 0 c" and "queue c \<noteq> []" and "weight op_drawn drain_drawn (\<lambda>_. 0) pc = 0" and "pc_popped pc = 0"
proof -
  have "fifo 0 c \<and> queue c \<noteq> [] \<and> weight op_drawn drain_drawn (\<lambda>_. 0) pc = 0 \<and> pc_popped pc = 0"
  proof (cases pc)
    case (InOp held k)
    with assms show ?thesis
      by (cases "(k, c)" rule: op_event.cases) (auto simp: demo_busy_def split: if_splits)
  next
    case (InDrain d r)
    with assms show ?thesis by (cases d) auto
  qed (use assms in simp_all)
  then show "fifo 0 c" and "queue c \<noteq> []" and "weight op_drawn drain_drawn (\<lambda>_. 0) pc = 0" and "pc_popped pc = 0"
    by simp_all
qed

text \<open>The next id in terms of the service.\<close>

lemma owner_next_id:
  assumes "fits s" and "bench_reach s b" and "act (bw b) t = Some pc" and "holds pc" and "pc_popped pc = 0"
    and "weight op_drawn drain_drawn (\<lambda>_. 0) pc = of_nat a"
  shows "next_id (content (lk (bw b))) = of_nat (nat (taken_out s (bw b)) + length (queue (content (lk (bw b)))) + 1 + a)"
    (is "next_id ?c = _")
proof -
  have "outstanding s op_popped (\<lambda>_. 0) (\<lambda>_. 0) (bw b) = 0"
    using holder_outstanding [OF assms(2-4), of op_popped "\<lambda>_. 0"] assms(5) by (simp add: pend_weights)
  then have t: "taken_out s (bw b) = uint (processed ?c)" by (simp add: taken_out_def)
  have "outstanding s op_drawn drain_drawn (\<lambda>_. 0) (bw b) = int a"
    using holder_outstanding [OF assms(2-4), of op_drawn drain_drawn] assms(6) by (simp add: pend_weights)
  with bench_reach_accounts [OF assms(2,1)]
  have "uint (next_id ?c) = uint (processed ?c) + int (length (queue ?c)) + 1 + int a"
    by (simp add: acc_inv_def accounts_def bal_queue_def)
  then have "(of_int (uint (next_id ?c)) :: u64) = of_int (uint (processed ?c) + int (length (queue ?c)) + 1 + int a)"
    by (rule arg_cong)
  then show ?thesis by (simp add: t)
qed

section \<open>Refinement\<close>

text \<open>The totals and the queue after one instruction of an access.\<close>

lemma soft_totals:
  assumes "fits s" and "bench_reach s b" and "access_instr s fin t (bw b) = Some w" and "act (bw b) t = Some pc"
  defines "e \<equiv> pc_event pc (content (lk (bw b)))"
  shows "promised s w = promised s (bw b) + intent_change e"
    and "taken_out s w = taken_out s (bw b) + serve_change e"
    and "queue (content (lk w)) = queue_change e (pc_id pc) (queue (content (lk (bw b))))"
proof -
  note inv = bench_reach_ctl [OF assms(2)] bench_reach_call [OF assms(2)]
  have t: "t \<in> threads s" by (rule in_call_thread [OF inv(1) call_inv_in_call [OF inv(2) assms(4)]])
  from assms(3,4) obtain l' pc' where
    step: "guard_step (op_code s (total_ops_of s) fin) run_pended_op_code RpSwap (lk (bw b)) pc = Some (l', pc')"
    and w: "w = bw b\<lparr>lk := l', act := (act (bw b))(t \<mapsto> pc')\<rparr>"
    by (auto elim: access_instr_cases)
  have "small (content (lk (bw b)))" by (rule bench_reach_small [OF assms(1,2)])
  from guard_changes [OF step call_inv_ok [OF inv(2) assms(4)] this]
  show "promised s w = promised s (bw b) + intent_change e"
    and "taken_out s w = taken_out s (bw b) + serve_change e"
    and "queue (content (lk w)) = queue_change e (pc_id pc) (queue (content (lk (bw b))))"
    unfolding promised_def taken_out_def w outstanding_instr [OF t assms(4)]
    by (simp_all add: changes_def e_def)
qed

text \<open>The totals, the queue and the next id are what the service needs.\<close>

lemma service_changes:
  assumes "p' = p + intent_change e" and "t' = t + serve_change e" and "q' = queue_change e i q"
    and nonneg: "0 \<le> p" "0 \<le> t" "0 \<le> p'"
    and accept: "e \<in> {Some Submit, Some Replay} \<Longrightarrow> i = of_nat (nat t + length q + 1)"
    and serve: "e = Some Serve \<Longrightarrow> q \<noteq> [] \<and> hd q = of_nat (nat t + 1)"
  shows "service_step e \<lparr>intents = nat p, waiting = q, served = ids 1 (nat t)\<rparr> =
    Some \<lparr>intents = nat p', waiting = q', served = ids 1 (nat t')\<rparr>"
proof (cases e)
  case (Some ev)
  show ?thesis
  proof (cases ev)
    case Submit
    with Some assms(1-3) accept show ?thesis by (simp add: new_id_def)
  next
    case Intend
    with Some assms(1-5) show ?thesis by (simp add: nat_add_distrib)
  next
    case Replay
    with Some assms(1) nonneg have "0 < p" by simp
    with Some Replay assms(1-3) accept show ?thesis by (auto simp: new_id_def nat_diff_distrib)
  next
    case Serve
    with Some serve obtain x r where q: "q = x # r" "x = of_nat (nat t + 1)" by (cases q) auto
    have "nat t' = Suc (nat t)" using Some Serve assms(2) nonneg(2) by (simp add: nat_add_distrib)
    with Some Serve assms(1,3) q show ?thesis by (simp add: ids_Suc add.commute)
  qed
qed (use assms(1-3) in simp)

lemma soft_service_instr:
  assumes "fits s" and "bench_reach s b" and "access_instr s fin t (bw b) = Some (bw b')"
  shows "service_step (soft_event t b) (soft_service s b) = Some (soft_service s b')"
proof -
  let ?c = "content (lk (bw b))"
  from assms(3) obtain pc where pc: "act (bw b) t = Some pc" by (auto elim: access_instr_cases)
  let ?e = "pc_event pc ?c"
  have region: "ex.region pc ?c" using bench_reach_region [OF assms(2)] pc by (simp add: ex.region_inv_def)
  note holder = event_holds [OF region]
  note next_id = owner_next_id [OF assms(1,2) pc]
  have accept: "pc_id pc = of_nat (nat (taken_out s (bw b)) + length (queue ?c) + 1)"
    if "?e \<in> {Some Submit, Some Replay}"
  proof -
    have h: "holds pc" using holder that by auto
    note a = accept_event [OF region h that]
    from next_id [OF h a(3), of 1] a(1,2) show ?thesis by simp
  qed
  have serve: "queue ?c \<noteq> [] \<and> hd (queue ?c) = of_nat (nat (taken_out s (bw b)) + 1)" if "?e = Some Serve"
  proof -
    have h: "holds pc" using holder that by simp
    note a = serve_event [OF region h that]
    then obtain x r where q: "queue ?c = x # r" by (cases "queue ?c") auto
    from next_id [OF h a(4), of 0] a(1,3) q show ?thesis by (simp add: fifo_def ids_Suc_Cons)
  qed
  note total = soft_totals [OF assms pc]
  show ?thesis
    unfolding soft_event_def pc option.case soft_service_def
    by (rule service_changes [OF total promised_nonneg taken_out_nonneg promised_nonneg accept serve])
qed

lemma soft_service_step:
  assumes "fits s" and "bench_reach s b" and "bench_step s t b = Some b'"
  shows "service_step (soft_event t b) (soft_service s b) = Some (soft_service s b')"
proof -
  note inv = bench_reach_ctl [OF assms(2)] bench_reach_call [OF assms(2)]
  from assms(3) inv(2) show ?thesis
  proof (cases rule: bench_step_access)
    case idle
    then show ?thesis by (simp add: soft_event_def soft_service_def)
  next
    case (enter f p)
    have "ctl_inv s b'" using assms(3) inv(1) by (rule ctl_inv_step)
    with enter(3) have "t \<in> threads s" by (rule in_call_thread [rotated])
    with enter show ?thesis
      by (simp add: soft_event_def soft_service_def promised_def taken_out_def outstanding_enter)
  next
    case (leave r)
    then have "t \<in> threads s" by (intro in_call_thread [OF inv(1) call_inv_in_call [OF inv(2)]])
    with leave show ?thesis
      by (simp add: soft_event_def soft_service_def promised_def taken_out_def outstanding_leave)
  next
    case (instr fin)
    with assms(1,2) show ?thesis by (rule soft_service_instr)
  qed
qed

interpretation ss: implements_service "bench_step s" bench_new "bench_reach s" "fits s" "soft_service s" soft_event for s
proof
  show "soft_service s bench_new = service_new"
    by (simp add: soft_service_def service_new_def promised_def taken_out_def bench_new_def world_new_def
        soft_lock_new_def demo_inner_new_def outstanding_def)
qed (rule soft_service_step)

section \<open>Every call takes effect exactly once\<close>

text \<open>Whether the call that a producer is in has already pushed its item or recorded its intent.\<close>

fun op_effective :: "op_pc \<Rightarrow> int" where
  "op_effective (OpProducer (PrSubmit SdCount)) = 1"
| "op_effective (OpProducer (PrSubmit SdUnlock)) = 1"
| "op_effective _ = 0"

abbreviation pc_effective :: "(op_pc, drain_pc, op_result) guard_pc \<Rightarrow> int" where
  "pc_effective \<equiv> weight op_effective (\<lambda>_. 0) result_entered"

lemma op_effective_weights:
  "op_effective k = op_entered k - op_taken k - op_lag k - op_due k - op_drawn k + op_popped k + op_intents k"
proof -
  have d: "drain_taken d + drain_due d + drain_drawn d = drain_intents d" for d by (cases d) simp_all
  have "op_effective (OpProducer (PrSubmit j)) = 1 - submit_lag j - submit_due j - submit_drawn j" for j
    by (cases j) simp_all
  then show ?thesis by (cases k rule: op_pend.cases) (simp_all add: d [symmetric])
qed

lemma pc_effective_weights:
  "weight_opt op_effective (\<lambda>_. 0) result_entered x =
     weight_opt op_entered (\<lambda>_. 0) result_entered x - weight_opt op_taken drain_taken (\<lambda>_. 0) x -
     weight_opt op_lag (\<lambda>_. 0) (\<lambda>_. 0) x - weight_opt op_due drain_due (\<lambda>_. 0) x -
     weight_opt op_drawn drain_drawn (\<lambda>_. 0) x + weight_opt op_popped (\<lambda>_. 0) (\<lambda>_. 0) x +
     weight_opt op_intents drain_intents (\<lambda>_. 0) x"
proof -
  have d: "drain_taken d + drain_due d + drain_drawn d = drain_intents d" for d by (cases d) simp_all
  show ?thesis
    by (cases x; simp) (rename_tac pc, case_tac pc; simp add: op_effective_weights d [symmetric])
qed

lemma accepted_sum:
  assumes "fits s" and "bench_reach s b"
  shows "int (accepted (soft_service s b)) =
    completed_all s (ppc b) + outstanding s op_effective (\<lambda>_. 0) result_entered (bw b)"
proof -
  let ?c = "content (lk (bw b))"
  have "outstanding s op_effective (\<lambda>_. 0) result_entered (bw b) =
     outstanding s op_entered (\<lambda>_. 0) result_entered (bw b) - outstanding s op_taken drain_taken (\<lambda>_. 0) (bw b) -
     outstanding s op_lag (\<lambda>_. 0) (\<lambda>_. 0) (bw b) - outstanding s op_due drain_due (\<lambda>_. 0) (bw b) -
     outstanding s op_drawn drain_drawn (\<lambda>_. 0) (bw b) + outstanding s op_popped (\<lambda>_. 0) (\<lambda>_. 0) (bw b) +
     outstanding s op_intents drain_intents (\<lambda>_. 0) (bw b)"
    unfolding outstanding_def pc_effective_weights sum.distrib sum_subtractf ..
  moreover have "int (accepted (soft_service s b)) = promised s (bw b) + int (length (queue ?c)) + taken_out s (bw b)"
    by (simp add: accepted_def soft_service_def promised_nonneg taken_out_nonneg)
  ultimately show ?thesis
    using bench_reach_accounts [OF assms(2,1), unfolded acc_inv_def accounts_def bal_defs]
    unfolding promised_def taken_out_def by linarith
qed

text \<open>Only producers have calls that take effect.\<close>

fun took_effect :: "(op_pc, drain_pc, op_result) guard_pc \<Rightarrow> bool" where
  "took_effect (AtGuard f p) = False"
| "took_effect (InOp held k) = (k = OpProducer (PrSubmit SdCount) \<or> k = OpProducer (PrSubmit SdUnlock))"
| "took_effect (InDrain d r) = (r = RProducer)"
| "took_effect (AtSwap r) = (r = RProducer)"
| "took_effect (AtRelease r) = (r = RProducer)"
| "took_effect (AtRecheck r) = (r = RProducer)"
| "took_effect (AtReacquire r) = (r = RProducer)"
| "took_effect (AtPendStore r) = (r = RProducer)"
| "took_effect (Returned r) = (r = RProducer)"

definition effective :: "bench \<Rightarrow> nat \<Rightarrow> nat" where
  "effective b p =
     (case act (bw b) (TProducer p) of Some pc \<Rightarrow> if took_effect pc then 1 else 0 | None \<Rightarrow> 0)"

lemma effective_weight:
  "int (effective b p) = weight_opt op_effective (\<lambda>_. 0) result_entered (act (bw b) (TProducer p))"
proof -
  have k: "op_effective k = (if k = OpProducer (PrSubmit SdCount) \<or> k = OpProducer (PrSubmit SdUnlock) then 1 else 0)" for k
    by (cases k rule: op_effective.cases) simp_all
  have r: "result_entered r = (if r = RProducer then 1 else 0)" for r by (cases r) simp_all
  have "pc_effective pc = (if took_effect pc then 1 else 0)" for pc by (cases pc) (simp_all add: k r)
  then show ?thesis by (simp add: effective_def split: option.splits)
qed

lemma others_ineffective:
  assumes "thread_ok t pc" and "\<forall>p. t \<noteq> TProducer p"
  shows "pc_effective pc = 0"
proof -
  have k: "op_of t k \<Longrightarrow> op_effective k = 0" for k using assms(2) by (cases "(t, k)" rule: op_of.cases) auto
  have r: "result_of t r \<Longrightarrow> result_entered r = 0" for r using assms(2) by (cases "(t, r)" rule: result_of.cases) auto
  from assms(1) show ?thesis by (cases pc) (simp_all add: k r)
qed

lemma accepted_exact:
  assumes "fits s" and "bench_reach s b"
  shows "accepted (soft_service s b) =
    (\<Sum>p<unat (producers s). completed (unat (ops_per_producer s)) (ppc b p) + effective b p)"
proof -
  note ok = call_inv_ok [OF bench_reach_call [OF assms(2)]]
  have zero: "weight_opt op_effective (\<lambda>_. 0) result_entered (act (bw b) t) = 0" if "\<forall>p. t \<noteq> TProducer p" for t
    using that others_ineffective [OF ok] by (cases "act (bw b) t") simp_all
  have "outstanding s op_effective (\<lambda>_. 0) result_entered (bw b) =
      (\<Sum>p<unat (producers s). weight_opt op_effective (\<lambda>_. 0) result_entered (act (bw b) (TProducer p)))"
    unfolding outstanding_def sum_threads by (simp add: zero)
  also have "\<dots> = (\<Sum>p<unat (producers s). int (effective b p))"
    by (simp only: effective_weight)
  finally have "int (accepted (soft_service s b)) =
      int (\<Sum>p<unat (producers s). completed (unat (ops_per_producer s)) (ppc b p) + effective b p)"
    by (simp add: accepted_sum [OF assms] completed_all_def sum.distrib)
  then show ?thesis by (simp only: of_nat_eq_iff)
qed

section \<open>The end of the benchmark\<close>

lemma soft_waiting: "queue (content (lk (bw b))) = waiting (soft_service s b)"
  by (simp add: soft_service_def)

lemma soft_settled_end:
  assumes "fits s" and "bench_reach s b" and "mpc b = MReturn ct"
  shows "settled s (content (lk (bw b)))" and "act (bw b) t = None"
proof -
  note inv = bench_reach_ctl [OF assms(2)] bench_reach_call [OF assms(2)]
  show none: "act (bw b) t = None" for t
  proof (cases t)
    case TMain
    with assms(3) show ?thesis by (intro call_inv_None [OF inv(2)]) simp
  qed (use only_one_active [OF inv] assms(3) in simp_all)
  show "settled s (content (lk (bw b)))"
    by (rule settled_joined [OF bench_reach_accounts [OF assms(2,1)] bench_reach_con [OF assms(2,1)] inv assms(1)
          bench_reach_batches [OF assms(2,1)]]) (simp_all add: assms(3) none)
qed

lemma soft_pending_end:
  assumes "fits s" and "bench_reach s b" and "mpc b = MReturn ct"
  shows "pending_submit (content (lk (bw b))) = 0"
  using soft_settled_end(1) [OF assms] by (simp add: settled_def)

lemma soft_service_end:
  assumes "fits s" and "bench_reach s b" and "mpc b = MReturn ct"
  shows "soft_service s b = \<lparr>intents = 0, waiting = [], served = ids 1 (total_nat s)\<rparr>"
proof -
  note fin = soft_settled_end [OF assms]
  then have "promised s (bw b) = 0" "taken_out s (bw b) = int (total_nat s)" "queue (content (lk (bw b))) = []"
    using uint_total [OF assms(1)] by (simp_all add: promised_def taken_out_def outstanding_def settled_def)
  then show ?thesis by (simp add: soft_service_def)
qed

end
