(* ===== verification/MutexService.thy ===== *)
theory MutexService
  imports Service MutexBenchLive
begin

text \<open>
  The mutex benchmark implements the service of \<open>Service\<close> too; it never promises anything for later.
\<close>

section \<open>Where the operations take effect\<close>

fun mutex_event :: "mtid \<Rightarrow> mutex_bench \<Rightarrow> service_event option" where
  "mutex_event MtMain b = None"
| "mutex_event MtConsumer b =
     (case mc b of
        McPop n now \<Rightarrow> if n = 0 \<or> mqueue (inner b) = [] then None else Some Serve
      | _ \<Rightarrow> None)"
| "mutex_event (MtProducer p) b = (case mp b p of MpPush i x \<Rightarrow> Some Submit | _ \<Rightarrow> None)"

definition mutex_taken :: "mutex_bench \<Rightarrow> nat" where
  "mutex_taken b = unat (mprocessed (inner b)) + popped (mc b)"

text \<open>\<open>served\<close> is computed from the counter, as in \<open>SoftService\<close>, and justified in the same way.\<close>

definition mutex_service :: "mutex_bench \<Rightarrow> service" where
  "mutex_service b = \<lparr>intents = 0, waiting = mqueue (inner b), served = ids 1 (mutex_taken b)\<rparr>"

lemma mutex_waiting: "mqueue (inner b) = waiting (mutex_service b)"
  by (simp add: mutex_service_def)

section \<open>Refinement\<close>

lemma mutex_service_producer:
  assumes "mutex_producer_step s p (mp b p) (inner b) = Some (c, k)" and "mutex_inv s b"
  shows "service_step (mutex_event (MtProducer p) b) (mutex_service b) =
    Some (mutex_service (b\<lparr>inner := c, mp := (mp b)(p := k)\<rparr>))"
proof (cases "mp b p")
  case (MpPush i x)
  have inv: "mutex_ctl s b" "mutex_excl b" "mutex_acc s b" using assms(2) by (simp_all add: mutex_inv_def)
  have "p < unat (producers s)" by (rule mutex_spawned [OF inv(1)]) (simp add: MpPush)
  from mutex_push_id [OF inv(3,2) MpPush this]
  have "x = new_id (mutex_service b)" by (simp add: new_id_def mutex_service_def mutex_taken_def add_ac)
  with assms(1) MpPush show ?thesis by (auto simp: mutex_service_def mutex_taken_def)
qed (use assms(1) in \<open>auto simp: mutex_service_def mutex_taken_def split: if_splits\<close>)

lemma mutex_service_consumer:
  assumes "mutex_consumer_step s fin (mc b) (inner b) = Some (c, k)" and "mutex_inv s b" and "fits s"
  shows "service_step (mutex_event MtConsumer b) (mutex_service b) =
    Some (mutex_service (b\<lparr>inner := c, mc := k\<rparr>))"
proof (cases "mc b")
  case (McPop n now)
  show ?thesis
  proof (cases "n = 0 \<or> mqueue (inner b) = []")
    case True
    with McPop assms(1) show ?thesis by (auto simp: mutex_service_def mutex_taken_def split: if_splits list.splits)
  next
    case False
    then obtain y q where q: "mqueue (inner b) = y # q" by (cases "mqueue (inner b)") auto
    have "mutex_order (inner b) 0" using assms(2) McPop by (simp add: mutex_inv_def mutex_acc_def)
    with q have "y = mprocessed (inner b) + 1" by (simp add: mutex_order_def ids_Suc_Cons)
    with False McPop assms(1) q show ?thesis
      by (auto simp: mutex_service_def mutex_taken_def ids_Suc add.commute)
  qed
next
  case (McProcess n now)
  have inv: "mutex_ctl s b" "mutex_acc s b" using assms(2) by (simp_all add: mutex_inv_def)
  have "uint (mprocessed (inner b)) < 2 ^ 64 - 1"
    using mutex_processed_le [OF inv] fits_int [OF assms(3)] by linarith
  then have "unat (mprocessed (inner b) + 1) = unat (mprocessed (inner b)) + 1" by (rule unat_inc_uint)
  with McProcess assms(1) show ?thesis by (auto simp: mutex_service_def mutex_taken_def)
qed (use assms(1) in \<open>auto simp: mutex_service_def mutex_taken_def split: if_splits\<close>)

lemma mutex_service_main:
  assumes "mutex_main_step s b = Some b'" and "mutex_ctl s b"
  shows "mutex_service b' = mutex_service b"
  using assms(1)
proof (cases rule: mutex_main_cases)
  case consumer
  then have "mc b = McNew" using assms(2) by (simp add: mutex_ctl_def)
  with consumer show ?thesis by (simp add: mutex_service_def mutex_taken_def)
qed (simp_all add: mutex_service_def mutex_taken_def)

lemma mutex_service_step:
  assumes "fits s" and "mutex_reach s b" and "mutex_step s t b = Some b'"
  shows "service_step (mutex_event t b) (mutex_service b) = Some (mutex_service b')"
proof -
  note inv = mutex_reach_inv [OF assms(2,1)]
  show ?thesis
  proof (cases t)
    case MtMain
    with assms(3) inv mutex_service_main show ?thesis by (simp add: mutex_inv_def)
  next
    case MtConsumer
    with assms(3) obtain c k where "mutex_consumer_step s (mdone b) (mc b) (inner b) = Some (c, k)"
      "b' = b\<lparr>inner := c, mc := k\<rparr>" by auto
    with mutex_service_consumer [OF _ inv assms(1)] MtConsumer show ?thesis by simp
  next
    case (MtProducer p)
    with assms(3) obtain c k where "mutex_producer_step s p (mp b p) (inner b) = Some (c, k)"
      "b' = b\<lparr>inner := c, mp := (mp b)(p := k)\<rparr>" by auto
    with mutex_service_producer [OF _ inv] MtProducer show ?thesis by simp
  qed
qed

interpretation ms: implements_service "mutex_step s" mutex_bench_new "mutex_reach s" "fits s" mutex_service mutex_event
  for s
proof
  show "mutex_service mutex_bench_new = service_new"
    by (simp add: mutex_service_def service_new_def mutex_taken_def mutex_bench_new_def mutex_inner_new_def)
qed (rule mutex_service_step)

section \<open>Every operation takes effect exactly once\<close>

lemma mutex_accepted:
  assumes "fits s" and "mutex_reach s b"
  shows "accepted (mutex_service b) = (\<Sum>p<unat (producers s). pushed (unat (ops_per_producer s)) (mp b p))"
proof -
  have "mutex_acc s b" using mutex_reach_inv [OF assms(2,1)] by (simp add: mutex_inv_def)
  then have "uint (mprocessed (inner b)) + int (popped (mc b)) + int (length (mqueue (inner b))) = pushed_all s (mp b)"
    by (simp add: mutex_acc_def)
  then have "int (accepted (mutex_service b)) =
      int (\<Sum>p<unat (producers s). pushed (unat (ops_per_producer s)) (mp b p))"
    by (simp add: accepted_def mutex_service_def mutex_taken_def sum_over_def)
  then show ?thesis by (simp only: of_nat_eq_iff)
qed

section \<open>The end of the benchmark\<close>

lemma mutex_service_end:
  assumes "fits s" and "mutex_reach s b" and "mm b = MmReturn r"
  shows "mutex_service b = \<lparr>intents = 0, waiting = [], served = ids 1 (total_nat s)\<rparr>"
proof -
  have inv: "mutex_ctl s b" "mutex_acc s b" "mutex_fin s b"
    using mutex_reach_inv [OF assms(2,1)] by (simp_all add: mutex_inv_def)
  have "mc b = McExit" "mdone b" using inv(1) assms(3) by (simp_all add: mutex_ctl_def)
  moreover from this inv(3) have R: "uint (mprocessed (inner b)) = int (total_nat s)"
    by (simp add: mutex_fin_def mutex_all_done_def)
  ultimately have "length (mqueue (inner b)) = 0"
    using mutex_complete(1) [OF inv(1) _ inv(2)] by simp
  moreover have "unat (mprocessed (inner b)) = total_nat s" using R by (simp add: unat_eq_nat_uint)
  ultimately show ?thesis using \<open>mc b = McExit\<close> by (simp add: mutex_service_def mutex_taken_def)
qed

end
