(* ===== verification/ServiceProperties.thy ===== *)
theory ServiceProperties
  imports SoftService MutexService SoftProperties MutexProperties
begin

text \<open>
  Both benchmarks implement the service of \<open>Service\<close>: the properties that follow from the refinements.
\<close>

section \<open>The soft-lock benchmark\<close>

text \<open>C2: refinement: starting from the empty service, every step of every thread is exactly the abstract
  operation that takes effect at that instruction (submitting, recording an intent, replaying one,
  serving one) or changes nothing of the service; and in every reachable state the items served and
  waiting are the ids \<open>1, 2, ...\<close> in this order, each once.\<close>

theorem softlock_refines_service:
  assumes "fits s" and "bench_reach s b" and "bench_step s t b = Some b'"
  shows "soft_service s bench_new = service_new \<and>
    service_step (soft_event t b) (soft_service s b) = Some (soft_service s b') \<and>
    served (soft_service s b) @ waiting (soft_service s b) =
      ids 1 (length (served (soft_service s b)) + length (waiting (soft_service s b)))"
  using ss.abs_start ss.abs_step [OF assms] ss.abs_in_order [OF assms(1,2)] by (simp add: in_order_def)

lemma intend_run:
  "map_option (\<lambda>b. (soft_event (TProducer 1) b, bench_step duo (TProducer 1) b = None))
     (run_schedule duo (take 9 overlap) bench_new) = Some (Some Intend, False)"
  by code_simp

theorem softlock_refines_service_witness:
  "\<exists>b b'. bench_reach duo b \<and> bench_step duo (TProducer 1) b = Some b' \<and>
     intents (soft_service duo b') = intents (soft_service duo b) + 1"
proof -
  obtain b where b: "bench_reach duo b"
    and v: "(soft_event (TProducer 1) b, bench_step duo (TProducer 1) b = None) = (Some Intend, False)"
    by (rule reach_schedule [OF intend_run])
  then obtain b' where b': "bench_step duo (TProducer 1) b = Some b'" by auto
  from softlock_refines_service [OF duo_fits b this] v
  have "service_do Intend (soft_service duo b) = Some (soft_service duo b')" by simp
  then have "intents (soft_service duo b') = intents (soft_service duo b) + 1" by (rule service_do_effects)
  with b b' show ?thesis by blast
qed

text \<open>C3: exactly once: in every reachable state, the number of operations that the service has accepted
  (promised, waiting or served) is the number of iterations that the producers have completed plus
  those whose present call has already taken effect. No call is lost or counted twice, whichever arm
  it went through, and none returns before it has taken effect.\<close>

theorem softlock_exactly_once:
  assumes "fits s" and "bench_reach s b"
  shows "accepted (soft_service s b) =
      (\<Sum>p<unat (producers s). completed (unat (ops_per_producer s)) (ppc b p) + effective b p)"
  by (rule accepted_exact [OF assms])

theorem softlock_exactly_once_witness:
  "\<exists>b. bench_reach duo b \<and> queue (content (lk (bw b))) = [1] \<and> pending_submit (content (lk (bw b))) = 1 \<and>
     accepted (soft_service duo b) =
       completed 1 (ppc b 0) + effective b 0 + (completed 1 (ppc b 1) + effective b 1)"
proof -
  obtain b where b: "bench_reach duo b" and "(mpc b, cpc b, view b, lk (bw b)) =
      (MJoin 0, CLoop, [None, None, None, None], overlap_end)"
    by (rule reach_schedule [OF overlap_run])
  then have "lk (bw b) = overlap_end" by simp
  moreover have "unat (producers duo) = Suc (Suc 0)" "unat (ops_per_producer duo) = 1" by (simp_all add: duo_def)
  ultimately show ?thesis
    using softlock_exactly_once [OF duo_fits b] b by (intro exI [of _ b]) (simp add: overlap_end_def)
qed

section \<open>The mutex benchmark\<close>

text \<open>C19: the same refinement for the mutex benchmark, which submits directly only: every step is the
  abstract operation that takes effect there or changes nothing of the service; items are served in
  the order of their ids; accepted are exactly the iterations whose push has been executed.\<close>

theorem mutex_refines_service:
  assumes "fits s" and "mutex_reach s b" and "mutex_step s t b = Some b'"
  shows "mutex_service mutex_bench_new = service_new \<and>
    service_step (mutex_event t b) (mutex_service b) = Some (mutex_service b') \<and>
    served (mutex_service b) @ waiting (mutex_service b) =
      ids 1 (length (served (mutex_service b)) + length (waiting (mutex_service b))) \<and>
    accepted (mutex_service b) = (\<Sum>p<unat (producers s). pushed (unat (ops_per_producer s)) (mp b p))"
  using ms.abs_start ms.abs_step [OF assms] ms.abs_in_order [OF assms(1,2)] mutex_accepted [OF assms(1,2)]
  by (simp add: in_order_def)

lemma submit_run:
  "map_option (\<lambda>b. (mqueue (inner b), mutex_event (MtProducer 0) b, mutex_step solo (MtProducer 0) b = None))
     (mutex_schedule solo (take 7 solo_run) mutex_bench_new) = Some ([], Some Submit, False)"
  by code_simp

theorem mutex_refines_service_witness:
  "\<exists>b b'. mutex_reach solo b \<and> mutex_step solo (MtProducer 0) b = Some b' \<and>
     waiting (mutex_service b') = [new_id (mutex_service b)]"
proof -
  obtain b where b: "mutex_reach solo b"
    and v: "(mqueue (inner b), mutex_event (MtProducer 0) b, mutex_step solo (MtProducer 0) b = None) = ([], Some Submit, False)"
    by (rule mutex_reach_schedule [OF submit_run])
  then obtain b' where b': "mutex_step solo (MtProducer 0) b = Some b'" by auto
  from mutex_refines_service [OF solo_fits b this] v
  have "service_do Submit (mutex_service b) = Some (mutex_service b')" by simp
  from service_do_effects(1) [OF this] have "waiting (mutex_service b') = waiting (mutex_service b) @ [new_id (mutex_service b)]" .
  moreover have "waiting (mutex_service b) = []" using v by (simp add: mutex_service_def)
  ultimately have "waiting (mutex_service b') = [new_id (mutex_service b)]" by simp
  with b b' show ?thesis by blast
qed

section \<open>The two benchmarks compared\<close>

text \<open>C20: the comparison that the demo makes is between equals. Watch nothing but the two queues along any
  two schedules under which the benchmarks return for the same scenario: the items that leave the
  queue, in the order in which they leave it, are in both runs the ids \<open>1 .. total\<close>, each once; and
  nothing is left over, neither in a queue nor as a recorded intent.\<close>

theorem benchmarks_serve_the_same:
  assumes "fits s"
    and "run_schedule s ts bench_new = Some b" and "mpc b = MReturn ct"
    and "mutex_schedule s us mutex_bench_new = Some m" and "mm m = MmReturn r"
  shows "taken (bench_step s) (\<lambda>b. queue (content (lk (bw b)))) ts bench_new = ids 1 (total_nat s) \<and>
    taken (mutex_step s) (\<lambda>m. mqueue (inner m)) us mutex_bench_new = ids 1 (total_nat s) \<and>
    queue (content (lk (bw b))) = [] \<and> mqueue (inner m) = [] \<and> pending_submit (content (lk (bw b))) = 0"
proof -
  have small: "total_nat s \<le> 2 ^ 64" using assms(1) by (simp add: fits_def)
  have b: "bench_reach s b" by (rule run_schedule_reach [OF assms(2) bench_start])
  note soft = soft_service_end [OF assms(1) b assms(3)]
  have "taken (bench_step s) (\<lambda>b. queue (content (lk (bw b)))) ts bench_new = served (soft_service s b)"
    by (rule ss.taken_from_start [OF assms(1)])
      (use assms(2) small in \<open>simp_all add: run_schedule_steps soft soft_waiting accepted_def\<close>)
  moreover have m: "mutex_reach s m" by (rule mutex_schedule_reach [OF assms(4) mutex_start])
  note mutex = mutex_service_end [OF assms(1) m assms(5)]
  have "taken (mutex_step s) (\<lambda>m. mqueue (inner m)) us mutex_bench_new = served (mutex_service m)"
    by (rule ms.taken_from_start [OF assms(1)])
      (use assms(4) small in \<open>simp_all add: mutex_schedule_steps mutex mutex_waiting accepted_def\<close>)
  moreover have "queue (content (lk (bw b))) = []" "mqueue (inner m) = []"
    using soft_waiting [of b s] mutex_waiting [of m] by (simp_all add: soft mutex)
  ultimately show ?thesis
    using soft_pending_end [OF assms(1) b assms(3)] by (simp add: soft mutex)
qed

theorem benchmarks_serve_the_same_witness:
  "\<exists>ts b us m r. run_schedule duo ts bench_new = Some b \<and> mpc b = MReturn duo_counts \<and>
     mutex_schedule duo us mutex_bench_new = Some m \<and> mm m = MmReturn r \<and>
     taken (bench_step duo) (\<lambda>b. queue (content (lk (bw b)))) ts bench_new = [1, 2] \<and>
     taken (mutex_step duo) (\<lambda>m. mqueue (inner m)) us mutex_bench_new = [1, 2]"
proof -
  obtain b where b: "run_schedule duo to_end bench_new = Some b" "mpc b = MReturn duo_counts"
    using to_end_run by auto
  have "can_serve duo" "fits_i32 duo" using duo_fits by (simp_all add: can_serve_def fits_i32_def duo_def)
  from mutex_can_return [OF mutex_start this(2,1)] obtain us m r
    where m: "mutex_schedule duo us mutex_bench_new = Some m" "mm m = MmReturn r" by blast
  have "ids 1 (total_nat duo) = [1, 2]" by (simp add: total_nat_def duo_def ids_def upt_rec)
  with benchmarks_serve_the_same [OF duo_fits b m] b m show ?thesis
    by (intro exI [of _ to_end] exI [of _ b] exI [of _ us] exI [of _ m] exI [of _ r]) simp
qed

end
