(* ===== verification/SoftInterrupts.thy ===== *)
theory SoftInterrupts
  imports SoftBenchLive SoftProperties
begin

text \<open>
  Nested accesses of the demo's content under the interrupt discipline: once no further interrupt
  arrives, every access in progress returns, the innermost first, and nothing is left behind.
\<close>

section \<open>Ownership of the content in a stack of accesses\<close>

context exclusive
begin

definition nest_region :: "('c, 'k, 'd, 'r) nest \<Rightarrow> bool" where
  "nest_region w \<longleftrightarrow> (\<forall>pc\<in>set (snd w). region pc (content (fst w))) \<and>
     (\<not> locked (fst w) \<longrightarrow> res (content (fst w)))"

text \<open>An owner is locked, and what is suspended below it owns nothing.\<close>

lemma nested_top:
  assumes "nested lo (pc # pcs)" and "holds pc"
  shows "lo" and "qc \<in> set pcs \<Longrightarrow> \<not> holds qc"
proof -
  have "lo \<and> nested False pcs" using assms by (cases pc) simp_all
  then show "lo" and "qc \<in> set pcs \<Longrightarrow> \<not> holds qc" using nested_False_holds by blast+
qed

lemma nest_region_execute:
  assumes "guard_step (os e) ds d0 l pc = Some (l', pc')" and "nested (locked l) (pc # pcs)"
    and "nest_region (l, pc # pcs)"
  shows "nest_region (l', pc' # pcs)"
proof -
  have reg: "region pc (content l)" "\<not> locked l \<longrightarrow> res (content l)"
    and below: "\<And>qc. qc \<in> set pcs \<Longrightarrow> region qc (content l)"
    using assms(3) by (simp_all add: nest_region_def)
  have "holds pc \<Longrightarrow> locked l" by (rule nested_top(1) [OF assms(2)])
  note own = region_owner_step [OF assms(1) reg this]
  note other = region_other_step [OF assms(1) reg(1)]
  have "region qc (content l')" if "qc \<in> set pcs" for qc
  proof (cases "holds pc")
    case True
    from nested_top(2) [OF assms(2) True that] have "\<not> holds qc" .
    with below [OF that] show ?thesis using region_content [of qc "content l" "content l'"] by simp
  next
    case False
    with other(1) below [OF that] show ?thesis by blast
  qed
  moreover have "res (content l')" if "\<not> locked l'"
  proof (cases "holds pc")
    case True
    with own(2) that show ?thesis by blast
  next
    case False
    with guard_step_locked [OF assms(1)] that have "\<not> locked l" by (auto split: if_splits)
    with other(2) [OF False] reg(2) show ?thesis by blast
  qed
  ultimately show ?thesis using own(1) by (simp add: nest_region_def)
qed

lemma nest_region_step:
  "isr_step os ds d0 arms w w' \<Longrightarrow> nested (locked (fst w)) (snd w) \<Longrightarrow> nest_region w \<Longrightarrow> nest_region w'"
proof (induction rule: isr_step.induct)
  case (execute e l pc l' pc' pcs)
  then show ?case using nest_region_execute [OF execute.hyps(1)] by simp
qed (auto simp: nest_region_def)

lemma nest_region_reach: "isr_reach os ds d0 arms c0 w \<Longrightarrow> res c0 \<Longrightarrow> nest_region w"
proof (induction rule: isr_reach.induct)
  case isr_new
  then show ?case by (simp add: nest_region_def soft_lock_new_def)
next
  case (isr_next w w')
  then show ?case by (blast intro: nest_region_step nested_reach)
qed

end

section \<open>The access on top returns\<close>

lemma pend_arm_ends:
  "op_pend k \<Longrightarrow> \<exists>l' r. guard_runs (op_code s T e) run_pended_op_code RpSwap l (InOp False k) l' r"
  by (cases k rule: op_pend.cases)
    (simp_all add: guard_runs_first guard_runs_return tail_call_def, auto intro: guard_runs_return)

lemma nested_ends:
  assumes "nested (locked l) (pc # pcs)" and "ex.nest_region (l, pc # pcs)"
  shows "\<exists>l' r. guard_runs (op_code s T e) run_pended_op_code RpSwap l pc l' r"
proof (cases "locked l \<longleftrightarrow> holds pc")
  case True
  with assms(2) have "alone l pc" by (simp add: alone_def ex.nest_region_def)
  with alone_ends show ?thesis by blast
next
  case False
  with ex.nested_top(1) [OF assms(1)] have "locked l" "\<not> holds pc" by auto
  have region: "ex.region pc (content l)" using assms(2) by (simp add: ex.nest_region_def)
  show ?thesis
  proof (cases pc)
    case (AtGuard f p)
    with region have "op_pend p" by (auto simp: bench_arms_def)
    from pend_arm_ends [OF this] show ?thesis using AtGuard \<open>locked l\<close> by (simp add: guard_runs_first guard_simps)
  next
    case (InOp held k)
    with region \<open>\<not> holds pc\<close> show ?thesis by (simp add: pend_arm_ends)
  next
    case (AtPendStore r)
    then show ?thesis by (auto simp: guard_runs_first intro: guard_runs_return)
  next
    case (Returned r)
    then show ?thesis by (auto intro: guard_runs_return)
  qed (use assms(1) \<open>locked l\<close> \<open>\<not> holds pc\<close> in simp_all)
qed

section \<open>The whole stack returns\<close>

text \<open>The accesses of a stack return one after the other, the innermost first.\<close>

inductive nest_runs ::
  "('k, 'c, 'r) code \<Rightarrow> ('d, 'c, unit) code \<Rightarrow> 'd \<Rightarrow> ('c, 'k, 'd, 'r) nest \<Rightarrow> 'c soft_lock \<Rightarrow> bool"
  for os ds d0 where
  nest_empty: "nest_runs os ds d0 (l, []) l"
| nest_pop: "guard_runs os ds d0 l pc l1 r \<Longrightarrow> nest_runs os ds d0 (l1, pcs) l'
     \<Longrightarrow> nest_runs os ds d0 (l, pc # pcs) l'"

lemma isr_reach_runs:
  "guard_runs (os e) ds d0 l pc l' r \<Longrightarrow> isr_reach os ds d0 arms c0 (l, pc # pcs) \<Longrightarrow>
   isr_reach os ds d0 arms c0 (l', pcs)"
proof (induction rule: guard_runs.induct)
  case (guard_runs_return l r)
  then show ?case by (blast intro: isr_next resume)
next
  case (guard_runs_next l pc l1 pc1 l' r)
  then show ?case by (blast intro: isr_next execute)
qed

lemma isr_completes:
  assumes "isr_reach (op_code s T) run_pended_op_code RpSwap bench_arms demo_inner_new (l, pcs)"
  shows "\<exists>l'. nest_runs (op_code s T e) run_pended_op_code RpSwap (l, pcs) l' \<and>
    isr_reach (op_code s T) run_pended_op_code RpSwap bench_arms demo_inner_new (l', [])"
  using assms
proof (induction pcs arbitrary: l)
  case Nil
  then show ?case by (blast intro: nest_empty)
next
  case (Cons pc pcs)
  from nested_reach [OF Cons.prems] ex.nest_region_reach [OF Cons.prems demo_res_new]
  obtain l1 r where run: "guard_runs (op_code s T e) run_pended_op_code RpSwap l pc l1 r"
    using nested_ends by fastforce
  from isr_reach_runs [of "op_code s T", OF run Cons.prems] Cons.IH obtain l' where
    "nest_runs (op_code s T e) run_pended_op_code RpSwap (l1, pcs) l'"
    "isr_reach (op_code s T) run_pended_op_code RpSwap bench_arms demo_inner_new (l', [])" by blast
  with run show ?case by (blast intro: nest_pop)
qed

text \<open>C6: termination under interrupts: at any moment, however many handlers are nested and wherever they
  have been interrupted, if no further interrupt arrives then every access in progress returns, the
  innermost first, and at the end the lock is free, the flag is down and no intent is recorded. In
  particular no handler waits for one that it has interrupted.\<close>

theorem isr_accesses_complete:
  assumes "isr_reach (op_code s T) run_pended_op_code RpSwap bench_arms demo_inner_new (l, pcs)"
  shows "\<exists>l'. nest_runs (op_code s T e) run_pended_op_code RpSwap (l, pcs) l' \<and>
    \<not> locked l' \<and> \<not> pending l' \<and> pending_submit (content l') = 0"
proof -
  obtain l' where run: "nest_runs (op_code s T e) run_pended_op_code RpSwap (l, pcs) l'"
    and "isr_reach (op_code s T) run_pended_op_code RpSwap bench_arms demo_inner_new (l', [])"
    using isr_completes [OF assms] by blast
  from dl.isr_quiescent [OF this(2)] run show ?thesis
    by (auto simp: demo_backlog_def demo_inner_new_def unat_eq_zero)
qed

text \<open>A producer's handler, stopped after recording its intent, on top of the producer it interrupted.\<close>

definition stacked :: "isr_move list" where
  "stacked = producer_isr # replicate 8 Execute @ producer_isr # replicate 3 Execute"

lemma stacked_run:
  "map_option snd (isr_run duo 2 stacked (soft_lock_new demo_inner_new, [])) = Some [AtPendStore RProducer, AtRelease RProducer]"
  by code_simp

theorem isr_accesses_complete_witness:
  "\<exists>l l'. isr_reach (op_code duo 2) run_pended_op_code RpSwap bench_arms demo_inner_new
       (l, [AtPendStore RProducer, AtRelease RProducer]) \<and>
     nest_runs (op_code duo 2 False) run_pended_op_code RpSwap (l, [AtPendStore RProducer, AtRelease RProducer]) l' \<and>
     \<not> locked l' \<and> \<not> pending l'"
proof -
  obtain l where "isr_run duo 2 stacked (soft_lock_new demo_inner_new, []) =
      Some (l, [AtPendStore RProducer, AtRelease RProducer])"
    using stacked_run by auto
  from isr_run_reach [OF this isr_new]
  have "isr_reach (op_code duo 2) run_pended_op_code RpSwap bench_arms demo_inner_new
      (l, [AtPendStore RProducer, AtRelease RProducer])" .
  with isr_accesses_complete [OF this, of False] show ?thesis by blast
qed

end
