(* ===== verification/SoftRounds.thy ===== *)
theory SoftRounds
  imports SoftBenchLive SoftLivelock
begin

text \<open>
  How long an access can take, counted in instructions of its own thread and whatever the other threads do
  meanwhile: the loser of the lock returns after a constant number of instructions, and the winner
  gives the lock back within a bound given by the scenario. Only the decision to take the lock once
  more, at the end of each round of the release loop, is beyond any bound.
\<close>

section \<open>What is left of a round\<close>

text \<open>\<open>n\<close> bounds the intents that \<open>run_pended_op\<close> can take over.\<close>

fun drain_most :: "nat \<Rightarrow> drain_pc \<Rightarrow> nat" where
  "drain_most n RpSwap = 2 * n + 5"
| "drain_most n (RpBatches k) = 2 * unat k + 4"
| "drain_most n (RpItems k) = 2 * unat k + 3"
| "drain_most n (RpLock k) = 2 * unat k + 2"
| "drain_most n (RpNext k) = 2 * unat k + 1"
| "drain_most n (RpPush k _) = 2 * unat k + 2"

fun op_most :: "scenario \<Rightarrow> nat \<Rightarrow> op_pc \<Rightarrow> nat" where
  "op_most s n (OpProducer PrFull) = 6"
| "op_most s n (OpProducer (PrSubmit k)) = submit_left k + 1"
| "op_most s n (OpProducer PrPend) = 2"
| "op_most s n (OpProducer PrPendSubmit) = 1"
| "op_most s n (OpConsumer CoLoad) = 2 * n + 2 * unat (consumer_budget s) + unat (consumer_hold_spin s) + 18"
| "op_most s n (OpConsumer (CoDrain _ d)) =
     drain_most n d + 2 * unat (consumer_budget s) + unat (consumer_hold_spin s) + 12"
| "op_most s n (OpConsumer (CoProcess _ k)) = process_left k + unat (consumer_hold_spin s) + 8"
| "op_most s n (OpConsumer (CoSpin k)) = unat k + 7"
| "op_most s n (OpConsumer CoProcessed) = 6"
| "op_most s n (OpConsumer CoDone) = 5"
| "op_most s n (OpConsumer (CoPending _)) = 4"
| "op_most s n (OpConsumer (CoLen _ _ k)) = len_left k + 1"
| "op_most s n (OpConsumer CoPendOnly) = 1"
| "op_most s n (OpReport ReProcessed) = 9"
| "op_most s n (OpReport (RePending _)) = 8"
| "op_most s n (OpReport (ReLen _ _ k)) = len_left k + 5"
| "op_most s n (OpReport (ReFull _ _ _)) = 4"
| "op_most s n (OpReport (RePend _ _ _ _)) = 3"
| "op_most s n (OpReport (ReItems _ _ _ _ _)) = 2"
| "op_most s n (OpReport (ReBatches _ _ _ _ _ _)) = 1"
| "op_most s n (OpReport ReUnreachable) = 1"

text \<open>A round is over, for this measure, when the lock has been given back or the access has returned.\<close>

fun round_left :: "scenario \<Rightarrow> nat \<Rightarrow> (op_pc, drain_pc, op_result) guard_pc \<Rightarrow> nat" where
  "round_left s n (AtGuard f p) = op_most s n f + op_most s n p + 2 * n + 9"
| "round_left s n (InOp held k) = op_most s n k + (if held then 2 * n + 8 else 1)"
| "round_left s n (AtSwap r) = 2 * n + 8"
| "round_left s n (InDrain d r) = drain_most n d + 2"
| "round_left s n (AtRelease r) = 1"
| "round_left s n (AtPendStore r) = 1"
| "round_left s n _ = 0"

lemma drain_most_decreases:
  "run_pended_op_code d c = Some (c', Inl d') \<Longrightarrow> unat (pending_submit c) \<le> n \<Longrightarrow> drain_most n d' < drain_most n d"
  by (cases d) (auto split: if_splits dest: loop_dec)

lemma op_most_pos [simp]: "0 < op_most s n k" "op_most s n k \<noteq> 0"
  by (cases "(s, n, k)" rule: op_most.cases; simp)+

lemma op_most_decreases:
  "op_code s T e k c = Some (c', Inl k') \<Longrightarrow> unat (pending_submit c) \<le> n \<Longrightarrow> op_most s n k' < op_most s n k"
  by (cases "(s, n, k)" rule: op_most.cases)
    (auto simp: tail_call_eq_Some call_eq_Some split: if_splits
      dest: submit_decreases process_decreases len_decreases drain_most_decreases loop_dec)

lemma round_decreases:
  assumes step: "guard_step (op_code s T e) run_pended_op_code RpSwap l pc = Some (l', pc')"
    and n: "unat (pending_submit (content l)) \<le> n" and pos: "0 < round_left s n pc"
  shows "round_left s n pc' < round_left s n pc" and "pc' \<noteq> AtReacquire r"
    and "will_flag pc \<Longrightarrow> will_flag pc' \<or> (\<exists>r. pc' = Returned r)"
proof -
  have "round_left s n pc' < round_left s n pc \<and> pc' \<noteq> AtReacquire r \<and>
      (will_flag pc \<longrightarrow> will_flag pc' \<or> (\<exists>r. pc' = Returned r))"
  proof (cases pc)
    case (InOp held k)
    with step obtain c x where x: "op_code s T e k (content l) = Some (c, x)"
      "pc' = (case x of Inl k' \<Rightarrow> InOp held k' | Inr r \<Rightarrow> if held then AtSwap r else AtPendStore r)"
      by (auto split: option.splits sum.splits prod.splits)
    then show ?thesis
      using InOp op_most_decreases [OF _ n, of s T e k c] by (cases x) auto
  next
    case (InDrain d r)
    with step n show ?thesis
      by (auto dest: drain_most_decreases split: option.splits sum.splits prod.splits)
  qed (use step pos in \<open>auto simp: guard_def split: if_splits\<close>)
  then show "round_left s n pc' < round_left s n pc" and "pc' \<noteq> AtReacquire r"
    and "will_flag pc \<Longrightarrow> will_flag pc' \<or> (\<exists>r. pc' = Returned r)" by blast+
qed

section \<open>Rounds in the benchmark\<close>

lemma bench_pending_bound:
  assumes "bench_reach s b" and "fits s"
  shows "unat (pending_submit (content (lk (bw b)))) \<le> total_nat s"
proof -
  note acc = bench_reach_accounts [OF assms, unfolded acc_inv_def]
  let ?c = "content (lk (bw b))"
  have "uint (pending_submit ?c) \<le> int (total_nat s)"
    using counter_bounds(1,3) [OF acc entries_bound [OF acc bench_reach_ctl [OF assms(1)] bench_reach_call [OF assms(1)]]]
      bounds_nonneg [of ?c s "bw b"] by linarith
  then have "int (unat (pending_submit ?c)) \<le> int (total_nat s)" by simp
  then show ?thesis by (simp only: of_nat_le_iff)
qed

lemma own_step:
  assumes "bench_step s t b = Some b'" and "bench_reach s b" and "act (bw b) t = Some pc" and "\<forall>r. pc \<noteq> Returned r"
  obtains fin l' pc' where "guard_step (op_code s (total_ops_of s) fin) run_pended_op_code RpSwap (lk (bw b)) pc = Some (l', pc')"
    and "act (bw b') t = Some pc'"
  using assms(1) bench_reach_call [OF assms(2)]
proof (cases rule: bench_step_access)
  case (instr fin)
  then show ?thesis using assms(3) that by (auto elim!: access_instr_cases)
qed (use assms(3,4) in simp_all)

lemma other_step:
  assumes "bench_step s u b = Some b'" and "bench_reach s b" and "u \<noteq> t"
  shows "act (bw b') t = act (bw b) t"
  using assms(1) bench_reach_call [OF assms(2)]
proof (cases rule: bench_step_access)
  case (instr fin)
  from access_instr_act [OF this, of t] assms(3) show ?thesis by simp
qed (use assms(3) in \<open>simp_all add: enter_access_def leave_access_def\<close>)

definition round_over :: "(op_pc, drain_pc, op_result) guard_pc \<Rightarrow> bool" where
  "round_over pc \<longleftrightarrow> (\<exists>r. pc = AtRecheck r \<or> pc = Returned r)"

lemma round_ends:
  assumes "run_schedule s ts b = Some b'" and "bench_reach s b" and fits: "fits s"
    and "act (bw b) t = Some pc" and "0 < round_left s (total_nat s) pc"
    and "round_left s (total_nat s) pc \<le> count_list ts t"
  shows "\<exists>ts1 ts2 b1 pc1. ts = ts1 @ ts2 \<and> count_list ts1 t \<le> round_left s (total_nat s) pc \<and>
    run_schedule s ts1 b = Some b1 \<and> act (bw b1) t = Some pc1 \<and>
    round_over pc1 \<and> (will_flag pc \<longrightarrow> (\<exists>r. pc1 = Returned r))"
  using assms(1,2,4-)
proof (induction ts arbitrary: b pc)
  case Nil
  then show ?case by simp
next
  case (Cons u ts)
  let ?left = "round_left s (total_nat s)"
  from Cons.prems(1) obtain b1 where step: "bench_step s u b = Some b1" and rest: "run_schedule s ts b1 = Some b'"
    by (auto split: option.splits)
  have reach: "bench_reach s b1" using Cons.prems(2) step by (rule bench_next)
  show ?case
  proof (cases "u = t")
    case False
    with other_step [OF step Cons.prems(2)] Cons.prems have "act (bw b1) t = Some pc" "?left pc \<le> count_list ts t"
      by simp_all
    from Cons.IH [OF rest reach this(1) Cons.prems(4) this(2)] obtain ts1 ts2 b2 pc2 where
      "ts = ts1 @ ts2" "count_list ts1 t \<le> ?left pc" "run_schedule s ts1 b1 = Some b2"
      "act (bw b2) t = Some pc2" "round_over pc2" "will_flag pc \<longrightarrow> (\<exists>r. pc2 = Returned r)" by blast
    with False step show ?thesis
      by (intro exI [of _ "u # ts1"] exI [of _ ts2] exI [of _ b2] exI [of _ pc2]) simp
  next
    case True
    have "\<forall>r. pc \<noteq> Returned r" using Cons.prems(4) by auto
    from own_step [OF step [unfolded True] Cons.prems(2,3) this] obtain fin l' pc1 where
      g: "guard_step (op_code s (total_ops_of s) fin) run_pended_op_code RpSwap (lk (bw b)) pc = Some (l', pc1)"
      and pc1: "act (bw b1) t = Some pc1" by blast
    note dec = round_decreases [OF g bench_pending_bound [OF Cons.prems(2) fits] Cons.prems(4)]
    show ?thesis
    proof (cases "0 < ?left pc1")
      case False
      with dec(2) have "round_over pc1" by (cases pc1) (auto simp: round_over_def)
      moreover have "will_flag pc \<longrightarrow> (\<exists>r. pc1 = Returned r)" using dec(3) False by (cases pc1) (auto split: if_splits)
      ultimately show ?thesis using True step pc1 Cons.prems(4)
        by (intro exI [of _ "[u]"] exI [of _ ts] exI [of _ b1] exI [of _ pc1]) simp
    next
      case True1: True
      have "?left pc1 \<le> count_list ts t" using dec(1) Cons.prems(5) True by simp
      from Cons.IH [OF rest reach pc1 True1 this] obtain ts1 ts2 b2 pc2 where
        i: "ts = ts1 @ ts2" "count_list ts1 t \<le> ?left pc1" "run_schedule s ts1 b1 = Some b2"
        "act (bw b2) t = Some pc2" "round_over pc2" "will_flag pc1 \<longrightarrow> (\<exists>r. pc2 = Returned r)" by blast
      have "will_flag pc \<longrightarrow> will_flag pc1" using dec(3) True1 by auto
      with i dec(1) True step show ?thesis
        by (intro exI [of _ "u # ts1"] exI [of _ ts2] exI [of _ b2] exI [of _ pc2]) simp
    qed
  qed
qed

text \<open>The bound for a whole round of each thread, and for what the loser of the lock has before it.\<close>

fun round_bound :: "scenario \<Rightarrow> tid \<Rightarrow> nat" where
  "round_bound s TMain = 2 * total_nat s + 19"
| "round_bound s TConsumer = 4 * total_nat s + 2 * unat (consumer_budget s) + unat (consumer_hold_spin s) + 28"
| "round_bound s (TProducer p) = 2 * total_nat s + 17"

lemma round_bound_start:
  "thread_ok t (AtGuard f p) \<Longrightarrow> round_left s (total_nat s) (AtGuard f p) \<le> round_bound s t"
  by (cases t) (auto simp: bench_arms_def)

lemma loser_left: "op_pend k \<Longrightarrow> round_left s n (InOp False k) \<le> 3"
  by (cases k rule: op_pend.cases) simp_all

lemma access_can_step:
  assumes "bench_reach s b" and "act (bw b) t = Some pc" and "\<forall>r. pc \<noteq> Returned r"
  shows "bench_step s t b \<noteq> None"
proof -
  have call: "in_call b t" by (rule call_inv_in_call [OF bench_reach_call [OF assms(1)] assms(2)])
  from access_enabled [OF assms(1) call, of "producers_done b"] assms(2,3) obtain l' pc' where
    "guard_step (op_code s (total_ops_of s) (producers_done b)) run_pended_op_code RpSwap (lk (bw b)) pc = Some (l', pc')"
    by (auto simp: access_instr_def)
  from access_bench_step [OF call assms(2) this] show ?thesis by simp
qed

text \<open>Nor can a thread be stuck once its access has returned: it leaves it.\<close>

lemma returned_can_step:
  assumes "bench_reach s b" and pc: "act (bw b) t = Some (Returned r)"
  shows "bench_step s t b \<noteq> None"
proof (cases t)
  case TMain
  with call_inv_in_call [OF bench_reach_call [OF assms(1)] pc] call_inv_ok [OF bench_reach_call [OF assms(1)] pc] pc
  show ?thesis by (cases r) (auto simp: main_step_def split: report.splits)
next
  case TConsumer
  with call_inv_in_call [OF bench_reach_call [OF assms(1)] pc] consumer_enabled [OF assms(1)] show ?thesis by simp
next
  case (TProducer p)
  with call_inv_in_call [OF bench_reach_call [OF assms(1)] pc] producer_enabled [OF assms(1), of p] show ?thesis by auto
qed

lemma inside_can_step: "bench_reach s b \<Longrightarrow> act (bw b) t \<noteq> None \<Longrightarrow> bench_step s t b \<noteq> None"
  using access_can_step returned_can_step by blast

text \<open>C9: the accesses of the benchmark take a bounded number of instructions of their own thread,
  whatever the other threads do in between. A thread that has lost the lock returns from
  \<open>with_access\<close> within three. Any access, counted from its start, has within the bound of its thread
  returned or given the lock back and reached its second look at the flag. And the thread is never blocked
  on the way: after every schedule, at every program point of every access, in either arm and holding
  the queue's mutex or not, it can execute its next instruction.\<close>

theorem softlock_access_bounded:
  assumes "fits s" and "bench_reach s b" and "act (bw b) t = Some pc" and "run_schedule s ts b = Some b'"
    and "(\<exists>f p. pc = AtGuard f p) \<and> k = round_bound s t \<or> (\<exists>j. pc = InOp False j) \<and> k = 3"
    and "k \<le> count_list ts t"
  shows "(\<forall>us b1. run_schedule s us b = Some b1 \<and> act (bw b1) t \<noteq> None \<longrightarrow> bench_step s t b1 \<noteq> None) \<and>
    (\<exists>ts1 ts2 b1 pc1. ts = ts1 @ ts2 \<and> count_list ts1 t \<le> k \<and> run_schedule s ts1 b = Some b1 \<and>
       act (bw b1) t = Some pc1 \<and>
       ((\<exists>r. pc1 = Returned r) \<or> (\<exists>f p. pc = AtGuard f p) \<and> (\<exists>r. pc1 = AtRecheck r)))"
proof -
  have ok: "thread_ok t pc" by (rule call_inv_ok [OF bench_reach_call [OF assms(2)] assms(3)])
  have "ex.region pc (content (lk (bw b)))"
    using bench_reach_region [OF assms(2)] assms(3) by (simp add: ex.region_inv_def)
  then have "arm_typed pc" by (rule region_typed)
  with assms(5) ok have left: "round_left s (total_nat s) pc \<le> k"
    using round_bound_start [of t _ _ s] loser_left [of _ s "total_nat s"] by auto
  have pos: "0 < round_left s (total_nat s) pc" using assms(5) by auto
  have "\<forall>us b1. run_schedule s us b = Some b1 \<and> act (bw b1) t \<noteq> None \<longrightarrow> bench_step s t b1 \<noteq> None"
    using inside_can_step [OF run_schedule_reach [OF _ assms(2)]] by blast
  moreover from round_ends [OF assms(4,2,1,3) pos le_trans [OF left assms(6)]] obtain ts1 ts2 b1 pc1 where
    r: "ts = ts1 @ ts2" "count_list ts1 t \<le> round_left s (total_nat s) pc" "run_schedule s ts1 b = Some b1"
      "act (bw b1) t = Some pc1" "round_over pc1" "will_flag pc \<longrightarrow> (\<exists>r. pc1 = Returned r)" by blast
  moreover have "count_list ts1 t \<le> k" using r(2) left by (rule le_trans)
  moreover have "(\<exists>r. pc1 = Returned r) \<or> (\<exists>f p. pc = AtGuard f p) \<and> (\<exists>r. pc1 = AtRecheck r)"
    using r(5,6) assms(5) by (auto simp: round_over_def)
  ultimately show ?thesis by blast
qed

lemma pending_arm_ends:
  "map_option (\<lambda>b. act (bw b) (TProducer 1))
     (run_schedule duo (take 9 overlap @ replicate 3 (TProducer 1)) bench_new) = Some None"
  by code_simp

theorem softlock_access_bounded_witness:
  "\<exists>b ts1 b1. bench_reach duo b \<and> act (bw b) (TProducer 1) = Some (InOp False (OpProducer PrPendSubmit)) \<and>
     run_schedule duo ts1 b = Some b1 \<and> count_list ts1 (TProducer 1) \<le> 3 \<and>
     (\<exists>r. act (bw b1) (TProducer 1) = Some (Returned r))"
proof -
  let ?pc = "InOp False (OpProducer PrPendSubmit) :: (op_pc, drain_pc, op_result) guard_pc"
  let ?ts = "replicate 3 (TProducer 1)"
  from pending_arm_run obtain b where s: "run_schedule duo (take 9 overlap) bench_new = Some b"
    and a: "act (bw b) (TProducer 1) = Some ?pc" by auto
  have b: "bench_reach duo b" by (rule run_schedule_reach [OF s bench_start])
  from pending_arm_ends s obtain b' where b': "run_schedule duo ?ts b = Some b'"
    by (auto simp: run_schedule_append simp del: run_schedule.simps)
  have "(\<exists>f p. ?pc = AtGuard f p) \<and> (3 :: nat) = round_bound duo (TProducer 1) \<or> (\<exists>j. ?pc = InOp False j) \<and> (3 :: nat) = 3"
    by simp
  from softlock_access_bounded [OF duo_fits b a b' this] show ?thesis
    using a b by (auto simp: numeral_3_eq_3)
qed

end
