(* ===== verification/MutexFair.thy ===== *)
theory MutexFair
  imports MutexBenchLive MutexProperties Fairness
begin

text \<open>
  The mutex benchmark ends under every strongly fair schedule: the producers and the main thread
  take boundedly many steps, so in an infinite run only the consumer would move from some point on; it
  frees the mutex, and then fairness forces the others to have nothing left to do, the consumer
  empties the queue and stops.
\<close>

section \<open>Everybody but the consumer takes boundedly many steps\<close>

fun producer_rank :: "nat \<Rightarrow> mutex_producer \<Rightarrow> nat" where
  "producer_rank m MpNew = 7 * m + 2"
| "producer_rank m k = m_producer_left m k"

fun main_rank :: "nat \<Rightarrow> mutex_main \<Rightarrow> nat" where
  "main_rank n MmSpawnConsumer = 2 * n + 13"
| "main_rank n (MmSpawn p) = (n - p) + n + 12"
| "main_rank n (MmJoin p) = (n - p) + 10"
| "main_rank n MmStoreDone = 9"
| "main_rank n MmJoinConsumer = 8"
| "main_rank n m = m_report_left m"

definition others_rank :: "scenario \<Rightarrow> mutex_bench \<Rightarrow> nat" where
  "others_rank s b = main_rank (unat (producers s)) (mm b) +
     (\<Sum>p<unat (producers s). producer_rank (unat (ops_per_producer s)) (mp b p))"

lemma sum_upd_less:
  fixes g :: "'a \<Rightarrow> nat" and p n :: nat
  assumes "p < n" and "g x < g (k p)"
  shows "(\<Sum>q<n. g ((k(p := x)) q)) < (\<Sum>q<n. g (k q))"
  by (rule sum_strict_mono_ex1) (use assms in auto)

lemma producer_rank_step:
  assumes "mutex_producer_step s p k c = Some (c', k')" and "m_iterations (unat (ops_per_producer s)) k"
  shows "producer_rank (unat (ops_per_producer s)) k' < producer_rank (unat (ops_per_producer s)) k"
  using assms by (cases k) (auto split: if_splits)

lemma others_rank_main:
  assumes "mutex_main_step s b = Some b'" and "mutex_ctl s b"
  shows "others_rank s b' < others_rank s b"
proof -
  let ?n = "unat (producers s)"
  let ?g = "producer_rank (unat (ops_per_producer s))"
  show ?thesis
  proof (cases "\<exists>p. mm b = MmSpawn p \<and> p < ?n")
    case True
    then obtain p where p: "mm b = MmSpawn p" "p < ?n" by blast
    with assms(2) have "mp b p = MpNew" by (simp add: mutex_ctl_def)
    with p have "(\<Sum>q<?n. ?g (((mp b)(p := MpLoop 0)) q)) < (\<Sum>q<?n. ?g (mp b q))"
      by (intro sum_upd_less) simp_all
    moreover have "b' = b\<lparr>mp := (mp b)(p := MpLoop 0), mm := MmSpawn (p + 1)\<rparr>"
      using assms(1) p by (simp add: mutex_main_step_def)
    ultimately show ?thesis using p by (simp add: others_rank_def del: fun_upd_apply)
  next
    case False
    from assms(1) show ?thesis
      by (cases rule: mutex_main_cases) (use False in \<open>auto simp: others_rank_def\<close>)
  qed
qed

lemma others_rank_producer:
  assumes step: "mutex_step s (MtProducer p) b = Some b'" and ctl: "mutex_ctl s b"
  shows "others_rank s b' < others_rank s b"
proof -
  let ?g = "producer_rank (unat (ops_per_producer s))"
  from step obtain c k where k: "mutex_producer_step s p (mp b p) (inner b) = Some (c, k)"
    and b': "b' = b\<lparr>inner := c, mp := (mp b)(p := k)\<rparr>" by auto
  have "mp b p \<noteq> MpNew" using k by auto
  with ctl have "p < unat (producers s)" unfolding mutex_ctl_def by (meson less_le_trans not_le)
  moreover have "m_iterations (unat (ops_per_producer s)) (mp b p)" using ctl by (simp add: mutex_ctl_def)
  ultimately have "(\<Sum>q<unat (producers s). ?g (((mp b)(p := k)) q)) < (\<Sum>q<unat (producers s). ?g (mp b q))"
    using producer_rank_step [OF k] by (intro sum_upd_less)
  then show ?thesis by (simp add: b' others_rank_def del: fun_upd_apply)
qed

lemma others_rank_consumer: "mutex_step s MtConsumer b = Some b' \<Longrightarrow> others_rank s b' = others_rank s b"
  by (auto simp: others_rank_def)

section \<open>The consumer alone comes to its end\<close>

lemma consumer_moved:
  "mutex_step s MtConsumer b = Some b' \<Longrightarrow>
   mutex_consumer_step s (mdone b) (mc b) (inner b) = Some (inner b', mc b') \<and> mdone b' = mdone b"
  by auto

lemma consumer_run_ends:
  assumes "can_serve s"
    and calm: "\<And>i. \<not> mpoisoned (inner (run i))" "\<And>i. \<forall>n. mc (run i) \<noteq> McProcess n i32_max"
    and run: "\<And>i. j \<le> i \<Longrightarrow> mutex_consumer_step s True (mc (run i)) (inner (run i)) =
      Some (inner (run (Suc i)), mc (run (Suc i)))"
  shows "j \<le> i \<Longrightarrow> iteration_ok s n (mc (run i)) (inner (run i)) \<Longrightarrow>
    mlocked (inner (run i)) \<longrightarrow> mc_owns (mc (run i)) \<Longrightarrow> False"
proof (induction n arbitrary: i rule: less_induct)
  case outer: (less n)
  have over: False if i: "j \<le> i" "mlocked (inner (run i)) \<longrightarrow> mc_owns (mc (run i))"
    and it: "iterated n (mc (run i)) (inner (run i))" for i
  proof (cases "mc (run i) = McExit")
    case True
    with run [OF i(1)] show False by simp
  next
    case False
    with it have "mc (run i) = McLock" "length (mqueue (inner (run i))) < n" by (auto simp: iterated_def)
    with outer.IH [of "length (mqueue (inner (run i)))" i] i show False by simp
  qed
  from outer.prems show False
  proof (induction "consumer_left (mc (run i))" arbitrary: i rule: less_induct)
    case less
    show False
    proof (cases "iterated n (mc (run i)) (inner (run i))")
      case True
      with over less.prems show False by blast
    next
      case False
      from iteration_step [OF less.prems(2,3) False assms(1) calm] run [OF less.prems(1)]
      have "iteration_ok s n (mc (run (Suc i))) (inner (run (Suc i)))"
        "mlocked (inner (run (Suc i))) \<longrightarrow> mc_owns (mc (run (Suc i)))"
        "consumer_left (mc (run (Suc i))) < consumer_left (mc (run i)) \<or>
         iterated n (mc (run (Suc i))) (inner (run (Suc i)))" by simp_all
      with less.hyps [of "Suc i"] over [of "Suc i"] less.prems(1) show False by auto
    qed
  qed
qed

section \<open>No fair run is infinite\<close>

lemma consumer_frees:
  assumes run: "\<And>i. j \<le> i \<Longrightarrow> mutex_step s MtConsumer (run i) = Some (run (Suc i))"
    and excl: "\<And>i. mutex_excl (run i)"
    and others: "\<And>i t. j \<le> i \<Longrightarrow> t \<noteq> MtConsumer \<Longrightarrow> mutex_step s t (run i) = None"
  obtains i where "j \<le> i" and "\<not> mlocked (inner (run i))"
proof -
  have "\<exists>i\<ge>j. \<not> mlocked (inner (run i))"
  proof (rule ccontr)
    assume "\<not> ?thesis"
    then have locked: "mlocked (inner (run i))" if "j \<le> i" for i using that by blast
    have "consumer_left (mc (run (Suc i))) < consumer_left (mc (run i))" if i: "j \<le> i" for i
    proof -
      from excl [of i] locked [OF i] obtain t where t: "mutex_owner (run i) t" by (auto simp: mutex_excl_def)
      have "t = MtConsumer" using mutex_owner_enabled [OF t, of s] others [OF i, of t] by metis
      with t have "mc_owns (mc (run i))" by simp
      from consumer_section_step [OF this, of s "mdone (run i)" "inner (run i)"] consumer_moved [OF run [OF i]] locked [of "Suc i"] i
      show ?thesis by simp
    qed
    from no_descent [where n = j and f = "\<lambda>i. consumer_left (mc (run i))", OF this] show False .
  qed
  with that show ?thesis by blast
qed

lemma free_all_joined:
  assumes ctl: "mutex_ctl s b" and free: "\<not> mlocked (inner b)" and moves: "mutex_step s MtConsumer b \<noteq> None"
    and others: "\<And>t. t \<noteq> MtConsumer \<Longrightarrow> mutex_step s t b = None" and calm: "m_calm s b"
  shows "mm b = MmJoinConsumer" and "mdone b" and "mc b \<noteq> McNew"
proof -
  have "mc b \<noteq> McExit" using moves by auto
  then have "\<not> m_consumed (mm b)" using ctl by (auto simp: mutex_ctl_def)
  moreover have main: "mutex_main_step s b = None" using others [of MtMain] by simp
  ultimately show m: "mm b = MmJoinConsumer"
  proof (cases "mm b")
    case (MmJoin p)
    have "\<not> (p < unat (producers s) \<and> mp b p \<noteq> MpExit)"
    proof
      assume p: "p < unat (producers s) \<and> mp b p \<noteq> MpExit"
      with ctl MmJoin have "mp b p \<noteq> MpNew" by (auto simp: mutex_ctl_def)
      with mutex_free_enabled(1) [OF free calm] p others [of "MtProducer p"] show False by blast
    qed
    with MmJoin main show ?thesis by (auto simp: mutex_main_step_def split: if_splits)
  qed (use calm in \<open>simp_all add: mutex_main_step_def m_calm_def split: if_splits\<close>)
  then show "mdone b" and "mc b \<noteq> McNew" using ctl by (simp_all add: mutex_ctl_def)
qed

lemma mutex_no_fair_run:
  assumes fits: "fits_i32 s" and serve: "can_serve s" and reach: "mutex_reach s (run 0)"
  shows "\<not> fair_run (mutex_step s) who run"
proof
  assume fair: "fair_run (mutex_step s) who run"
  then have inf: "infinite_run (mutex_step s) who run" by (simp add: fair_run_def)
  have reached: "mutex_reach s (run i)" for i
    using inf reach by (rule infinite_run_inv) (rule mutex_next)
  note step = infinite_run_step [OF inf]
  have inv: "mutex_ctl s (run i)" "mutex_excl (run i)" for i
    using mutex_reach_calm(1) [OF reached fits] by (simp_all add: mutex_inv_def)
  have calm: "m_calm s (run i)" "\<not> mpoisoned (inner (run i))" "\<forall>n. mc (run i) \<noteq> McProcess n i32_max" for i
    using mutex_reach_calm [OF reached fits] m_calm_count [OF _ _ fits] by (simp_all add: m_calm_def)
  have less: "others_rank s (run (Suc i)) < others_rank s (run i)" if "who i \<noteq> MtConsumer" for i
    using that step [of i] inv(1) [of i] others_rank_main others_rank_producer by (cases "who i") auto
  have same: "others_rank s (run (Suc i)) \<le> others_rank s (run i)" if "who i = MtConsumer" for i
    using others_rank_consumer [of s "run i" "run (Suc i)"] step [of i] that by simp
  obtain n where n: "\<And>i. n \<le> i \<Longrightarrow> who i = MtConsumer"
    using run_settles [where f = "others_rank s" and t = MtConsumer and who = who and run = run, OF less same] by blast
  let ?T = "insert MtMain (MtProducer ` {..<unat (producers s)})"
  obtain n' where n': "n \<le> n'" "\<And>i u. n' \<le> i \<Longrightarrow> u \<in> ?T \<Longrightarrow> mutex_step s u (run i) = None"
    using others_disabled [OF fair n, where T = ?T] by auto
  have others: "mutex_step s t (run i) = None" if i: "n' \<le> i" and t: "t \<noteq> MtConsumer" for i t
  proof (cases "t \<in> ?T")
    case False
    with t obtain p where p: "t = MtProducer p" "unat (producers s) \<le> p" by (cases t) (auto simp: image_iff)
    with inv(1) [of i] have "mp (run i) p = MpNew" unfolding mutex_ctl_def by (meson le_trans)
    with p show ?thesis by simp
  qed (rule n'(2) [OF i])
  have moves: "mutex_step s MtConsumer (run i) = Some (run (Suc i))" if "n' \<le> i" for i
    using step [of i] n [of i] n'(1) that by simp
  obtain j where j: "n' \<le> j" and free: "\<not> mlocked (inner (run j))"
    using consumer_frees [where j = n' and run = run and s = s, OF moves inv(2) others] by blast
  have "mutex_step s MtConsumer (run j) \<noteq> None" by (simp add: moves [OF j] del: mutex_step.simps)
  note joined = free_all_joined [OF inv(1) free this others [OF j] calm(1)]
  have "mdone (run i)" if "j \<le> i" for i
    using that
  proof (induction rule: dec_induct)
    case base
    show ?case by (rule joined(2))
  next
    case (step m)
    with consumer_moved [OF moves [of m]] j show ?case by simp
  qed
  then have alone: "mutex_consumer_step s True (mc (run i)) (inner (run i)) = Some (inner (run (Suc i)), mc (run (Suc i)))"
    if "j \<le> i" for i
    using consumer_moved [OF moves [of i]] j that by simp
  have "\<not> mutex_owner (run j) MtConsumer" using inv(2) [of j] free unfolding mutex_excl_def by blast
  then have "iteration_ok s (Suc (length (mqueue (inner (run j))))) (mc (run j)) (inner (run j))"
    using joined(3) calm(1) [of j] by (cases "mc (run j)") (simp_all add: m_calm_def)
  from consumer_run_ends [where run = run and j = j and i = j, OF serve calm(2,3) alone order_refl this] free show False by simp
qed

text \<open>C22: \<open>run_mutex_bench\<close> ends under every scheduler that is strongly fair (a thread that can move infinitely
  often does), provided that the \<open>i32\<close> \<open>processed_now\<close> can count the items of a critical section: from no
  reachable state is there an infinite fair run, and the only reachable states in which nobody can move
  are those in which the function has returned.\<close>

theorem mutex_bench_ends_when_fair:
  assumes "fits_i32 s" and "consumer_budget s \<noteq> 0 \<or> total_nat s = 0" and "mutex_reach s b"
  shows "(\<nexists>who run. run 0 = b \<and> fair_run (mutex_step s) who run) \<and>
    ((\<forall>t. mutex_step s t b = None) \<longrightarrow> (\<exists>r. mm b = MmReturn r))"
proof -
  have "can_serve s" using assms(2) by (simp add: can_serve_iff [OF fits_i32_fits [OF assms(1)]])
  with mutex_no_fair_run [OF assms(1)] assms(3) have "\<nexists>who run. run 0 = b \<and> fair_run (mutex_step s) who run" by blast
  moreover from mutex_bench_progress [OF assms(1,3)] have "\<exists>r. mm b = MmReturn r" if "\<forall>t. mutex_step s t b = None"
    using that by metis
  ultimately show ?thesis by blast
qed

theorem mutex_bench_ends_when_fair_witness:
  "\<nexists>who run. run 0 = mutex_bench_new \<and> fair_run (mutex_step solo) who run"
proof -
  have "consumer_budget solo \<noteq> 0 \<or> total_nat solo = 0" by (simp add: solo_def)
  from mutex_bench_ends_when_fair [OF solo_fits_i32 this mutex_start] show ?thesis by blast
qed

end
