(* ===== verification/MutexOverflow.thy ===== *)
theory MutexOverflow
  imports Budget MutexProperties
begin

text \<open>
  The condition \<open>fits_i32\<close> is exact: in every other scenario there is a schedule under which the consumer
  overflows \<open>processed_now\<close>, panics, and leaves the benchmark without a way to return. The producers
  fill the queue before the consumer takes the mutex for the first time.
\<close>

section \<open>Filling the queue\<close>

definition open_mutex :: "mutex_bench \<Rightarrow> bool" where
  "open_mutex b \<longleftrightarrow> \<not> mlocked (inner b) \<and> \<not> mpoisoned (inner b)"

text \<open>One iteration of a producer that nobody interrupts.\<close>

lemma producer_iteration:
  assumes "mp b p = MpLoop i" and "i < unat (ops_per_producer s)" and "open_mutex b"
  shows "\<exists>b'. m_reaches s b b' \<and> mp b' = (mp b)(p := MpLoop (Suc i)) \<and> mc b' = mc b \<and> open_mutex b' \<and>
    length (mqueue (inner b')) = Suc (length (mqueue (inner b)))"
proof -
  let ?i = "inner b"
  let ?drop = "b\<lparr>inner := ?i\<lparr>producer_lock_count := producer_lock_count ?i + 1, mlocked := True,
    mnext_id := mnext_id ?i + 1, mqueue := mqueue ?i @ [mnext_id ?i]\<rparr>, mp := (mp b)(p := MpDrop i)\<rparr>"
  let ?next = "\<lambda>k. ?drop\<lparr>inner := (inner ?drop)\<lparr>mlocked := False\<rparr>, mp := (mp b)(p := k)\<rparr>"
  have "run_steps (mutex_step s) (replicate 5 (MtProducer p)) b = Some ?drop"
    using assms by (simp add: open_mutex_def numeral_eq_Suc)
  then have drop: "m_reaches s b ?drop" by (rule run_steps_leads_to)
  have after: "m_reaches s b (?next (MpLoop (Suc i)))" if k: "mutex_step s (MtProducer p) ?drop = Some (?next k)"
    and "k = MpYield i \<or> k = MpLoop (Suc i)" for k
  proof -
    have here: "m_reaches s b (?next k)" using leads_to_trans [OF drop leads_to_step [of "mutex_step s", OF k]] .
    show ?thesis
    proof (cases "k = MpYield i")
      case True
      have "mutex_step s (MtProducer p) (?next (MpYield i)) = Some (?next (MpLoop (Suc i)))" by simp
      with here True show ?thesis by (meson leads_to_trans leads_to_step)
    next
      case False
      with here that(2) show ?thesis by simp
    qed
  qed
  have "\<exists>k. mutex_step s (MtProducer p) ?drop = Some (?next k) \<and> (k = MpYield i \<or> k = MpLoop (Suc i))"
    by (intro exI [of _ "if producer_pause_every s \<noteq> 0 \<and> of_nat (i + p) mod producer_pause_every s = 0
      then MpYield i else MpLoop (Suc i)"]) simp
  with after have "m_reaches s b (?next (MpLoop (Suc i)))" by blast
  with assms(3) show ?thesis by (intro exI [of _ "?next (MpLoop (Suc i))"]) (simp add: open_mutex_def)
qed

lemma producer_fills:
  assumes "mp b p = MpLoop 0" and "open_mutex b"
  shows "n \<le> unat (ops_per_producer s) \<Longrightarrow>
    \<exists>b'. m_reaches s b b' \<and> mp b' = (mp b)(p := MpLoop n) \<and> mc b' = mc b \<and> open_mutex b' \<and>
      length (mqueue (inner b')) = length (mqueue (inner b)) + n"
proof (induction n)
  case 0
  have "(mp b)(p := MpLoop 0) = mp b" using assms(1) by auto
  with assms(2) show ?case by (intro exI [of _ b]) simp
next
  case (Suc n)
  then obtain b1 where b1: "m_reaches s b b1" "mp b1 = (mp b)(p := MpLoop n)" "mc b1 = mc b" "open_mutex b1"
    "length (mqueue (inner b1)) = length (mqueue (inner b)) + n" by (metis Suc_leD)
  from b1(2) have "mp b1 p = MpLoop n" by simp
  from producer_iteration [OF this _ b1(4), of s] Suc.prems obtain b2 where
    "m_reaches s b1 b2" "mp b2 = (mp b1)(p := MpLoop (Suc n))" "mc b2 = mc b1" "open_mutex b2"
    "length (mqueue (inner b2)) = Suc (length (mqueue (inner b1)))" by auto
  with b1 leads_to_trans [OF b1(1)] show ?case by (intro exI [of _ b2]) simp
qed

lemma all_fill:
  assumes "\<forall>p < unat (producers s). mp b p = MpLoop 0" and "open_mutex b" and "mqueue (inner b) = []"
  shows "q \<le> unat (producers s) \<Longrightarrow>
    \<exists>b'. m_reaches s b b' \<and> (\<forall>p < unat (producers s). q \<le> p \<longrightarrow> mp b' p = MpLoop 0) \<and> mc b' = mc b \<and>
      open_mutex b' \<and> length (mqueue (inner b')) = q * unat (ops_per_producer s)"
proof (induction q)
  case 0
  with assms show ?case by (intro exI [of _ b]) simp
next
  case (Suc q)
  then obtain b1 where b1: "m_reaches s b b1" "\<forall>p < unat (producers s). q \<le> p \<longrightarrow> mp b1 p = MpLoop 0" "mc b1 = mc b"
    "open_mutex b1" "length (mqueue (inner b1)) = q * unat (ops_per_producer s)" by auto
  from b1(2) Suc.prems have "mp b1 q = MpLoop 0" by simp
  from producer_fills [OF this b1(4) order_refl, of s] obtain b2 where
    "m_reaches s b1 b2" "mp b2 = (mp b1)(q := MpLoop (unat (ops_per_producer s)))" "mc b2 = mc b1" "open_mutex b2"
    "length (mqueue (inner b2)) = length (mqueue (inner b1)) + unat (ops_per_producer s)" by blast
  with b1 leads_to_trans [OF b1(1)] show ?case by (intro exI [of _ b2]) simp
qed

lemma all_spawned:
  "q \<le> unat (producers s) \<Longrightarrow> \<exists>b. m_reaches s mutex_bench_new b \<and> mm b = MmSpawn q \<and>
     (\<forall>p < q. mp b p = MpLoop 0) \<and> mc b = McCount \<and> open_mutex b \<and> mqueue (inner b) = []"
proof (induction q)
  case 0
  have "mutex_step s MtMain mutex_bench_new = Some (mutex_bench_new\<lparr>mc := McCount, mm := MmSpawn 0\<rparr>)"
    by (simp add: mutex_main_step_def mutex_bench_new_def)
  from leads_to_step [of "mutex_step s", OF this] show ?case
    by (intro exI [of _ "mutex_bench_new\<lparr>mc := McCount, mm := MmSpawn 0\<rparr>"])
      (simp add: open_mutex_def mutex_bench_new_def mutex_inner_new_def)
next
  case (Suc q)
  then obtain b where b: "m_reaches s mutex_bench_new b" "mm b = MmSpawn q" "\<forall>p < q. mp b p = MpLoop 0" "mc b = McCount"
    "open_mutex b" "mqueue (inner b) = []" by auto
  let ?b = "b\<lparr>mp := (mp b)(q := MpLoop 0), mm := MmSpawn (q + 1)\<rparr>"
  have "mutex_step s MtMain b = Some ?b" using b(2) Suc.prems by (simp add: mutex_main_step_def)
  from leads_to_trans [OF b(1) leads_to_step [of "mutex_step s", OF this]] b show ?case
    by (intro exI [of _ ?b]) (simp add: open_mutex_def less_Suc_eq)
qed

section \<open>The consumer counts too far\<close>

lemma consumer_counts:
  assumes "mc b = McPop n now" and "unat now = 0"
  shows "k \<le> length (mqueue (inner b)) \<Longrightarrow> k \<le> unat n \<Longrightarrow> k < 2 ^ 31 \<Longrightarrow>
    \<exists>b' n' now'. m_reaches s b b' \<and> mc b' = McPop n' now' \<and> unat n' + k = unat n \<and> unat now' = k \<and>
      length (mqueue (inner b')) + k = length (mqueue (inner b))"
proof (induction k)
  case 0
  with assms show ?case by (intro exI [of _ b]) simp
next
  case (Suc k)
  then obtain b1 n1 now1 where b1: "m_reaches s b b1" "mc b1 = McPop n1 now1" "unat n1 + k = unat n" "unat now1 = k"
    "length (mqueue (inner b1)) + k = length (mqueue (inner b))" by auto
  then obtain y q where q: "mqueue (inner b1) = y # q" using Suc.prems(1) by (cases "mqueue (inner b1)") auto
  have n1: "n1 \<noteq> 0" using b1(3) Suc.prems(2) by auto
  have "unat now1 \<noteq> unat i32_max" unfolding i32_max_unat using b1(4) Suc.prems(3) by linarith
  then have now1: "now1 \<noteq> i32_max" by blast
  let ?i = "inner b1"
  let ?b2 = "b1\<lparr>inner := ?i\<lparr>mqueue := q, mprocessed := mprocessed ?i + 1\<rparr>, mc := McPop (n1 - 1) (now1 + 1)\<rparr>"
  have "run_steps (mutex_step s) [MtConsumer, MtConsumer] b1 = Some ?b2" by (simp add: b1(2) q n1 now1)
  from leads_to_trans [OF b1(1) run_steps_leads_to [OF this]] have "m_reaches s b ?b2" .
  moreover have "unat (n1 - 1) + 1 = unat n1" using n1 unat_Suc_dec [of n1] by simp
  moreover have "unat (now1 + 1) = Suc k" using i32_inc [of now1] b1(4) Suc.prems(3) by simp
  ultimately show ?case using b1(3,5) q by (intro exI [of _ ?b2]) simp
qed

lemma consumer_overflows:
  assumes "mc b = McCount" and "open_mutex b" and "2 ^ 31 \<le> length (mqueue (inner b))" and "2 ^ 31 \<le> unat (consumer_budget s)"
  shows "\<exists>b'. m_reaches s b b' \<and> mc b' = McPanic"
proof -
  let ?i = "inner b"
  let ?b1 = "b\<lparr>inner := ?i\<lparr>consumer_lock_count := consumer_lock_count ?i + 1, mlocked := True\<rparr>,
    mc := McPop (consumer_budget s) 0\<rparr>"
  have "run_steps (mutex_step s) [MtConsumer, MtConsumer] b = Some ?b1" using assms(1,2) by (simp add: open_mutex_def)
  then have b1: "m_reaches s b ?b1" by (rule run_steps_leads_to)
  have k: "(2 ^ 31 - 1 :: nat) \<le> length (mqueue (inner ?b1))" "(2 ^ 31 - 1 :: nat) \<le> unat (consumer_budget s)"
    "(2 ^ 31 - 1 :: nat) < 2 ^ 31" using assms(3,4) by simp_all
  have "mc ?b1 = McPop (consumer_budget s) 0" "unat (0 :: i32) = 0" by simp_all
  from consumer_counts [OF this k, of s] obtain b2 n now where b2: "m_reaches s ?b1 b2" "mc b2 = McPop n now"
    "unat n + (2 ^ 31 - 1) = unat (consumer_budget s)" "unat now = 2 ^ 31 - 1"
    "length (mqueue (inner b2)) + (2 ^ 31 - 1) = length (mqueue (inner ?b1))" by blast
  have "unat now = unat i32_max" unfolding i32_max_unat by (rule b2(4))
  then have now: "now = i32_max" by (simp add: word_unat_eq_iff)
  have n: "n \<noteq> 0" using b2(3) assms(4) by auto
  have "mqueue (inner b2) \<noteq> []" using b2(5) assms(3) by auto
  then obtain y q where q: "mqueue (inner b2) = y # q" by (cases "mqueue (inner b2)") auto
  obtain b3 where "run_steps (mutex_step s) [MtConsumer, MtConsumer, MtConsumer] b2 = Some b3" "mc b3 = McPanic"
    using n by (auto simp: b2(2) q now)
  with leads_to_trans [OF b1 leads_to_trans [OF b2(1) run_steps_leads_to]] show ?thesis by blast
qed

section \<open>No way back\<close>

lemma reach_ctl: "mutex_reach s b \<Longrightarrow> mutex_ctl s b"
  by (induction rule: mutex_reach.induct) (auto intro: mutex_ctl_start mutex_ctl_step)

lemma panicked_stays:
  assumes "m_reaches s b b'" and "mutex_reach s b" and "mc b = McPanic"
  shows "mutex_reach s b' \<and> mc b' = McPanic"
proof (rule leads_to_inv [OF assms(1)])
  show "mutex_reach s b \<and> mc b = McPanic" using assms(2,3) by simp
  fix t x y assume x: "mutex_reach s x \<and> mc x = McPanic" and step: "mutex_step s t x = Some y"
  have "mc y = McPanic"
  proof (cases t)
    case MtMain
    with step have "mutex_main_step s x = Some y" by simp
    then show ?thesis
    proof (cases rule: mutex_main_cases)
      case consumer
      from x have "mc x \<noteq> McNew" by simp
      moreover have "mutex_ctl s x" using x reach_ctl by blast
      ultimately show ?thesis using consumer by (simp add: mutex_ctl_def)
    qed (use x in simp_all)
  qed (use x step in auto)
  with x step show "mutex_reach s y \<and> mc y = McPanic" by (blast intro: mutex_next)
qed

lemma panicked_never_returns:
  assumes "mutex_reach s b" and "mc b = McPanic" and "mutex_schedule s ts b = Some b'"
  shows "mm b' \<noteq> MmReturn r"
proof
  assume r: "mm b' = MmReturn r"
  from assms(3) have "m_reaches s b b'" unfolding mutex_schedule_steps by (rule run_steps_leads_to)
  from panicked_stays [OF this assms(1,2)] reach_ctl have "mutex_ctl s b'" "mc b' = McPanic" by blast+
  with r show False by (simp add: mutex_ctl_def)
qed

lemma overflow_reachable:
  assumes "2 ^ 31 \<le> total_nat s" and "2 ^ 31 \<le> unat (consumer_budget s)"
  shows "\<exists>b. mutex_reach s b \<and> mc b = McPanic"
proof -
  let ?n = "unat (producers s)"
  from all_spawned [of ?n s] obtain b1 where b1: "m_reaches s mutex_bench_new b1" "\<forall>p < ?n. mp b1 p = MpLoop 0"
    "mc b1 = McCount" "open_mutex b1" "mqueue (inner b1) = []" by auto
  from all_fill [OF b1(2,4,5) order_refl] obtain b2 where b2: "m_reaches s b1 b2" "mc b2 = mc b1" "open_mutex b2"
    "length (mqueue (inner b2)) = ?n * unat (ops_per_producer s)" by blast
  have "mc b2 = McCount" "2 ^ 31 \<le> length (mqueue (inner b2))" using assms(1) b1(3) b2(2,4) by (simp_all add: total_nat_def)
  from consumer_overflows [OF this(1) b2(3) this(2) assms(2)] obtain b3 where b3: "m_reaches s b2 b3" "mc b3 = McPanic"
    by blast
  from leads_to_trans [OF b1(1) leads_to_trans [OF b2(1) b3(1)]] have "mutex_reach s b3"
    by (rule mb.leads_to_reach) (rule mutex_start)
  with b3(2) show ?thesis by blast
qed

text \<open>C31: the bound on \<open>processed_now\<close> is needed, and it is exact: a scenario whose other counters do not
  overflow can be brought to its end from all its reachable states if and only if the consumer
  can serve (budget not 0, or no operations) and the items of one critical section can be counted in an
  \<open>i32\<close> (budget or total below \<open>2^31\<close>). Otherwise there is a reachable state from which no
  schedule lets \<open>run_mutex_bench\<close> return: with a large budget, one in which the consumer has panicked.\<close>

theorem mutex_bench_returns_exactly:
  assumes "fits s"
  shows "(\<forall>b. mutex_reach s b \<longrightarrow> (\<exists>ts b' r. mutex_schedule s ts b = Some b' \<and> mm b' = MmReturn r)) \<longleftrightarrow>
    (consumer_budget s \<noteq> 0 \<or> total_nat s = 0) \<and> (unat (consumer_budget s) < 2 ^ 31 \<or> total_nat s < 2 ^ 31)"
proof
  assume all: "\<forall>b. mutex_reach s b \<longrightarrow> (\<exists>ts b' r. mutex_schedule s ts b = Some b' \<and> mm b' = MmReturn r)"
  with mutex_start obtain ts b r where b: "mutex_schedule s ts mutex_bench_new = Some b" "mm b = MmReturn r" by blast
  from mutex_schedule_reach [OF b(1) mutex_start] have "mutex_reach s b" .
  from mutex_no_budget_no_return [OF this assms b(2)] have serve: "can_serve s" .
  have "\<not> (2 ^ 31 \<le> total_nat s \<and> 2 ^ 31 \<le> unat (consumer_budget s))"
  proof
    assume "2 ^ 31 \<le> total_nat s \<and> 2 ^ 31 \<le> unat (consumer_budget s)"
    with overflow_reachable obtain c where "mutex_reach s c" "mc c = McPanic" by blast
    with all panicked_never_returns show False by blast
  qed
  with serve show "(consumer_budget s \<noteq> 0 \<or> total_nat s = 0) \<and> (unat (consumer_budget s) < 2 ^ 31 \<or> total_nat s < 2 ^ 31)"
    unfolding can_serve_iff [OF assms] by linarith
next
  assume "(consumer_budget s \<noteq> 0 \<or> total_nat s = 0) \<and> (unat (consumer_budget s) < 2 ^ 31 \<or> total_nat s < 2 ^ 31)"
  with assms have "can_serve s" "fits_i32 s" by (auto simp: can_serve_iff fits_i32_def)
  with mutex_can_return show "\<forall>b. mutex_reach s b \<longrightarrow> (\<exists>ts b' r. mutex_schedule s ts b = Some b' \<and> mm b' = MmReturn r)"
    by blast
qed

definition wide :: scenario where
  "wide = solo\<lparr>ops_per_producer := 2 ^ 31, consumer_budget := 2 ^ 31\<rparr>"

theorem mutex_bench_returns_exactly_witness:
  "\<exists>b. mutex_reach wide b \<and> (\<nexists>ts b' r. mutex_schedule wide ts b = Some b' \<and> mm b' = MmReturn r)"
proof -
  have w: "unat (consumer_budget wide) = 2 ^ 31" "total_nat wide = 2 ^ 31"
    by (simp_all add: wide_def solo_def total_nat_def)
  then have "fits wide" by (simp add: fits_def)
  from mutex_bench_returns_exactly [OF this] w show ?thesis by auto
qed

end
