(* ===== verification/BumpAlloc.thy ===== *)
theory BumpAlloc
  imports Prelude
begin

unbundle bit_operations_syntax

text \<open>
  The global allocator of the bare-metal demos (\<open>BumpAllocator::alloc\<close>, twice in the sources: in
  \<^verbatim>\<open>aarch64-baremetal-unwind/src/main.rs\<close> over 256 KiB and in \<^verbatim>\<open>main_with_unwinding.rs\<close> over 16 KiB).
  Any number of threads or interrupt handlers run \<open>alloc\<close>; each atomic operation is one step. The
  first load is \<open>Relaxed\<close>, so it may return any value that \<open>next\<close> ever had. The load of a failing
  compare-and-exchange may be stale too, but by the coherence of one atomic variable it never goes back:
  it returns the value of a later write than the one that the thread has read before. Only the
  successful exchange is known to see the latest value.
\<close>

section \<open>Layouts and the candidate block\<close>

record layout =
  layout_size :: usize
  layout_align :: usize

text \<open>
  What \<open>core::alloc::Layout\<close> promises: the alignment is a power of two, and the size rounded up to it
  does not exceed \<open>isize::MAX\<close>.
\<close>

definition layout_ok :: "layout \<Rightarrow> bool" where
  "layout_ok l \<longleftrightarrow> (\<exists>k<63. layout_align l = 2 ^ k) \<and>
     unat (layout_size l) + unat (layout_align l) \<le> 2 ^ 63"

definition heap_size_main :: usize where
  "heap_size_main = 256 * 1024"

definition heap_size_unwinding :: usize where
  "heap_size_unwinding = 16 * 1024"

text \<open>\<open>usize::checked_add\<close>.\<close>

definition checked_add :: "usize \<Rightarrow> usize \<Rightarrow> usize option" where
  "checked_add a b = (if unat a + unat b < 2 ^ 64 then Some (a + b) else None)"

definition align_up :: "usize \<Rightarrow> usize \<Rightarrow> usize" where
  "align_up cur align = (cur + align - 1) AND NOT (align - 1)"

text \<open>The body of the loop up to the exchange: \<open>aligned\<close> and \<open>end\<close>, or \<open>null_mut()\<close>.\<close>

definition candidate :: "usize \<Rightarrow> layout \<Rightarrow> usize \<Rightarrow> (usize \<times> usize) option" where
  "candidate heap_size l cur =
     (let aligned = align_up cur (layout_align l)
      in case checked_add aligned (layout_size l) of
           None \<Rightarrow> None
         | Some e \<Rightarrow> if e > heap_size then None else Some (aligned, e))"

section \<open>The call, one atomic operation at a time\<close>

text \<open>\<open>AlDone\<close> holds the returned pointer: \<open>None\<close> is null, otherwise the offset into the heap.\<close>

datatype alloc_pc = AlLoad layout | AlTry layout usize | AlCas layout usize usize usize
  | AlDone "usize option"

text \<open>
  The allocator: the values \<open>next\<close> has had, the latest first. \<open>given\<close> records for each successful call
  its offset and layout; the code has no such variable, it is only there to state the properties.
\<close>

record bump =
  stored :: "usize list"
  given :: "(usize \<times> layout) list"

definition bump_new :: bump where
  "bump_new = \<lparr>stored = [0], given = []\<rparr>"

inductive alloc_step :: "usize \<Rightarrow> bump \<Rightarrow> alloc_pc \<Rightarrow> bump \<Rightarrow> alloc_pc \<Rightarrow> bool" for heap_size where
  al_load: "v \<in> set (stored m) \<Longrightarrow> alloc_step heap_size m (AlLoad l) m (AlTry l v)"
| al_null: "candidate heap_size l cur = None \<Longrightarrow> alloc_step heap_size m (AlTry l cur) m (AlDone None)"
| al_fits: "candidate heap_size l cur = Some (aligned, e) \<Longrightarrow>
     alloc_step heap_size m (AlTry l cur) m (AlCas l cur aligned e)"
| al_win: "hd (stored m) = cur \<Longrightarrow>
     alloc_step heap_size m (AlCas l cur aligned e)
       (m\<lparr>stored := e # stored m, given := (aligned, l) # given m\<rparr>) (AlDone (Some aligned))"
| al_lose: "stored m = newer @ cur # older \<Longrightarrow> observed \<in> set newer \<Longrightarrow> observed \<noteq> cur \<Longrightarrow>
     alloc_step heap_size m (AlCas l cur aligned e) m (AlTry l observed)"

inductive_simps alloc_step_simps:
  "alloc_step heap_size m (AlLoad l) m' pc'"
  "alloc_step heap_size m (AlTry l cur) m' pc'"
  "alloc_step heap_size m (AlCas l cur aligned e) m' pc'"
  "alloc_step heap_size m (AlDone r) m' pc'"

text \<open>All callers together; a call starts with any layout that the standard library can build.\<close>

type_synonym 't alloc_world = "bump \<times> ('t \<Rightarrow> alloc_pc option)"

inductive alloc_reach :: "usize \<Rightarrow> 't alloc_world \<Rightarrow> bool" for heap_size where
  alloc_start: "alloc_reach heap_size (bump_new, (\<lambda>_. None))"
| alloc_call: "alloc_reach heap_size (m, a) \<Longrightarrow> a t = None \<Longrightarrow> layout_ok l \<Longrightarrow>
     alloc_reach heap_size (m, a(t \<mapsto> AlLoad l))"
| alloc_instr: "alloc_reach heap_size (m, a) \<Longrightarrow> a t = Some pc \<Longrightarrow> alloc_step heap_size m pc m' pc' \<Longrightarrow>
     alloc_reach heap_size (m', a(t \<mapsto> pc'))"
| alloc_return: "alloc_reach heap_size (m, a) \<Longrightarrow> a t = Some (AlDone r) \<Longrightarrow>
     alloc_reach heap_size (m, a(t := None))"

text \<open>
  A stretch of a run, in which the thread \<open>t\<close> makes \<open>n\<close> steps inside the call that it is in, and the
  others start calls, make steps and return as they please.
\<close>

inductive alloc_during :: "usize \<Rightarrow> 't \<Rightarrow> 't alloc_world \<Rightarrow> nat \<Rightarrow> 't alloc_world \<Rightarrow> bool"
  for heap_size t w where
  during_none: "alloc_during heap_size t w 0 w"
| during_own: "alloc_during heap_size t w n (m, a) \<Longrightarrow> a t = Some pc \<Longrightarrow> alloc_step heap_size m pc m' pc' \<Longrightarrow>
     alloc_during heap_size t w (Suc n) (m', a(t \<mapsto> pc'))"
| during_call: "alloc_during heap_size t w n (m, a) \<Longrightarrow> u \<noteq> t \<Longrightarrow> a u = None \<Longrightarrow> layout_ok l \<Longrightarrow>
     alloc_during heap_size t w n (m, a(u \<mapsto> AlLoad l))"
| during_instr: "alloc_during heap_size t w n (m, a) \<Longrightarrow> u \<noteq> t \<Longrightarrow> a u = Some pc \<Longrightarrow>
     alloc_step heap_size m pc m' pc' \<Longrightarrow> alloc_during heap_size t w n (m', a(u \<mapsto> pc'))"
| during_return: "alloc_during heap_size t w n (m, a) \<Longrightarrow> u \<noteq> t \<Longrightarrow> a u = Some (AlDone r) \<Longrightarrow>
     alloc_during heap_size t w n (m, a(u := None))"

text \<open>\<open>heap.0.as_mut_ptr().add(aligned)\<close>: the heap starts at \<open>base\<close>, a multiple of 16.\<close>

definition block_ptr :: "usize \<Rightarrow> usize \<Rightarrow> usize" where
  "block_ptr base aligned = base + aligned"

text \<open>A call that nobody disturbs, as a function.\<close>

definition alloc_seq :: "usize \<Rightarrow> layout \<Rightarrow> bump \<Rightarrow> bump \<times> usize option" where
  "alloc_seq heap_size l m =
     (case candidate heap_size l (hd (stored m)) of
        None \<Rightarrow> (m, None)
      | Some (aligned, e) \<Rightarrow>
          (m\<lparr>stored := e # stored m, given := (aligned, l) # given m\<rparr>, Some aligned))"

section \<open>Arithmetic of the candidate\<close>

text \<open>\<open>round_up x a\<close>: the least multiple of \<open>a\<close> that is not below \<open>x\<close>.\<close>

definition round_up :: "nat \<Rightarrow> nat \<Rightarrow> nat" where
  "round_up x a = (x + a - 1) div a * a"

lemma round_up_ge: "0 < a \<Longrightarrow> x \<le> round_up x a"
proof -
  assume a: "0 < a"
  have "x + a - 1 = round_up x a + (x + a - 1) mod a" by (simp add: round_up_def)
  moreover have "(x + a - 1) mod a \<le> a - 1" using a mod_less_divisor [OF a, of "x + a - 1"] by linarith
  ultimately show ?thesis using a by linarith
qed

lemma round_up_le: "round_up x a \<le> x + a - 1"
  by (simp add: round_up_def)

lemma round_up_dvd: "a dvd round_up x a"
  by (simp add: round_up_def)

lemma round_up_least:
  assumes "a dvd y" and "x \<le> y" and "0 < a"
  shows "round_up x a \<le> y"
proof -
  from assms(1) obtain q where q: "y = a * q" by auto
  have "(x + a - 1) div a \<le> (y + a - 1) div a" using assms(2) by (intro div_le_mono) simp
  also have "(y + a - 1) div a = q" using assms(3) by (intro div_nat_eqI) (auto simp: q algebra_simps)
  finally show ?thesis by (simp add: round_up_def q mult.commute)
qed

lemma unat_two_power:
  assumes "k < 64"
  shows "unat (2 ^ k :: usize) = 2 ^ k"
proof -
  have "(2 :: nat) ^ k < 2 ^ 64" using assms by (intro power_strict_increasing) auto
  moreover have "(2 :: usize) ^ k = of_nat (2 ^ k)" by simp
  ultimately show ?thesis by (simp only: unat_of_nat len_of_numeral_defs) simp
qed

lemma clear_low_bits: "(x :: usize) AND NOT (mask k) = x - take_bit k x"
proof -
  have "x AND NOT (mask k) = push_bit k (drop_bit k x)"
    by (rule bit_eqI) (auto simp: bit_simps)
  also have "push_bit k (drop_bit k x) = x - take_bit k x"
    using bits_ident [of k x] by (metis add_diff_cancel_right')
  finally show ?thesis .
qed

lemma unat_clear_low_bits: "unat ((x :: usize) AND NOT (mask k)) = unat x div 2 ^ k * 2 ^ k"
proof -
  have t: "unat (take_bit k x) = unat x mod 2 ^ k"
    by (simp only: unsigned_take_bit_eq) (simp only: take_bit_eq_mod)
  then have "take_bit k x \<le> x" by (simp add: word_le_nat_alt)
  then have "unat (x - take_bit k x) = unat x - unat x mod 2 ^ k" by (simp add: unat_sub t)
  then show ?thesis by (simp add: clear_low_bits minus_mod_eq_div_mult)
qed

lemma align_up_nat:
  assumes "align = 2 ^ k" and "k < 63" and "unat cur \<le> 2 ^ 62"
  shows "unat (align_up cur align) = round_up (unat cur) (unat align)"
    and "unat cur + unat align < 2 ^ 64"
proof -
  have a: "unat align = 2 ^ k" using assms(1,2) by (simp add: unat_two_power)
  have "(2 :: nat) ^ k \<le> 2 ^ 62" using assms(2) by (intro power_increasing) auto
  with a assms(3) show small: "unat cur + unat align < 2 ^ 64" by simp
  have "unat (cur + align) = unat cur + unat align" by (rule unat_add_no_wrap) (rule small)
  moreover have "(1 :: usize) \<le> cur + align" using calculation a by (simp add: word_le_nat_alt trans_le_add2)
  ultimately have "unat (cur + align - 1) = unat cur + unat align - 1" by (simp add: unat_sub)
  moreover have "align - 1 = mask k" by (simp add: assms(1) mask_eq_exp_minus_1)
  ultimately show "unat (align_up cur align) = round_up (unat cur) (unat align)"
    by (simp add: align_up_def unat_clear_low_bits round_up_def a)
qed

lemma layout_ok_align:
  assumes "layout_ok l"
  obtains k where "layout_align l = 2 ^ k" and "k < 63" and "0 < unat (layout_align l)"
proof -
  from assms obtain k where "layout_align l = 2 ^ k" "k < 63" by (auto simp: layout_ok_def)
  then show ?thesis using that [of k] by (simp add: unat_two_power)
qed

text \<open>Where a block for \<open>l\<close> lies when \<open>next\<close> is \<open>n\<close>, in natural numbers.\<close>

definition block_start :: "layout \<Rightarrow> nat \<Rightarrow> nat" where
  "block_start l n = round_up n (unat (layout_align l))"

definition block_end :: "layout \<Rightarrow> nat \<Rightarrow> nat" where
  "block_end l n = block_start l n + unat (layout_size l)"

lemma block_mono:
  assumes "layout_ok l" and "m \<le> n"
  shows "block_start l m \<le> block_start l n"
proof -
  have a: "0 < unat (layout_align l)" by (rule layout_ok_align [OF assms(1)])
  have "m \<le> round_up n (unat (layout_align l))" using round_up_ge [OF a, of n] assms(2) by linarith
  with a round_up_dvd show ?thesis unfolding block_start_def by (intro round_up_least)
qed

lemma block_ge:
  assumes "layout_ok l"
  shows "n \<le> block_start l n" and "unat (layout_align l) dvd block_start l n"
proof -
  have "0 < unat (layout_align l)" by (rule layout_ok_align [OF assms])
  then show "n \<le> block_start l n" and "unat (layout_align l) dvd block_start l n"
    by (simp_all add: block_start_def round_up_ge round_up_dvd)
qed

section \<open>A heap of a given size\<close>

locale bump_heap =
  fixes heap_size :: usize
  assumes heap_small: "unat heap_size \<le> 2 ^ 62"
begin

lemma candidate_nat:
  assumes "layout_ok l" and "unat cur \<le> unat heap_size"
  shows "candidate heap_size l cur = None \<longleftrightarrow> unat heap_size < block_end l (unat cur)"
    and "candidate heap_size l cur = Some (al, e) \<Longrightarrow>
      unat al = block_start l (unat cur) \<and> unat e = block_end l (unat cur) \<and> unat e \<le> unat heap_size"
proof -
  obtain k where k: "layout_align l = 2 ^ k" "k < 63" by (rule layout_ok_align [OF assms(1)])
  have c: "unat cur \<le> 2 ^ 62" using assms(2) heap_small by linarith
  have up: "unat (align_up cur (layout_align l)) = block_start l (unat cur)"
    using align_up_nat(1) [OF k c] by (simp add: block_start_def)
  have "block_start l (unat cur) \<le> unat cur + unat (layout_align l) - 1"
    unfolding block_start_def by (rule round_up_le)
  moreover have "unat (layout_size l) + unat (layout_align l) \<le> 2 ^ 63"
    using assms(1) by (simp add: layout_ok_def)
  ultimately have fit: "unat (align_up cur (layout_align l)) + unat (layout_size l) < 2 ^ 64"
    using c up by simp
  then have e: "unat (align_up cur (layout_align l) + layout_size l) = block_end l (unat cur)"
    by (simp add: unat_add_no_wrap up block_end_def)
  have s: "checked_add (align_up cur (layout_align l)) (layout_size l) =
      Some (align_up cur (layout_align l) + layout_size l)"
    using fit by (simp add: checked_add_def)
  show "candidate heap_size l cur = None \<longleftrightarrow> unat heap_size < block_end l (unat cur)"
    by (simp add: candidate_def Let_def s word_less_nat_alt e)
  show "candidate heap_size l cur = Some (al, e) \<Longrightarrow>
      unat al = block_start l (unat cur) \<and> unat e = block_end l (unat cur) \<and> unat e \<le> unat heap_size"
    using up e by (auto simp: candidate_def Let_def s word_less_nat_alt not_less split: if_splits)
qed

lemma alloc_seq_nat:
  assumes "layout_ok l" and "stored m = n # older" and n: "unat n \<le> unat heap_size"
  shows "case alloc_seq heap_size l m of (m', r) \<Rightarrow>
    (r = None \<longleftrightarrow> unat heap_size < block_end l (unat n)) \<and> (r = None \<longrightarrow> m' = m) \<and>
    (\<forall>x. r = Some x \<longrightarrow> unat x = block_start l (unat n) \<and> unat (hd (stored m')) = block_end l (unat n) \<and>
       tl (stored m') = stored m)"
proof (cases "candidate heap_size l n")
  case None
  with candidate_nat(1) [OF assms(1) n] show ?thesis by (simp add: alloc_seq_def assms(2))
next
  case (Some y)
  then obtain al e where y: "candidate heap_size l n = Some (al, e)" by (cases y) simp
  with candidate_nat(1) [OF assms(1) n] candidate_nat(2) [OF assms(1) n y] show ?thesis
    by (simp add: alloc_seq_def assms(2))
qed

definition pc_ok :: "bump \<Rightarrow> alloc_pc \<Rightarrow> bool" where
  "pc_ok m pc \<longleftrightarrow> (case pc of AlLoad l \<Rightarrow> layout_ok l
     | AlTry l cur \<Rightarrow> layout_ok l \<and> cur \<in> set (stored m)
     | AlCas l cur al e \<Rightarrow> layout_ok l \<and> cur \<in> set (stored m) \<and> candidate heap_size l cur = Some (al, e)
     | AlDone r \<Rightarrow> True)"

text \<open>A block given before another one ends where that one starts, or below.\<close>

definition above :: "(usize \<times> layout) \<Rightarrow> (usize \<times> layout) \<Rightarrow> bool" where
  "above x y \<longleftrightarrow> unat (fst y) + unat (layout_size (snd y)) \<le> unat (fst x)"

definition bump_inv :: "bump \<Rightarrow> bool" where
  "bump_inv m \<longleftrightarrow> stored m \<noteq> [] \<and> hd (stored m) \<le> heap_size \<and> (\<forall>v\<in>set (stored m). v \<le> hd (stored m)) \<and>
     sorted_wrt (\<ge>) (stored m) \<and> length (stored m) = Suc (length (given m)) \<and>
     sorted_wrt above (given m) \<and>
     (\<forall>(x, l)\<in>set (given m). unat x + unat (layout_size l) \<le> unat (hd (stored m)) \<and>
        unat (layout_align l) dvd unat x)"

lemma bump_inv_new: "bump_inv bump_new"
  by (simp add: bump_inv_def bump_new_def)

lemma bump_inv_bound: "bump_inv m \<Longrightarrow> v \<in> set (stored m) \<Longrightarrow> unat v \<le> unat heap_size"
  by (force simp: bump_inv_def word_le_nat_alt)

lemma win_bounds:
  assumes "bump_inv m" and "pc_ok m (AlCas l cur al e)" and "hd (stored m) = cur"
  shows "unat cur \<le> unat al" and "unat al + unat (layout_size l) = unat e" and "unat e \<le> unat heap_size"
    and "unat (layout_align l) dvd unat al"
proof -
  from assms(2) have ok: "layout_ok l" "cur \<in> set (stored m)" "candidate heap_size l cur = Some (al, e)"
    by (simp_all add: pc_ok_def)
  note c = candidate_nat(2) [OF ok(1) bump_inv_bound [OF assms(1) ok(2)] ok(3)]
  show "unat cur \<le> unat al" and "unat al + unat (layout_size l) = unat e" and "unat e \<le> unat heap_size"
    and "unat (layout_align l) dvd unat al"
    using c block_ge [OF ok(1), of "unat cur"] by (simp_all add: block_end_def)
qed

lemma bump_inv_step:
  assumes step: "alloc_step heap_size m pc m' pc'" and inv: "bump_inv m" and ok: "pc_ok m pc"
  shows "bump_inv m' \<and> pc_ok m' pc' \<and> set (stored m) \<subseteq> set (stored m')"
proof (cases pc)
  case (AlCas l cur al e)
  show ?thesis
  proof (cases "m' = m")
    case True
    with AlCas step inv ok show ?thesis by (auto simp: alloc_step_simps pc_ok_def)
  next
    case False
    with step AlCas have hd: "hd (stored m) = cur" and pc': "pc' = AlDone (Some al)"
      and m': "m' = m\<lparr>stored := e # stored m, given := (al, l) # given m\<rparr>"
      by (auto simp: alloc_step_simps)
    note w = win_bounds [OF inv ok [unfolded AlCas] hd]
    have up: "v \<le> e" if "v \<in> set (stored m)" for v
      using that inv w hd by (force simp: bump_inv_def word_le_nat_alt)
    have below: "unat x + unat (layout_size k) \<le> unat cur" if "(x, k) \<in> set (given m)" for x k
      using that inv hd by (force simp: bump_inv_def)
    then have "sorted_wrt above ((al, l) # given m)"
      using inv w by (force simp: bump_inv_def above_def)
    moreover have "unat x + unat (layout_size k) \<le> unat e" if "(x, k) \<in> set (given m)" for x k
      using below [OF that] w by linarith
    ultimately show ?thesis
      using inv w up by (auto simp: bump_inv_def pc_ok_def word_le_nat_alt m' pc')
  qed
qed (use step inv ok in \<open>auto simp: pc_ok_def alloc_step_simps\<close>)

lemma bump_reach:
  "alloc_reach heap_size w \<Longrightarrow> bump_inv (fst w) \<and> (\<forall>t pc. snd w t = Some pc \<longrightarrow> pc_ok (fst w) pc)"
proof (induction rule: alloc_reach.induct)
  case alloc_start
  show ?case by (simp add: bump_inv_new)
next
  case (alloc_call m a t l)
  then show ?case by (auto simp: pc_ok_def)
next
  case (alloc_instr m a t pc m' pc')
  then have step: "bump_inv m' \<and> pc_ok m' pc' \<and> set (stored m) \<subseteq> set (stored m')"
    by (intro bump_inv_step) auto
  have "pc_ok m' qc" if "pc_ok m qc" for qc
    using that step by (auto simp: pc_ok_def split: alloc_pc.splits)
  with alloc_instr step show ?case by auto
next
  case (alloc_return m a t r)
  then show ?case by auto
qed

text \<open>Blocks do not overlap, lie in the heap and start at a multiple of their alignment.\<close>

lemma blocks_separate:
  assumes "alloc_reach heap_size (m, a)"
  shows "i < j \<Longrightarrow> j < length (given m) \<Longrightarrow> above (given m ! i) (given m ! j)"
    and "(x, l) \<in> set (given m) \<Longrightarrow>
      unat x + unat (layout_size l) \<le> unat heap_size \<and> unat (layout_align l) dvd unat x"
  using bump_reach [OF assms]
  by (auto simp: bump_inv_def sorted_wrt_iff_nth_less word_le_nat_alt)

text \<open>Null is returned only when the heap is too full at that very moment.\<close>

lemma null_justified:
  assumes "alloc_reach heap_size (m, a)" and "a t = Some (AlTry l cur)" and "candidate heap_size l cur = None"
  shows "unat heap_size < block_end l (unat (hd (stored m)))"
proof -
  from bump_reach [OF assms(1)] assms(2) have inv: "bump_inv m" and ok: "pc_ok m (AlTry l cur)" by auto
  then have l: "layout_ok l" and c: "cur \<in> set (stored m)" by (simp_all add: pc_ok_def)
  have "unat heap_size < block_end l (unat cur)"
    using candidate_nat(1) [OF l bump_inv_bound [OF inv c]] assms(3) by simp
  moreover have "block_start l (unat cur) \<le> block_start l (unat (hd (stored m)))"
    using inv c by (intro block_mono [OF l]) (simp add: bump_inv_def word_le_nat_alt)
  ultimately show ?thesis by (simp add: block_end_def)
qed

text \<open>
  Every call ends within a number of its own steps that is bounded in advance. Each failed exchange has
  observed a larger value of \<open>next\<close>, so the call has retried at most as often as \<open>next\<close> has had
  smaller values than the one it now works with.
\<close>

definition below :: "bump \<Rightarrow> usize \<Rightarrow> nat" where
  "below m cur = card {v \<in> set (stored m). v < cur}"

definition steps_ok :: "bump \<Rightarrow> nat \<Rightarrow> alloc_pc \<Rightarrow> bool" where
  "steps_ok m n pc \<longleftrightarrow> (case pc of AlLoad l \<Rightarrow> n = 0
     | AlTry l cur \<Rightarrow> n \<le> 2 * below m cur + 1
     | AlCas l cur al e \<Rightarrow> n \<le> 2 * below m cur + 2
     | AlDone r \<Rightarrow> n \<le> 2 * min (length (given m)) (unat heap_size) + 3)"

lemma below_mono: "set (stored m) \<subseteq> set (stored m') \<Longrightarrow> below m cur \<le> below m' cur"
  unfolding below_def by (intro card_mono) auto

lemma below_less:
  assumes "cur \<in> set (stored m)" and "cur < observed"
  shows "below m cur < below m observed"
  unfolding below_def using assms by (intro psubset_card_mono) auto

lemma below_bound:
  assumes "bump_inv m" and "cur \<in> set (stored m)"
  shows "below m cur \<le> length (given m)" and "below m cur \<le> unat heap_size"
proof -
  have "below m cur < card (set (stored m))"
    unfolding below_def using assms(2) by (intro psubset_card_mono) auto
  also have "card (set (stored m)) \<le> Suc (length (given m))"
    using card_length [of "stored m"] assms(1) by (simp add: bump_inv_def)
  finally show "below m cur \<le> length (given m)" by simp
  have "card (unat ` {v \<in> set (stored m). v < cur}) \<le> card {..<unat cur}"
    by (intro card_mono) (auto simp: word_less_nat_alt)
  moreover have "inj_on unat {v \<in> set (stored m). v < cur}" by (auto simp: inj_on_def intro: word_unat_eq_iff [THEN iffD2])
  ultimately show "below m cur \<le> unat heap_size"
    using bump_inv_bound [OF assms] by (simp add: below_def card_image)
qed

lemma lose_greater:
  assumes "bump_inv m" and "stored m = newer @ cur # older" and "observed \<in> set newer" and "observed \<noteq> cur"
  shows "cur < observed"
  using assms by (auto simp: bump_inv_def sorted_wrt_append)

lemma steps_ok_mono:
  assumes "steps_ok m n pc" and "set (stored m) \<subseteq> set (stored m')" and "length (given m) \<le> length (given m')"
  shows "steps_ok m' n pc"
proof -
  have "below m cur \<le> below m' cur" for cur using assms(2) by (rule below_mono)
  then have "n \<le> 2 * below m cur + k \<Longrightarrow> n \<le> 2 * below m' cur + k" for cur k
    by (meson add_mono le_refl mult_le_mono2 order_trans)
  from this [of _ 1] this [of _ 2] assms(1,3) show ?thesis
    by (auto simp: steps_ok_def split: alloc_pc.splits)
qed

lemma given_grows: "alloc_step heap_size m pc m' pc' \<Longrightarrow> length (given m) \<le> length (given m')"
  by (cases rule: alloc_step.cases) auto

lemma steps_ok_step:
  assumes step: "alloc_step heap_size m pc m' pc'" and inv: "bump_inv m" and ok: "pc_ok m pc"
    and n: "steps_ok m n pc" and open_call: "\<forall>r. pc \<noteq> AlDone r"
  shows "steps_ok m' (Suc n) pc'"
  using step
proof (cases rule: alloc_step.cases)
  case (al_null l cur)
  with ok have "cur \<in> set (stored m)" by (simp add: pc_ok_def)
  from below_bound [OF inv this] al_null n show ?thesis by (simp add: steps_ok_def)
next
  case (al_win cur l al e)
  with ok have "cur \<in> set (stored m)" by (simp add: pc_ok_def)
  from below_bound [OF inv this] al_win n show ?thesis by (simp add: steps_ok_def min_def)
next
  case (al_lose newer cur older observed l al e)
  have "below m cur < below m observed"
    using lose_greater [OF inv] al_lose by (intro below_less) auto
  with al_lose n show ?thesis by (simp add: steps_ok_def)
qed (use n in \<open>simp_all add: steps_ok_def\<close>)

lemma call_progress:
  assumes inv: "bump_inv m" and ok: "pc_ok m pc"
  shows "(\<exists>r. pc = AlDone r) \<or> (\<exists>m' pc'. alloc_step heap_size m pc m' pc')"
proof (cases pc)
  case (AlLoad l)
  with inv have "alloc_step heap_size m pc m (AlTry l (hd (stored m)))"
    by (simp add: alloc_step_simps bump_inv_def)
  then show ?thesis by blast
next
  case (AlTry l cur)
  then show ?thesis
    by (cases "candidate heap_size l cur") (auto simp: alloc_step_simps)
next
  case (AlCas l cur al e)
  show ?thesis
  proof (cases "hd (stored m) = cur")
    case True
    with AlCas show ?thesis by (auto simp: alloc_step_simps)
  next
    case False
    from ok AlCas obtain newer older where s: "stored m = newer @ cur # older"
      by (auto simp: pc_ok_def in_set_conv_decomp)
    with False obtain v vs where "newer = v # vs" by (cases newer) auto
    with s False have "alloc_step heap_size m pc m (AlTry l v)"
      unfolding AlCas by (intro al_lose [OF s]) auto
    then show ?thesis by blast
  qed
qed simp

lemma during_reach:
  assumes "alloc_during heap_size t w n w'" and "alloc_reach heap_size w"
  shows "alloc_reach heap_size w'"
  using assms by induction (auto intro: alloc_reach.intros)

lemma during_steps:
  assumes "alloc_during heap_size t (m, a) n w'" and "alloc_reach heap_size (m, a)" and "a t = Some (AlLoad l)"
  shows "\<exists>pc. snd w' t = Some pc \<and> steps_ok (fst w') n pc"
  using assms
proof (induction)
  case during_none
  then show ?case by (simp add: steps_ok_def)
next
  case (during_own n m1 a1 pc m' pc')
  from during_reach [OF during_own.hyps(1) during_own.prems(1)]
  have inv: "bump_inv m1" and ok: "pc_ok m1 pc" using bump_reach during_own.hyps(2) by force+
  have "\<forall>r. pc \<noteq> AlDone r" using during_own.hyps(3) by (auto simp: alloc_step_simps)
  with steps_ok_step [OF during_own.hyps(3) inv ok] during_own show ?case by simp
next
  case (during_instr n m1 a1 u pc m' pc')
  from during_reach [OF during_instr.hyps(1) during_instr.prems(1)]
  have inv: "bump_inv m1" and ok: "pc_ok m1 pc" using bump_reach during_instr.hyps(3) by force+
  have "set (stored m1) \<subseteq> set (stored m')" using bump_inv_step [OF during_instr.hyps(4) inv ok] by simp
  from steps_ok_mono [OF _ this given_grows [OF during_instr.hyps(4)]] during_instr show ?case by auto
qed auto

lemma wait_free:
  assumes r: "alloc_reach heap_size (m, a)" and c: "a t = Some (AlLoad l)"
    and d: "alloc_during heap_size t (m, a) n (m', a')"
  shows "n \<le> 2 * min (length (given m')) (unat heap_size) + 3"
    and "(\<exists>r. a' t = Some (AlDone r)) \<or> (\<exists>pc m'' pc'. a' t = Some pc \<and> alloc_step heap_size m' pc m'' pc')"
proof -
  from during_steps [OF d r c] obtain pc where pc: "a' t = Some pc" and n: "steps_ok m' n pc" by auto
  from bump_reach [OF during_reach [OF d r]] pc have inv: "bump_inv m'" and ok: "pc_ok m' pc" by auto
  have b: "below m' cur \<le> min (length (given m')) (unat heap_size)" if "cur \<in> set (stored m')" for cur
    using below_bound [OF inv that] by simp
  show "n \<le> 2 * min (length (given m')) (unat heap_size) + 3"
    using n ok by (auto simp: steps_ok_def pc_ok_def split: alloc_pc.splits dest!: b)
  show "(\<exists>r. a' t = Some (AlDone r)) \<or> (\<exists>pc m'' pc'. a' t = Some pc \<and> alloc_step heap_size m' pc m'' pc')"
    using call_progress [OF inv ok] pc by auto
qed

text \<open>The additions that the source writes without a check do not overflow.\<close>

lemma no_overflow:
  assumes "alloc_reach heap_size (m, a)" and "a t = Some (AlTry l cur)"
  shows "unat cur + unat (layout_align l) < 2 ^ 64"
proof -
  from bump_reach [OF assms(1)] assms(2) have inv: "bump_inv m" and ok: "pc_ok m (AlTry l cur)" by auto
  then have l: "layout_ok l" and c: "cur \<in> set (stored m)" by (simp_all add: pc_ok_def)
  obtain k where "layout_align l = 2 ^ k" "k < 63" by (rule layout_ok_align [OF l])
  then show ?thesis
    using bump_inv_bound [OF inv c] heap_small by (intro align_up_nat(2)) auto
qed

end

interpretation main_heap: bump_heap heap_size_main
  by unfold_locales (simp add: heap_size_main_def)

interpretation unwinding_heap: bump_heap heap_size_unwinding
  by unfold_locales (simp add: heap_size_unwinding_def)

end
