(* ===== verification/BumpProperties.thy ===== *)
theory BumpProperties
  imports BumpAlloc
begin

text \<open>
  The properties of the bump allocator for the two heaps of the sources, with concrete runs.
\<close>

section \<open>A call that nobody disturbs\<close>

definition alloc_all :: "usize \<Rightarrow> layout list \<Rightarrow> bump \<Rightarrow> bump" where
  "alloc_all heap_size ls m = fold (\<lambda>l m. fst (alloc_seq heap_size l m)) ls m"

lemma alloc_seq_reach:
  assumes r: "alloc_reach heap_size (m, a)" and "stored m \<noteq> []" and n: "a t = None" and l: "layout_ok l"
  shows "alloc_reach heap_size (fst (alloc_seq heap_size l m), a(t \<mapsto> AlDone (snd (alloc_seq heap_size l m))))"
proof -
  let ?c = "hd (stored m)"
  have 1: "alloc_reach heap_size (m, a(t \<mapsto> AlTry l ?c))"
    using alloc_instr [OF alloc_call [OF r n l], of t "AlLoad l" m "AlTry l ?c"] assms(2)
    by (simp add: alloc_step_simps)
  show ?thesis
  proof (cases "candidate heap_size l ?c")
    case None
    with alloc_instr [OF 1, of t "AlTry l ?c" m "AlDone None"] show ?thesis
      by (simp add: alloc_seq_def alloc_step_simps)
  next
    case (Some x)
    then obtain al e where x: "candidate heap_size l ?c = Some (al, e)" by (cases x) simp
    with alloc_instr [OF 1, of t "AlTry l ?c" m "AlCas l ?c al e"]
    have 2: "alloc_reach heap_size (m, a(t \<mapsto> AlCas l ?c al e))" by (simp add: alloc_step_simps)
    let ?m = "m\<lparr>stored := e # stored m, given := (al, l) # given m\<rparr>"
    from alloc_instr [OF 2, of t "AlCas l ?c al e" ?m "AlDone (Some al)"] x show ?thesis
      by (simp add: alloc_seq_def alloc_step_simps)
  qed
qed

lemma alloc_seq_stored: "stored m \<noteq> [] \<Longrightarrow> stored (fst (alloc_seq h l m)) \<noteq> []"
  by (simp add: alloc_seq_def split: option.splits prod.splits)

lemma alloc_all_reach:
  assumes "\<forall>l\<in>set ls. layout_ok l" and "alloc_reach heap_size (m, (\<lambda>_ :: unit. None))" and "stored m \<noteq> []"
  shows "alloc_reach heap_size (alloc_all heap_size ls m, (\<lambda>_ :: unit. None))"
  using assms
proof (induction ls arbitrary: m)
  case (Cons l ls)
  let ?m = "fst (alloc_seq heap_size l m)"
  have "alloc_reach heap_size (?m, (\<lambda>_. None)(() \<mapsto> AlDone (snd (alloc_seq heap_size l m))))"
    using Cons.prems by (intro alloc_seq_reach) simp_all
  from alloc_return [OF this, of "()"] have "alloc_reach heap_size (?m, (\<lambda>_ :: unit. None))" by simp
  with Cons.IH [of ?m] Cons.prems show ?case by (simp add: alloc_all_def alloc_seq_stored)
qed (simp add: alloc_all_def)

section \<open>Concrete runs\<close>

definition small_block :: layout where
  "small_block = \<lparr>layout_size = 24, layout_align = 8\<rparr>"

definition wide_block :: layout where
  "wide_block = \<lparr>layout_size = 100, layout_align = 64\<rparr>"

definition huge_block :: layout where
  "huge_block = \<lparr>layout_size = 2 ^ 18, layout_align = 1\<rparr>"

lemma layout_okI:
  "layout_align l = 2 ^ k \<Longrightarrow> k < 63 \<Longrightarrow> unat (layout_size l) + unat (layout_align l) \<le> 2 ^ 63 \<Longrightarrow> layout_ok l"
  unfolding layout_ok_def by blast

lemma blocks_ok: "layout_ok small_block" "layout_ok wide_block" "layout_ok huge_block"
  by (rule layout_okI [of _ 3], simp_all add: small_block_def)
    (rule layout_okI [of _ 6], simp_all add: wide_block_def,
     rule layout_okI [of _ 0], simp_all add: huge_block_def)

definition two_blocks :: bump where
  "two_blocks = \<lparr>stored = [164, 24, 0], given = [(64, wide_block), (0, small_block)]\<rparr>"

lemma two_blocks_run: "alloc_all heap_size_main [small_block, wide_block] bump_new = two_blocks"
  by (simp add: alloc_all_def alloc_seq_def candidate_def checked_add_def align_up_def bump_new_def
      small_block_def wide_block_def two_blocks_def heap_size_main_def)

lemma two_blocks_reach: "alloc_reach heap_size_main (two_blocks, (\<lambda>_ :: unit. None))"
  unfolding two_blocks_run [symmetric]
  by (rule alloc_all_reach) (simp_all add: blocks_ok alloc_start, simp add: bump_new_def)

lemma full_heap: "candidate heap_size_main huge_block 24 = None"
  by (simp add: candidate_def checked_add_def align_up_def huge_block_def heap_size_main_def)

definition one_block :: bump where
  "one_block = \<lparr>stored = [24, 0], given = [(0, small_block)]\<rparr>"

lemma one_block_run: "alloc_all heap_size_main [small_block] bump_new = one_block"
  by (simp add: alloc_all_def alloc_seq_def candidate_def checked_add_def align_up_def bump_new_def
      small_block_def one_block_def heap_size_main_def)

text \<open>Then a caller that still sees the initial value of \<open>next\<close> asks for the whole heap.\<close>

lemma stale_reach:
  "alloc_reach heap_size_main (one_block, (\<lambda>_ :: unit. None)(() \<mapsto> AlTry huge_block 24))"
proof -
  have "alloc_reach heap_size_main (one_block, (\<lambda>_ :: unit. None))"
    unfolding one_block_run [symmetric]
    by (rule alloc_all_reach) (simp_all add: blocks_ok alloc_start, simp add: bump_new_def)
  from alloc_instr [OF alloc_call [OF this _ blocks_ok(3), of "()"], of "()" "AlLoad huge_block" one_block "AlTry huge_block 24"]
  show ?thesis by (simp add: alloc_step_simps one_block_def)
qed

text \<open>
  A contended call: \<open>True\<close> has read 0 from \<open>next\<close> and computed its block when \<open>False\<close> takes that
  block; the exchange of \<open>True\<close> fails, and it takes the block behind.
\<close>

definition contended :: bump where
  "contended = \<lparr>stored = [48, 24, 0], given = [(24, small_block), (0, small_block)]\<rparr>"

lemma small_candidates:
  "candidate heap_size_main small_block 0 = Some (0, 24)"
  "candidate heap_size_main small_block 24 = Some (24, 48)"
  by (simp_all add: candidate_def checked_add_def align_up_def small_block_def heap_size_main_def)

lemma contended_run:
  defines "a \<equiv> (\<lambda>b. if b then Some (AlLoad small_block) else None)"
  shows "alloc_reach heap_size_main (bump_new, a)"
    and "\<exists>a'. alloc_during heap_size_main True (bump_new, a) 5 (contended, a')"
proof -
  have a: "a = (\<lambda>_. None)(True \<mapsto> AlLoad small_block)" by (auto simp: a_def)
  show "alloc_reach heap_size_main (bump_new, a)"
    unfolding a by (rule alloc_call) (simp_all add: blocks_ok alloc_start)
  have 1: "alloc_during heap_size_main True (bump_new, a) 1 (bump_new, a(True \<mapsto> AlTry small_block 0))"
    using during_own [OF during_none [of heap_size_main True "(bump_new, a)"], of "AlLoad small_block" bump_new "AlTry small_block 0"]
    by (simp add: alloc_step_simps bump_new_def a_def)
  let ?a2 = "a(True \<mapsto> AlCas small_block 0 0 24)"
  have 2: "alloc_during heap_size_main True (bump_new, a) 2 (bump_new, ?a2)"
    using during_own [OF 1, of "AlTry small_block 0" bump_new "AlCas small_block 0 0 24"]
    by (simp add: alloc_step_simps small_candidates numeral_2_eq_2)
  have 3: "alloc_during heap_size_main True (bump_new, a) 2 (bump_new, ?a2(False \<mapsto> AlLoad small_block))"
    by (rule during_call [OF 2]) (simp_all add: a_def blocks_ok)
  have 4: "alloc_during heap_size_main True (bump_new, a) 2 (bump_new, ?a2(False \<mapsto> AlTry small_block 0))"
    using during_instr [OF 3, of False "AlLoad small_block" bump_new "AlTry small_block 0"]
    by (simp add: alloc_step_simps bump_new_def)
  have 5: "alloc_during heap_size_main True (bump_new, a) 2 (bump_new, ?a2(False \<mapsto> AlCas small_block 0 0 24))"
    using during_instr [OF 4, of False "AlTry small_block 0" bump_new "AlCas small_block 0 0 24"]
    by (simp add: alloc_step_simps small_candidates)
  let ?a6 = "?a2(False \<mapsto> AlDone (Some 0))"
  have 6: "alloc_during heap_size_main True (bump_new, a) 2 (one_block, ?a6)"
    using during_instr [OF 5, of False "AlCas small_block 0 0 24" one_block "AlDone (Some 0)"]
    by (simp add: alloc_step_simps bump_new_def one_block_def)
  have "alloc_step heap_size_main one_block (AlCas small_block 0 0 24) one_block (AlTry small_block 24)"
    by (rule al_lose [of one_block "[24]" 0 "[]"]) (simp_all add: one_block_def)
  from during_own [OF 6, of "AlCas small_block 0 0 24" one_block "AlTry small_block 24", OF _ this]
  have 7: "alloc_during heap_size_main True (bump_new, a) 3 (one_block, ?a6(True \<mapsto> AlTry small_block 24))"
    by (simp add: numeral_3_eq_3 numeral_2_eq_2)
  from during_own [OF 7, of "AlTry small_block 24" one_block "AlCas small_block 24 24 48"]
  have 8: "alloc_during heap_size_main True (bump_new, a) 4 (one_block, ?a6(True \<mapsto> AlCas small_block 24 24 48))"
    by (simp add: alloc_step_simps small_candidates)
  from during_own [OF 8, of "AlCas small_block 24 24 48" contended "AlDone (Some 24)"]
  have "alloc_during heap_size_main True (bump_new, a) 5 (contended, ?a6(True \<mapsto> AlDone (Some 24)))"
    by (simp add: alloc_step_simps one_block_def contended_def)
  then show "\<exists>a'. alloc_during heap_size_main True (bump_new, a) 5 (contended, a')" by blast
qed

section \<open>Properties\<close>

text \<open>C24: whatever the interleaving of any number of callers and however stale their loads, the blocks that
  the allocator has handed out lie inside the heap, start at an offset that is a multiple of their
  alignment, and never overlap: an earlier block ends where a later one starts, or below.\<close>

theorem bump_blocks_disjoint:
  assumes "heap_size \<in> {heap_size_main, heap_size_unwinding}" and "alloc_reach heap_size (m, a)"
  shows "(\<forall>(x, l)\<in>set (given m).
      unat x + unat (layout_size l) \<le> unat heap_size \<and> unat (layout_align l) dvd unat x) \<and>
    (\<forall>i j. i < j \<and> j < length (given m) \<longrightarrow>
      unat (fst (given m ! j)) + unat (layout_size (snd (given m ! j))) \<le> unat (fst (given m ! i)))"
  using assms main_heap.blocks_separate [of m a] unwinding_heap.blocks_separate [of m a]
  by (auto simp: main_heap.above_def unwinding_heap.above_def)

theorem bump_blocks_disjoint_witness:
  "\<exists>a :: unit \<Rightarrow> alloc_pc option. alloc_reach heap_size_main (two_blocks, a) \<and>
     unat (fst (given two_blocks ! 1)) + unat (layout_size (snd (given two_blocks ! 1)))
       \<le> unat (fst (given two_blocks ! 0))"
proof -
  have "heap_size_main \<in> {heap_size_main, heap_size_unwinding}" by simp
  from bump_blocks_disjoint [OF this two_blocks_reach, THEN conjunct2, rule_format, of 0 1]
  have "unat (fst (given two_blocks ! 1)) + unat (layout_size (snd (given two_blocks ! 1)))
      \<le> unat (fst (given two_blocks ! 0))" by (simp add: two_blocks_def)
  with two_blocks_reach show ?thesis by blast
qed

text \<open>C25: a call that runs undisturbed returns null exactly when the block does not fit behind \<open>next\<close>; otherwise
  it returns the first suitably aligned offset from \<open>next\<close> on, and \<open>next\<close> moves to the end of the block.\<close>

theorem bump_alloc_computes:
  assumes "heap_size \<in> {heap_size_main, heap_size_unwinding}" and "layout_ok l"
    and "stored m = n # older" and "unat n \<le> unat heap_size"
  shows "case alloc_seq heap_size l m of (m', r) \<Rightarrow>
    (r = None \<longleftrightarrow> unat heap_size < block_end l (unat n)) \<and> (r = None \<longrightarrow> m' = m) \<and>
    (\<forall>x. r = Some x \<longrightarrow> unat x = block_start l (unat n) \<and> unat (hd (stored m')) = block_end l (unat n) \<and>
       tl (stored m') = stored m)"
proof -
  from assms(1) consider (main) "heap_size = heap_size_main" | (unwinding) "heap_size = heap_size_unwinding"
    by auto
  then show ?thesis
  proof cases
    case main
    show ?thesis unfolding main by (rule main_heap.alloc_seq_nat [OF assms(2,3) assms(4) [unfolded main]])
  next
    case unwinding
    show ?thesis unfolding unwinding
      by (rule unwinding_heap.alloc_seq_nat [OF assms(2,3) assms(4) [unfolded unwinding]])
  qed
qed

theorem bump_alloc_computes_witness:
  "unat (hd (stored (fst (alloc_seq heap_size_main wide_block one_block)))) = block_end wide_block 24 \<and>
   block_end wide_block 24 = 164"
proof -
  have "heap_size_main \<in> {heap_size_main, heap_size_unwinding}" by simp
  have run: "alloc_seq heap_size_main wide_block one_block = (two_blocks, Some 64)"
    by (simp add: alloc_seq_def candidate_def checked_add_def align_up_def one_block_def
        wide_block_def two_blocks_def heap_size_main_def)
  from bump_alloc_computes [OF \<open>heap_size_main \<in> _\<close> blocks_ok(2), of one_block 24 "[0]"] run show ?thesis
    by (simp add: one_block_def heap_size_main_def block_end_def block_start_def round_up_def wide_block_def)
qed

text \<open>C27: null is never a spurious failure: when any caller finds no room behind the value it has loaded,
  however old that value is, the block does not fit behind the present value of \<open>next\<close> either.\<close>

theorem bump_null_justified:
  assumes "heap_size \<in> {heap_size_main, heap_size_unwinding}" and "alloc_reach heap_size (m, a)"
    and "a t = Some (AlTry l cur)" and "candidate heap_size l cur = None"
  shows "unat heap_size < block_end l (unat (hd (stored m)))"
  using assms main_heap.null_justified [of m a t l cur] unwinding_heap.null_justified [of m a t l cur] by auto

theorem bump_null_justified_witness: "unat heap_size_main < block_end huge_block 24"
proof -
  have "heap_size_main \<in> {heap_size_main, heap_size_unwinding}" by simp
  from bump_null_justified [OF this stale_reach, of "()"] full_heap show ?thesis by (simp add: one_block_def)
qed

text \<open>C26: a call of the allocator is wait-free: whatever the other callers do meanwhile and however stale its
  loads are, it has made at most two steps for every block handed out by then, never more than two for
  every byte of the heap, plus three; and as long as it has not returned it can make its next step.\<close>

theorem bump_alloc_wait_free:
  assumes "heap_size \<in> {heap_size_main, heap_size_unwinding}" and "alloc_reach heap_size (m, a)"
    and "a t = Some (AlLoad l)" and "alloc_during heap_size t (m, a) n (m', a')"
  shows "n \<le> 2 * min (length (given m')) (unat heap_size) + 3 \<and>
    ((\<exists>r. a' t = Some (AlDone r)) \<or> (\<exists>pc m'' pc'. a' t = Some pc \<and> alloc_step heap_size m' pc m'' pc'))"
  using assms(1) main_heap.wait_free [of m a t l n m' a'] unwinding_heap.wait_free [of m a t l n m' a'] assms(2-)
  by blast

theorem bump_alloc_wait_free_witness:
  "\<exists>a a'. alloc_during heap_size_main True (bump_new, a) 5 (contended, a') \<and>
     (5 :: nat) \<le> 2 * min (length (given contended)) (unat heap_size_main) + 3"
proof -
  obtain a' where d: "alloc_during heap_size_main True
      (bump_new, \<lambda>b. if b then Some (AlLoad small_block) else None) 5 (contended, a')"
    using contended_run(2) by auto
  have "heap_size_main \<in> {heap_size_main, heap_size_unwinding}" by simp
  from bump_alloc_wait_free [OF this contended_run(1) _ d] have
    "(5 :: nat) \<le> 2 * min (length (given contended)) (unat heap_size_main) + 3" by simp
  with d show ?thesis by blast
qed

text \<open>The unchecked additions of the rounding, \<open>cur + layout.align() - 1\<close>, never overflow, so they
  neither panic in a debug build nor wrap in a release build.\<close>

lemma bump_no_overflow:
  assumes "heap_size \<in> {heap_size_main, heap_size_unwinding}" and "alloc_reach heap_size (m, a)"
    and "a t = Some (AlTry l cur)"
  shows "unat cur + unat (layout_align l) < 2 ^ 64"
  using assms main_heap.no_overflow [of m a t l cur] unwinding_heap.no_overflow [of m a t l cur] by auto

lemma bump_no_overflow_witness: "unat (24 :: usize) + unat (layout_align huge_block) < 2 ^ 64"
proof -
  have "heap_size_main \<in> {heap_size_main, heap_size_unwinding}" by simp
  from bump_no_overflow [OF this stale_reach, of "()"] show ?thesis by simp
qed

text \<open>C28: the returned pointers are aligned as requested for alignments up to 16, the alignment of the heap.\<close>

theorem bump_pointer_aligned:
  assumes "heap_size \<in> {heap_size_main, heap_size_unwinding}" and "alloc_reach heap_size (m, a)"
    and "(x, l) \<in> set (given m)" and "unat (layout_align l) dvd 16"
    and "16 dvd unat base" and "unat base + unat heap_size < 2 ^ 64"
  shows "unat (layout_align l) dvd unat (block_ptr base x)"
proof -
  have x: "unat x + unat (layout_size l) \<le> unat heap_size" "unat (layout_align l) dvd unat x"
    using assms(1-3) main_heap.blocks_separate(2) [of m a x l] unwinding_heap.blocks_separate(2) [of m a x l] by auto
  have "unat (block_ptr base x) = unat base + unat x"
    unfolding block_ptr_def using x(1) assms(6) by (intro unat_add_no_wrap) linarith
  moreover have "unat (layout_align l) dvd unat base" using assms(4,5) by (rule dvd_trans)
  ultimately show ?thesis using x(2) by (simp add: dvd_add)
qed

theorem bump_pointer_aligned_witness: "8 dvd unat (block_ptr 0x40010010 0)"
proof -
  have "heap_size_main \<in> {heap_size_main, heap_size_unwinding}" by simp
  from bump_pointer_aligned [OF this two_blocks_reach, where x = 0 and l = small_block and base = "0x40010010"] show ?thesis
    by (simp add: two_blocks_def small_block_def heap_size_main_def)
qed

text \<open>C29: but not beyond: for a layout with a larger alignment the allocator rounds the offset, not the address,
  so with a heap at an address that is only a multiple of 16 the very first block is misaligned.\<close>

theorem bump_pointer_misaligned:
  "\<exists>base x. 16 dvd unat base \<and> unat base + unat heap_size_main < 2 ^ 64 \<and> layout_ok wide_block \<and>
     snd (alloc_seq heap_size_main wide_block bump_new) = Some x \<and>
     \<not> unat (layout_align wide_block) dvd unat (block_ptr base x)"
proof (intro exI conjI)
  show "snd (alloc_seq heap_size_main wide_block bump_new) = Some 0"
    by (simp add: alloc_seq_def candidate_def checked_add_def align_up_def bump_new_def
        wide_block_def heap_size_main_def)
  show "16 dvd unat (0x40010010 :: usize)" by simp
  show "unat (0x40010010 :: usize) + unat heap_size_main < 2 ^ 64" by (simp add: heap_size_main_def)
  show "\<not> unat (layout_align wide_block) dvd unat (block_ptr 0x40010010 0)"
    by (simp add: block_ptr_def wide_block_def)
qed (rule blocks_ok)

end
