(* ===== verification/UnwindTexts.thy ===== *)
theory UnwindTexts
  imports Prelude
begin

text \<open>
  The strings that \<^verbatim>\<open>aarch64-baremetal-unwind/src/main.rs\<close> prints, as the UTF-8 bytes of the source's
  literals (several are Chinese or draw a box, hence the numerals).
\<close>

definition ascii :: "string \<Rightarrow> u8 list" where
  "ascii s = map of_char s"

text \<open>Fifty horizontal double lines.\<close>

definition bar :: "u8 list" where
  "bar = concat (replicate 50 [226, 149, 144])"

definition txt_oom :: "u8 list" where
  "txt_oom = ascii ''[FATAL] out of memory'' @ [10]"

definition txt_frame :: "u8 list" where
  "txt_frame = ascii ''  #''"

definition txt_backtrace :: "u8 list" where
  "txt_backtrace = ascii ''stack backtrace:'' @ [10]"

definition txt_panic_at :: "u8 list" where
  "txt_panic_at = [10] @ ascii ''[panic_handler] panic at ''"

definition txt_calling :: "u8 list" where
  "txt_calling = ascii ''[panic_handler] calling start_unwind_entry()...'' @ [10, 10]"

definition txt_initiating :: "u8 list" where
  "txt_initiating = ascii ''[start_unwind_entry] initiating .eh_frame walk...'' @ [10]"

definition txt_unreachable :: "u8 list" where
  "txt_unreachable = ascii ''[start_unwind_entry] UNREACHABLE: no landing pad found, halting'' @
     [10]"

definition txt_registering :: "u8 list" where
  "txt_registering = ascii ''[task_run] OS: registering landing pad and starting task...'' @
     [10, 10]"

definition txt_normal :: "u8 list" where
  "txt_normal = [10] @ ascii ''[task_run] task completed normally'' @ [10]"

definition txt_landed :: "u8 list" where
  "txt_landed = [10] @ ascii ''[task_run] OS: unwind landed here! task panicked but recovered.'' @
     [10]"

definition txt_dropped :: "u8 list" where
  "txt_dropped = ascii ''[task_run] all resources in task have been dropped.'' @ [10]"

definition txt_hook :: "u8 list" where
  "txt_hook = ascii ''[task_run] custom resume_unwind hook count = ''"

definition txt_drop :: "u8 list" where
  "txt_drop = ascii ''  [Drop] ''"

definition txt_drop_end :: "u8 list" where
  "txt_drop_end = ascii ''  '' @ [226, 134, 144] @ ascii '' unwind '' @
     [232, 167, 166, 229, 143, 145] @ ascii '' Drop'' @ [10]"

definition txt_c :: "u8 list" where
  "txt_c = ascii ''C::file_handle''"

definition txt_level_c :: "u8 list" where
  "txt_level_c = ascii ''  [level_c] '' @ [232, 167, 166, 229, 143, 145] @ ascii '' panic!'' @ [10]"

definition txt_b :: "u8 list" where
  "txt_b = ascii ''B::connection''"

definition txt_a1 :: "u8 list" where
  "txt_a1 = ascii ''A::mutex_guard''"

definition txt_a2 :: "u8 list" where
  "txt_a2 = ascii ''A::vec_data''"

definition txt_level_a :: "u8 list" where
  "txt_level_a = ascii ''  [level_a] '' @
     [229, 188, 128, 229, 167, 139, 230, 137, 167, 232, 161, 140, 239, 188, 140, 229, 136, 134,
        233, 133, 141, 232, 181, 132, 230, 186, 144] @
     ascii ''...'' @ [10]"

definition txt_level_a_end :: "u8 list" where
  "txt_level_a_end = ascii ''  [level_a] '' @
     [232, 191, 153, 232, 161, 140, 228, 184, 141, 229, 186, 148, 232, 175, 165, 232, 162, 171,
        230, 137, 167, 232, 161, 140, 10]"

definition txt_main_continues :: "u8 list" where
  "txt_main_continues = [10] @ ascii ''[main] task_run '' @
     [232, 191, 148, 229, 155, 158, 239, 188, 140] @ ascii ''main '' @
     [231, 187, 167, 231, 187, 173, 232, 191, 144, 232, 161, 140, 239, 188, 140, 231, 179, 187,
        231, 187, 159, 230, 156, 170, 229, 180, 169, 230, 186, 131, 227, 128, 130, 10]"

definition txt_main_done :: "u8 list" where
  "txt_main_done = ascii ''[main] done.'' @ [10]"

definition txt_banner :: "u8 list list" where
  "txt_banner =
    [[226, 149, 148] @ bar @ [226, 149, 151, 10],
     [226, 149, 145] @ ascii ''  AArch64 bare-metal Hopter '' @ [233, 163, 142, 230, 160, 188] @
      ascii '' unwind '' @ [230, 188, 148, 231, 164, 186] @ ascii ''       '' @
      [226, 149, 145, 10],
     [226, 149, 160] @ bar @ [226, 149, 163, 10],
     [226, 149, 145] @ ascii ''  panic!() '' @ [226, 134, 146] @ ascii '' panic_handler '' @
      [226, 134, 146] @ ascii '' start_unwind_entry  '' @ [226, 149, 145, 10],
     [226, 149, 145] @ ascii ''  '' @ [226, 134, 146] @ ascii '' begin_panic '' @ [226, 134, 146] @
      ascii '' .eh_frame '' @ [232, 181, 176, 229, 184, 167] @ ascii '' '' @ [226, 134, 146] @
      ascii '' Drop           '' @ [226, 149, 145, 10],
     [226, 149, 145] @ ascii ''  '' @ [226, 134, 146] @ ascii '' task_run landing pad '' @
      [226, 134, 146] @ ascii '' '' @
      [230, 129, 162, 229, 164, 141, 230, 137, 167, 232, 161, 140, 230, 181, 129] @
      ascii ''              '' @ [226, 149, 145, 10],
     [226, 149, 154] @ bar @ [226, 149, 157, 10, 10]]"

end
