(* ===== verification/Uart.thy ===== *)
theory Uart
  imports Prelude
begin

unbundle bit_operations_syntax

text \<open>
  The console output of the bare-metal demo (\<^verbatim>\<open>aarch64-baremetal-unwind/src/main.rs\<close>): a call is the
  list of bytes it stores to the PL011 data register. Writing or slicing the digit buffer out of its
  bounds panics in the source and is \<open>None\<close> here.
\<close>

section \<open>The code\<close>

text \<open>\<open>uart_byte\<close> is the single store.\<close>

definition uart_byte :: "u8 \<Rightarrow> u8 list" where
  "uart_byte b = [b]"

text \<open>\<open>uart_print\<close>: a carriage return before every line feed.\<close>

fun uart_print :: "u8 list \<Rightarrow> u8 list" where
  "uart_print [] = []"
| "uart_print (b # bs) = (if b = 10 then uart_byte 13 else []) @ uart_byte b @ uart_print bs"

text \<open>Both conversion loops shrink the number.\<close>

lemma unat_shift: "unat (drop_bit 4 (v :: usize)) = unat v div 16"
  by (simp add: unat_drop_bit_eq drop_bit_nat_def)

lemma unat_shift_less: "0 < (v :: usize) \<Longrightarrow> unat (drop_bit 4 v) < unat v"
  by (simp add: unat_shift unat_gt_0 word_gt_0)

lemma unat_div_less: "0 < (v :: usize) \<Longrightarrow> unat (v div 10) < unat v"
  by (simp add: unat_div unat_gt_0 word_gt_0)

text \<open>The loop of \<open>uart_hex\<close>: \<open>i\<close> is the index of the first digit written so far.\<close>

function hex_loop :: "usize \<Rightarrow> nat \<Rightarrow> u8 list \<Rightarrow> (nat \<times> u8 list) option" where
  "hex_loop v i buf =
     (if v > 0 then
        (if i = 0 \<or> length buf < i then None
         else let d = ucast (v AND 0xf) :: u8
              in hex_loop (drop_bit 4 v) (i - 1) (buf[i - 1 := if d < 10 then 48 + d else 97 + d - 10]))
      else Some (i, buf))"
  by pat_completeness auto
termination
  by (relation "measure (\<lambda>(v, _). unat v)") (simp_all add: unat_shift_less)

definition uart_hex :: "usize \<Rightarrow> u8 list option" where
  "uart_hex v =
     (if v = 0 then Some (uart_print [48, 120] @ uart_byte 48)
      else map_option (\<lambda>(i, buf). uart_print [48, 120] @ concat (map uart_byte (drop i buf)))
             (hex_loop v 16 (replicate 16 0)))"

text \<open>The loop of \<open>uart_usize\<close>.\<close>

function dec_loop :: "usize \<Rightarrow> nat \<Rightarrow> u8 list \<Rightarrow> (nat \<times> u8 list) option" where
  "dec_loop v i buf =
     (if v > 0 then
        (if i = 0 \<or> length buf < i then None
         else dec_loop (v div 10) (i - 1) (buf[i - 1 := 48 + ucast (v mod 10)]))
      else Some (i, buf))"
  by pat_completeness auto
termination
  by (relation "measure (\<lambda>(v, _). unat v)") (simp_all add: unat_div_less)

definition uart_usize :: "usize \<Rightarrow> u8 list option" where
  "uart_usize v =
     (if v = 0 then Some (uart_byte 48)
      else map_option (\<lambda>(i, buf). concat (map uart_byte (drop i buf))) (dec_loop v 20 (replicate 20 0)))"

declare hex_loop.simps [simp del] dec_loop.simps [simp del]

section \<open>Digits\<close>

text \<open>The digits of a number, most significant first; none for zero.\<close>

fun digits :: "nat \<Rightarrow> nat \<Rightarrow> nat list" where
  "digits b n = (if n = 0 \<or> b < 2 then [] else digits b (n div b) @ [n mod b])"

declare digits.simps [simp del]

fun value_of :: "nat \<Rightarrow> nat list \<Rightarrow> nat" where
  "value_of b ds = foldl (\<lambda>acc d. acc * b + d) 0 ds"

lemma digits_zero [simp]: "digits b 0 = []"
  by (simp add: digits.simps)

lemma digits_step: "2 \<le> b \<Longrightarrow> 0 < n \<Longrightarrow> digits b n = digits b (n div b) @ [n mod b]"
  by (subst digits.simps) simp

lemma value_of_digits: "2 \<le> b \<Longrightarrow> value_of b (digits b n) = n"
proof (induction b n rule: digits.induct)
  case (1 b n)
  then show ?case by (cases "n = 0") (auto simp: digits_step)
qed

lemma digits_less: "2 \<le> b \<Longrightarrow> d \<in> set (digits b n) \<Longrightarrow> d < b"
proof (induction b n rule: digits.induct)
  case (1 b n)
  then show ?case by (cases "n = 0") (auto simp: digits_step)
qed

lemma digits_length: "2 \<le> b \<Longrightarrow> n < b ^ k \<Longrightarrow> length (digits b n) \<le> k"
proof (induction k arbitrary: n)
  case (Suc k)
  then have "n div b < b ^ k" by (simp add: div_less_iff_less_mult mult.commute)
  with Suc show ?case by (cases "n = 0") (auto simp: digits_step)
qed simp

lemma digits_hd: "2 \<le> b \<Longrightarrow> 0 < n \<Longrightarrow> digits b n \<noteq> [] \<and> hd (digits b n) \<noteq> 0"
proof (induction b n rule: digits.induct)
  case (1 b n)
  show ?case
  proof (cases "n div b = 0")
    case True
    then show ?thesis using 1 digits_step [of b n] by (auto simp: div_eq_0_iff)
  next
    case False
    then have "digits b (n div b) \<noteq> [] \<and> hd (digits b (n div b)) \<noteq> 0" using 1 by simp
    then show ?thesis using 1 digits_step [of b n] by simp
  qed
qed

section \<open>The loops write the digits at the end of the buffer\<close>

definition hex_char :: "nat \<Rightarrow> u8" where
  "hex_char d = (if d < 10 then 48 + of_nat d else 87 + of_nat d)"

definition dec_char :: "nat \<Rightarrow> u8" where
  "dec_char d = 48 + of_nat d"

lemma buf_write:
  assumes "Suc (length cs) \<le> i" and "i \<le> length buf"
  shows "take (i - Suc (length cs)) (buf[i - 1 := c]) @ cs @ drop (i - 1) (buf[i - 1 := c]) =
    take (i - Suc (length cs)) buf @ (cs @ [c]) @ drop i buf"
proof -
  have "drop (i - 1) (buf[i - 1 := c]) = c # drop i buf"
    using assms by (simp add: Cons_nth_drop_Suc [symmetric])
  then show ?thesis using assms by simp
qed

lemma hex_digit: "(let d = ucast (v AND 0xf) :: u8 in if d < 10 then 48 + d else 97 + d - 10) =
    hex_char (unat (v :: usize) mod 16)"
proof -
  have m: "unat (v AND 0xf) = unat v mod 16"
  proof -
    have "(0xf :: usize) = mask 4" by (simp add: mask_eq_exp_minus_1)
    then show ?thesis
      by (simp only: take_bit_eq_mask [symmetric] unsigned_take_bit_eq) (simp add: take_bit_eq_mod)
  qed
  have u: "(ucast (v AND 0xf) :: u8) = of_nat (unat v mod 16)"
    unfolding m [symmetric] by (simp only: of_nat_unat)
  have "unat v mod 16 < 16" by simp
  then have "unat (of_nat (unat v mod 16) :: u8) = unat v mod 16"
    by (simp only: unat_of_nat len_of_numeral_defs) simp
  then have "(of_nat (unat v mod 16) :: u8) < 10 \<longleftrightarrow> unat v mod 16 < 10"
    by (simp add: word_less_nat_alt)
  then show ?thesis by (simp add: u hex_char_def Let_def)
qed

lemma dec_digit: "48 + ucast (v mod 10) = dec_char (unat (v :: usize) mod 10)"
proof -
  have "(ucast (v mod 10) :: u8) = of_nat (unat (v mod 10))" by (simp only: of_nat_unat)
  then show ?thesis by (simp add: dec_char_def unat_mod)
qed

lemma hex_loop_digits:
  "length (digits 16 (unat v)) \<le> i \<Longrightarrow> i \<le> length buf \<Longrightarrow>
   hex_loop v i buf = Some (i - length (digits 16 (unat v)),
     take (i - length (digits 16 (unat v))) buf @ map hex_char (digits 16 (unat v)) @ drop i buf)"
proof (induction v i buf rule: hex_loop.induct)
  case (1 v i buf)
  show ?case
  proof (cases "v = 0")
    case True
    then show ?thesis using 1 by (simp add: hex_loop.simps)
  next
    case False
    then have pos: "0 < v" "0 < unat v" by (simp_all add: word_gt_0 unat_gt_0)
    let ?c = "hex_char (unat v mod 16)"
    let ?ds = "digits 16 (unat v div 16)"
    have d: "digits 16 (unat v) = ?ds @ [unat v mod 16]" using pos by (simp add: digits_step)
    have i: "\<not> (i = 0 \<or> length buf < i)" "Suc (length ?ds) \<le> i" "i \<le> length buf" using 1 d by auto
    have "hex_loop (drop_bit 4 v) (i - 1) (buf[i - 1 := ?c]) =
        Some (i - 1 - length ?ds,
          take (i - 1 - length ?ds) (buf[i - 1 := ?c]) @ map hex_char ?ds @ drop (i - 1) (buf[i - 1 := ?c]))"
      using 1(1) [OF pos(1) i(1) refl] i unfolding hex_digit [of v, unfolded Let_def] unat_shift by simp
    moreover have "hex_loop v i buf = hex_loop (drop_bit 4 v) (i - 1) (buf[i - 1 := ?c])"
      using pos i(1) hex_digit [of v] by (subst hex_loop.simps) (simp add: Let_def)
    moreover note buf_write [of "map hex_char ?ds" i buf ?c]
    ultimately show ?thesis using i by (simp add: d)
  qed
qed

lemma dec_loop_digits:
  "length (digits 10 (unat v)) \<le> i \<Longrightarrow> i \<le> length buf \<Longrightarrow>
   dec_loop v i buf = Some (i - length (digits 10 (unat v)),
     take (i - length (digits 10 (unat v))) buf @ map dec_char (digits 10 (unat v)) @ drop i buf)"
proof (induction v i buf rule: dec_loop.induct)
  case (1 v i buf)
  show ?case
  proof (cases "v = 0")
    case True
    then show ?thesis using 1 by (simp add: dec_loop.simps)
  next
    case False
    then have pos: "0 < v" "0 < unat v" by (simp_all add: word_gt_0 unat_gt_0)
    let ?c = "dec_char (unat v mod 10)"
    let ?ds = "digits 10 (unat v div 10)"
    have d: "digits 10 (unat v) = ?ds @ [unat v mod 10]" using pos by (simp add: digits_step)
    have i: "\<not> (i = 0 \<or> length buf < i)" "Suc (length ?ds) \<le> i" "i \<le> length buf" using 1 d by auto
    have "dec_loop (v div 10) (i - 1) (buf[i - 1 := ?c]) =
        Some (i - 1 - length ?ds,
          take (i - 1 - length ?ds) (buf[i - 1 := ?c]) @ map dec_char ?ds @ drop (i - 1) (buf[i - 1 := ?c]))"
      using 1(1) [OF pos(1) i(1)] i unfolding dec_digit by (simp add: unat_div)
    moreover have "dec_loop v i buf = dec_loop (v div 10) (i - 1) (buf[i - 1 := ?c])"
      using pos i(1) by (subst dec_loop.simps) (simp add: dec_digit)
    moreover note buf_write [of "map dec_char ?ds" i buf ?c]
    ultimately show ?thesis using i by (simp add: d)
  qed
qed

section \<open>What the two functions print\<close>

lemma concat_bytes: "concat (map uart_byte bs) = bs"
  by (induction bs) (simp_all add: uart_byte_def)

lemma uart_hex_prints:
  "uart_hex v = Some ([48, 120] @ (if v = 0 then [48] else map hex_char (digits 16 (unat v))))"
proof -
  have "unat v < 16 ^ 16" using unsigned_less [of v, where 'a = nat] by simp
  then have "length (digits 16 (unat v)) \<le> 16" by (intro digits_length) simp_all
  then show ?thesis by (simp add: uart_hex_def hex_loop_digits concat_bytes uart_byte_def)
qed

lemma uart_usize_prints:
  "uart_usize v = Some (if v = 0 then [48] else map dec_char (digits 10 (unat v)))"
proof -
  have "unat v < 10 ^ 20" using unsigned_less [of v, where 'a = nat] by simp
  then have "length (digits 10 (unat v)) \<le> 20" by (intro digits_length) simp_all
  then show ?thesis by (simp add: uart_usize_def dec_loop_digits concat_bytes uart_byte_def)
qed

section \<open>Reading the output back\<close>

lemma unat_of_small_nat: "n < 256 \<Longrightarrow> unat (of_nat n :: u8) = n"
  by (simp only: unat_of_nat len_of_numeral_defs) simp

lemma dec_char_unat:
  assumes "d < 10"
  shows "unat (dec_char d) = 48 + d"
proof -
  have "dec_char d = of_nat (48 + d)" by (simp add: dec_char_def)
  then show ?thesis using assms by (simp only: unat_of_small_nat)
qed

lemma hex_char_unat:
  assumes "d < 16"
  shows "unat (hex_char d) = (if d < 10 then 48 + d else 87 + d)"
proof -
  have "hex_char d = of_nat (if d < 10 then 48 + d else 87 + d)" by (simp add: hex_char_def)
  moreover have "(if d < 10 then 48 + d else 87 + d) < 256" using assms by simp
  ultimately show ?thesis by (simp only: unat_of_small_nat)
qed

lemma hex_char_reads:
  assumes "d < 16"
  shows "(if hex_char d \<le> 57 then unat (hex_char d) - 48 else unat (hex_char d) - 87) = d"
  using hex_char_unat [OF assms] by (simp add: word_le_nat_alt split: if_splits)

lemma hex_char_range:
  assumes "d < 16"
  shows "(48 \<le> hex_char d \<and> hex_char d \<le> 57) \<or> (97 \<le> hex_char d \<and> hex_char d \<le> 102)"
  using hex_char_unat [OF assms] assms by (simp add: word_le_nat_alt split: if_splits)

fun strip_cr :: "u8 list \<Rightarrow> u8 list" where
  "strip_cr [] = []"
| "strip_cr [b] = [b]"
| "strip_cr (b # c # bs) = (if b = 13 \<and> c = 10 then 10 # strip_cr bs else b # strip_cr (c # bs))"

lemma strip_cr_Cons: "bs = [] \<or> \<not> (b = 13 \<and> hd bs = 10) \<Longrightarrow> strip_cr (b # bs) = b # strip_cr bs"
  by (cases bs) auto

lemma hd_print: "uart_print t \<noteq> [] \<Longrightarrow> hd (uart_print t) \<noteq> 10"
  by (cases t) (auto simp: uart_byte_def)

lemma strip_cr_print: "strip_cr (uart_print t) = t"
proof (induction t)
  case (Cons b t)
  show ?case
  proof (cases "b = 10")
    case True
    with Cons show ?thesis by (simp add: uart_byte_def)
  next
    case False
    then have "uart_print (b # t) = b # uart_print t" by (simp add: uart_byte_def)
    moreover have "strip_cr (b # uart_print t) = b # strip_cr (uart_print t)"
      using hd_print [of t] by (intro strip_cr_Cons) blast
    ultimately show ?thesis using Cons by (simp only:)
  qed
qed simp

lemma print_lf:
  "i < length (uart_print t) \<Longrightarrow> uart_print t ! i = 10 \<Longrightarrow> 0 < i \<and> uart_print t ! (i - 1) = 13"
proof (induction t arbitrary: i)
  case (Cons b t)
  let ?n = "if b = 10 then 2 else (1 :: nat)"
  show ?case
  proof (cases "i < ?n")
    case True
    then consider "b = 10" "i = 0" | "b = 10" "i = 1" | "b \<noteq> 10" "i = 0"
      by (auto simp: less_2_cases_iff split: if_splits)
    then show ?thesis using Cons.prems by cases (simp_all add: uart_byte_def)
  next
    case False
    have sh: "uart_print (b # t) ! (?n + j) = uart_print t ! j" for j by (simp add: uart_byte_def)
    obtain j where j: "i = ?n + j" using False by (metis le_iff_add not_less)
    have "j < length (uart_print t)" "uart_print t ! j = 10"
      using Cons.prems sh [of j] unfolding j by (auto simp: uart_byte_def split: if_splits)
    then have k: "0 < j" "uart_print t ! (j - 1) = 13" using Cons.IH by blast+
    then have "i - 1 = ?n + (j - 1)" unfolding j by simp
    with sh [of "j - 1"] k show ?thesis unfolding j by simp
  qed
qed simp

end
