(* ===== verification/Unwind.thy ===== *)
theory Unwind
  imports UnwindTexts Uart
begin

text \<open>
  \<^verbatim>\<open>aarch64-baremetal-unwind/src/main.rs\<close>: a task that panics three calls deep, the panic handler, the
  walk over the frames that runs the destructors, and \<open>task_run\<close>, which recovers.
  The unwinder is the external crate \<open>unwinding\<close>; it is a parameter \<open>u\<close> of the definitions, and
  \<open>unwinder_ok\<close> states the documented behaviour that the program relies on.
\<close>

section \<open>Control flow of a panicking program\<close>

text \<open>
  A call returns, leaves by unwinding, or never comes back (the program spins for ever). The
  processor's state is what the program can see (\<open>mem\<close>) and how many \<open>catch_unwind\<close> frames are on the
  stack, which decides whether the unwinder finds a landing pad.
\<close>

datatype 'a outcome = Ret 'a | Unwinding | Halt

record 'm cpu =
  mem :: 'm
  handlers :: nat

type_synonym ('m, 'a) run = "'m cpu \<Rightarrow> 'm cpu \<times> 'a outcome"

definition ret :: "'a \<Rightarrow> ('m, 'a) run" where
  "ret x m = (m, Ret x)"

definition halt :: "('m, 'a) run" where
  "halt m = (m, Halt)"

definition and_then :: "('m, 'a) run \<Rightarrow> ('a \<Rightarrow> ('m, 'b) run) \<Rightarrow> ('m, 'b) run" where
  "and_then f g m = (case f m of (m', Ret x) \<Rightarrow> g x m' | (m', Unwinding) \<Rightarrow> (m', Unwinding) | (m', Halt) \<Rightarrow> (m', Halt))"

fun steps :: "('m, unit) run list \<Rightarrow> ('m, unit) run" where
  "steps [] = ret ()"
| "steps (f # fs) = and_then f (\<lambda>_. steps fs)"

text \<open>
  A function body with local variables that have destructors. They are dropped in reverse order
  of declaration: on the way out of a normal return, or in the frame's cleanup pad, which ends with
  a call to \<open>_Unwind_Resume\<close>; a destructor that panics during cleanup aborts. A frame with nothing to drop has
  no cleanup pad: the unwinding passes it by.
\<close>

definition with_locals :: "('m, unit) run \<Rightarrow> ('m, unit) run list \<Rightarrow> ('m, unit) run \<Rightarrow> ('m, unit) run" where
  "with_locals resume drops body m =
     (case body m of
        (m', Ret x) \<Rightarrow> and_then (steps (rev drops)) (\<lambda>_. ret x) m'
      | (m', Unwinding) \<Rightarrow>
          if drops = [] then (m', Unwinding)
          else (case steps (rev drops) m' of
             (m'', Ret _) \<Rightarrow> and_then resume (\<lambda>_. halt) m''
           | (m'', _) \<Rightarrow> (m'', Halt))
      | (m', Halt) \<Rightarrow> (m', Halt))"

section \<open>The unwinder\<close>

text \<open>
  \<open>begin_panic\<close> returns a reason code if it cannot unwind; \<open>resume_unwind\<close> is
  \<open>__real__Unwind_Resume\<close>; \<open>catch_unwind f\<close> returns whether \<open>f\<close> completed.
\<close>

record 'm unwinder =
  begin_panic :: "('m, 32 word) run"
  resume_unwind :: "('m, unit) run"
  catch_unwind :: "('m, unit) run \<Rightarrow> ('m, bool) run"

text \<open>
  Documented behaviour. \<open>vis\<close> is the part of the memory that belongs to the program: the unwinder
  leaves it alone. Raising finds a landing pad exactly if a \<open>catch_unwind\<close> frame is on the stack;
  resuming continues the walk; catching stops it.
\<close>

definition quiet :: "('m \<Rightarrow> 'v) \<Rightarrow> 'm cpu \<Rightarrow> 'm cpu \<Rightarrow> bool" where
  "quiet vis m m' \<longleftrightarrow> vis (mem m') = vis (mem m) \<and> handlers m' = handlers m"

definition caught :: "unit outcome \<Rightarrow> bool outcome" where
  "caught x = (case x of Ret _ \<Rightarrow> Ret True | Unwinding \<Rightarrow> Ret False | Halt \<Rightarrow> Halt)"

definition unwinder_ok :: "('m \<Rightarrow> 'v) \<Rightarrow> 'm unwinder \<Rightarrow> bool" where
  "unwinder_ok vis u \<longleftrightarrow>
     (\<forall>m. \<exists>m' x. begin_panic u m = (m', x) \<and> quiet vis m m' \<and>
        (if 0 < handlers m then x = Unwinding else \<exists>code. x = Ret code)) \<and>
     (\<forall>m. \<exists>m'. resume_unwind u m = (m', Unwinding) \<and> quiet vis m m') \<and>
     (\<forall>f m. \<exists>m1 x m2. f (m\<lparr>handlers := handlers m + 1\<rparr>) = (m1, x) \<and> catch_unwind u f m = (m2, caught x) \<and>
        vis (mem m2) = vis (mem m1) \<and> handlers m2 = handlers m)"

text \<open>An unwinder with this behaviour, for concrete runs.\<close>

definition plain_unwinder :: "'m unwinder" where
  "plain_unwinder =
     \<lparr>begin_panic = (\<lambda>m. (m, if 0 < handlers m then Unwinding else Ret 5)),
      resume_unwind = (\<lambda>m. (m, Unwinding)),
      catch_unwind = (\<lambda>f m. case f (m\<lparr>handlers := handlers m + 1\<rparr>) of (m1, x) \<Rightarrow>
        (m1\<lparr>handlers := handlers m\<rparr>, caught x))\<rparr>"

lemma plain_unwinder_ok: "unwinder_ok vis plain_unwinder"
  by (auto simp: unwinder_ok_def plain_unwinder_def quiet_def split: prod.splits)

section \<open>The program\<close>

record machine =
  console :: "u8 list"
  resume_count :: usize

definition emit :: "u8 list \<Rightarrow> (machine, unit) run" where
  "emit bs m = (m\<lparr>mem := (mem m)\<lparr>console := console (mem m) @ bs\<rparr>\<rparr>, Ret ())"

definition say :: "u8 list \<Rightarrow> (machine, unit) run" where
  "say t = emit (uart_print t)"

definition say_usize :: "usize \<Rightarrow> (machine, unit) run" where
  "say_usize v = (case uart_usize v of Some bs \<Rightarrow> emit bs | None \<Rightarrow> halt)"

definition say_hex :: "usize \<Rightarrow> (machine, unit) run" where
  "say_hex v = (case uart_hex v of Some bs \<Rightarrow> emit bs | None \<Rightarrow> halt)"

text \<open>\<open>__wrap__Unwind_Resume\<close>.\<close>

definition wrap_unwind_resume :: "machine unwinder \<Rightarrow> (machine, unit) run" where
  "wrap_unwind_resume u =
     and_then (\<lambda>m. (m\<lparr>mem := (mem m)\<lparr>resume_count := resume_count (mem m) + 1\<rparr>\<rparr>, Ret ()))
       (\<lambda>_. resume_unwind u)"

definition oom :: "(machine, unit) run" where
  "oom = steps [say txt_oom, halt]"

text \<open>The callback prints one frame and counts it; \<open>_Unwind_Backtrace\<close> calls it for each frame's \<open>ip\<close>.\<close>

definition backtrace_cb :: "usize \<Rightarrow> usize \<Rightarrow> (machine, unit) run" where
  "backtrace_cb n ip =
     steps [say txt_frame, say_usize n, say (ascii ''  ''), say_hex ip, say [10]]"

fun backtrace_from :: "usize \<Rightarrow> usize list \<Rightarrow> (machine, unit) run" where
  "backtrace_from n [] = ret ()"
| "backtrace_from n (ip # ips) = and_then (backtrace_cb n ip) (\<lambda>_. backtrace_from (n + 1) ips)"

definition print_backtrace :: "usize list \<Rightarrow> (machine, unit) run" where
  "print_backtrace ips = and_then (say txt_backtrace) (\<lambda>_. backtrace_from 0 ips)"

definition start_unwind_entry :: "machine unwinder \<Rightarrow> (machine, unit) run" where
  "start_unwind_entry u =
     and_then (say txt_initiating) (\<lambda>_.
     and_then (begin_panic u) (\<lambda>_.
     steps [say txt_unreachable, halt]))"

text \<open>The location that the compiler puts into \<open>PanicInfo\<close>: file and line, if any.\<close>

type_synonym location = "(u8 list \<times> 32 word) option"

definition panic_handler :: "machine unwinder \<Rightarrow> location \<Rightarrow> (machine, unit) run" where
  "panic_handler u loc =
     steps ([say txt_panic_at] @
       (case loc of None \<Rightarrow> [] | Some (file, line) \<Rightarrow> [say file, say (ascii '':''), say_usize (ucast line)]) @
       [say [10], say txt_calling, start_unwind_entry u])"

definition resource_drop :: "u8 list \<Rightarrow> (machine, unit) run" where
  "resource_drop name = steps [say txt_drop, say name, say txt_drop_end]"

definition level_c :: "machine unwinder \<Rightarrow> location \<Rightarrow> (machine, unit) run" where
  "level_c u loc =
     with_locals (wrap_unwind_resume u) [resource_drop txt_c]
       (steps [say txt_level_c, panic_handler u loc])"

definition level_b :: "machine unwinder \<Rightarrow> location \<Rightarrow> (machine, unit) run" where
  "level_b u loc = with_locals (wrap_unwind_resume u) [resource_drop txt_b] (level_c u loc)"

definition level_a :: "machine unwinder \<Rightarrow> location \<Rightarrow> (machine, unit) run" where
  "level_a u loc =
     with_locals (wrap_unwind_resume u) [resource_drop txt_a1, resource_drop txt_a2]
       (steps [say txt_level_a, level_b u loc, say txt_level_a_end])"

definition task_run :: "machine unwinder \<Rightarrow> (machine, unit) run \<Rightarrow> (machine, unit) run" where
  "task_run u task =
     and_then (say txt_registering) (\<lambda>_.
     and_then (catch_unwind u task) (\<lambda>completed.
       if completed then say txt_normal
       else steps [say txt_landed, say txt_dropped, say txt_hook,
              (\<lambda>m. say_usize (resume_count (mem m)) m), say [10]]))"

definition main :: "machine unwinder \<Rightarrow> location \<Rightarrow> (machine, unit) run" where
  "main u loc =
     steps (map say txt_banner @
       [task_run u (level_a u loc), say txt_main_continues, say txt_main_done, halt])"

definition boot :: "machine cpu" where
  "boot = \<lparr>mem = \<lparr>console = [], resume_count = 0\<rparr>, handlers = 0\<rparr>"

section \<open>How the pieces run\<close>

named_theorems run_simps \<open>equations that execute the program\<close>

lemma and_then_cases [run_simps]:
  "f m = (m', Ret x) \<Longrightarrow> and_then f g m = g x m'"
  "f m = (m', Unwinding) \<Longrightarrow> and_then f g m = (m', Unwinding)"
  "f m = (m', Halt) \<Longrightarrow> and_then f g m = (m', Halt)"
  by (simp_all add: and_then_def)

lemma say_usize_emits: "say_usize v = emit (the (uart_usize v))"
  by (simp add: say_usize_def uart_usize_prints)

lemma say_hex_emits: "say_hex v = emit (the (uart_hex v))"
  by (simp add: say_hex_def uart_hex_prints)

text \<open>The two effects on the machine, and a piece of code that only prints.\<close>

definition put :: "u8 list \<Rightarrow> machine cpu \<Rightarrow> machine cpu" where
  "put bs m = m\<lparr>mem := (mem m)\<lparr>console := console (mem m) @ bs\<rparr>\<rparr>"

definition resumed :: "nat \<Rightarrow> machine cpu \<Rightarrow> machine cpu" where
  "resumed n m = m\<lparr>mem := (mem m)\<lparr>resume_count := resume_count (mem m) + of_nat n\<rparr>\<rparr>"

lemma put_simps [simp]:
  "put bs (put as m) = put (as @ bs) m"
  "put [] m = m"
  "resumed k (resumed n m) = resumed (n + k) m"
  "resumed n (put bs m) = put bs (resumed n m)"
  "resumed 0 m = m"
  "handlers (put bs m) = handlers m"
  "handlers (resumed n m) = handlers m"
  "console (mem (put bs m)) = console (mem m) @ bs"
  "console (mem (resumed n m)) = console (mem m)"
  "resume_count (mem (put bs m)) = resume_count (mem m)"
  "resume_count (mem (resumed n m)) = resume_count (mem m) + of_nat n"
  "(put bs m)\<lparr>handlers := h\<rparr> = put bs (m\<lparr>handlers := h\<rparr>)"
  "(resumed n m)\<lparr>handlers := h\<rparr> = resumed n (m\<lparr>handlers := h\<rparr>)"
  by (simp_all add: put_def resumed_def add_ac)

definition prints :: "(machine, unit) run \<Rightarrow> u8 list \<Rightarrow> bool" where
  "prints f bs \<longleftrightarrow> (\<forall>m. f m = (put bs m, Ret ()))"

lemma prints_basic [run_simps]:
  "prints (say t) (uart_print t)"
  "prints (say_usize v) (the (uart_usize v))"
  "prints (say_hex v) (the (uart_hex v))"
  "prints (ret ()) []"
  by (simp_all add: prints_def put_def say_def say_usize_emits say_hex_emits emit_def ret_def)

lemma prints_and_then: "prints f xs \<Longrightarrow> prints g ys \<Longrightarrow> prints (and_then f (\<lambda>_. g)) (xs @ ys)"
  by (simp add: prints_def and_then_def)

lemma prints_steps: "list_all2 prints fs xss \<Longrightarrow> prints (steps fs) (concat xss)"
  by (induction rule: list_all2_induct) (simp_all add: run_simps prints_and_then)

lemma prints_map: "prints (steps (map say ts)) (concat (map uart_print ts))"
  by (rule prints_steps) (simp add: list_all2_map1 list_all2_map2 run_simps list.rel_refl)

lemma steps_append: "steps (fs @ gs) = and_then (steps fs) (\<lambda>_. steps gs)"
  by (induction fs) (auto simp: and_then_def ret_def fun_eq_iff split: outcome.splits prod.splits)

lemma printsD: "prints f bs \<Longrightarrow> f m = (put bs m, Ret ())"
  by (simp add: prints_def)

definition drop_text :: "u8 list \<Rightarrow> u8 list" where
  "drop_text name = uart_print txt_drop @ uart_print name @ uart_print txt_drop_end"

lemma prints_drop [run_simps]: "prints (resource_drop name) (drop_text name)"
  using prints_steps [of "[say txt_drop, say name, say txt_drop_end]"
      "[uart_print txt_drop, uart_print name, uart_print txt_drop_end]"]
  by (simp add: resource_drop_def drop_text_def run_simps)

lemma prints_drops: "prints (steps (rev (map resource_drop ns))) (concat (map drop_text (rev ns)))"
  unfolding rev_map by (rule prints_steps) (simp add: list_all2_map1 list_all2_map2 run_simps list.rel_refl)

section \<open>The unwinder at work\<close>

lemma quiet_id: "quiet id m m' \<longleftrightarrow> m' = m"
  by (cases m; cases m') (auto simp: quiet_def)

lemma unwinder_raise:
  assumes "unwinder_ok id u"
  shows "0 < handlers m \<Longrightarrow> begin_panic u m = (m, Unwinding)"
    and "handlers m = 0 \<Longrightarrow> \<exists>code. begin_panic u m = (m, Ret code)"
proof -
  from assms obtain m' x where "begin_panic u m = (m', x)" "quiet id m m'"
    "if 0 < handlers m then x = Unwinding else \<exists>code. x = Ret code"
    unfolding unwinder_ok_def by metis
  then show "0 < handlers m \<Longrightarrow> begin_panic u m = (m, Unwinding)"
    and "handlers m = 0 \<Longrightarrow> \<exists>code. begin_panic u m = (m, Ret code)"
    by (simp_all add: quiet_id)
qed

lemma wrapped_resume:
  assumes "unwinder_ok id u"
  shows "wrap_unwind_resume u m = (resumed 1 m, Unwinding)"
proof -
  have "resume_unwind u (resumed 1 m) = (resumed 1 m, Unwinding)"
    using assms unfolding unwinder_ok_def quiet_id by metis
  then show ?thesis by (simp add: wrap_unwind_resume_def and_then_def resumed_def)
qed

lemma caught_run:
  assumes "unwinder_ok id u" and "f (m\<lparr>handlers := handlers m + 1\<rparr>) = (m1, x)"
  shows "catch_unwind u f m = (m1\<lparr>handlers := handlers m\<rparr>, caught x)"
proof -
  from assms(1) obtain m1' x' m2 where "f (m\<lparr>handlers := handlers m + 1\<rparr>) = (m1', x')"
    "catch_unwind u f m = (m2, caught x')" "mem m2 = mem m1'" "handlers m2 = handlers m"
    unfolding unwinder_ok_def id_apply by metis
  with assms(2) show ?thesis by (cases m1; cases m2) simp
qed

text \<open>One frame with destructors, left by a panic.\<close>

lemma frame_unwinds:
  assumes "unwinder_ok id u" and "body m = (m1, Unwinding)" and "ns \<noteq> []"
  shows "with_locals (wrap_unwind_resume u) (map resource_drop ns) body m =
    (put (concat (map drop_text (rev ns))) (resumed 1 m1), Unwinding)"
  using printsD [OF prints_drops [of ns], of m1] assms
  by (simp add: with_locals_def wrapped_resume and_then_def)

section \<open>Panicking\<close>

definition panic_text :: "location \<Rightarrow> u8 list" where
  "panic_text loc = uart_print txt_panic_at @
     (case loc of None \<Rightarrow> [] | Some (file, line) \<Rightarrow>
        uart_print file @ uart_print (ascii '':'') @ the (uart_usize (ucast line))) @
     uart_print [10] @ uart_print txt_calling @ uart_print txt_initiating"

lemma panic_raises:
  assumes "unwinder_ok id u" and "0 < handlers m"
  shows "panic_handler u loc m = (put (panic_text loc) m, Unwinding)"
  using unwinder_raise(1) [OF assms(1)] assms(2)
  by (cases loc) (auto simp: panic_handler_def start_unwind_entry_def panic_text_def and_then_def
      printsD [OF prints_basic(1)] printsD [OF prints_basic(2)])

lemma panic_without_handler:
  assumes "unwinder_ok id u" and "handlers m = 0"
  shows "panic_handler u loc m = (put (panic_text loc @ uart_print txt_unreachable) m, Halt)"
proof -
  obtain code where "begin_panic u (put (panic_text loc) m) = (put (panic_text loc) m, Ret code)"
    using unwinder_raise(2) [OF assms(1), of "put (panic_text loc) m"] assms(2) by auto
  then show ?thesis
    by (cases loc) (auto simp: panic_handler_def start_unwind_entry_def panic_text_def and_then_def halt_def
      printsD [OF prints_basic(1)] printsD [OF prints_basic(2)])
qed

section \<open>The task and its recovery\<close>

definition task_text :: "location \<Rightarrow> u8 list" where
  "task_text loc = uart_print txt_level_a @ uart_print txt_level_c @ panic_text loc @
     concat (map drop_text [txt_c, txt_b, txt_a2, txt_a1])"

lemma level_a_unwinds:
  assumes u: "unwinder_ok id u" and "0 < handlers m"
  shows "level_a u loc m = (put (task_text loc) (resumed 3 m), Unwinding)"
proof -
  let ?m = "put (uart_print txt_level_a) m"
  have "steps [say txt_level_c, panic_handler u loc] ?m =
      (put (uart_print txt_level_c @ panic_text loc) ?m, Unwinding)"
    using panic_raises [OF u, of "put (uart_print txt_level_c) ?m"] assms(2)
    by (simp add: and_then_def printsD [OF prints_basic(1)])
  then have c: "level_c u loc ?m = (put (uart_print txt_level_c @ panic_text loc @ drop_text txt_c) (resumed 1 ?m), Unwinding)"
    using frame_unwinds [OF u, of "steps [say txt_level_c, panic_handler u loc]" ?m _ "[txt_c]"]
    by (simp add: level_c_def)
  then have "level_b u loc ?m =
      (put (uart_print txt_level_c @ panic_text loc @ drop_text txt_c @ drop_text txt_b) (resumed 2 ?m), Unwinding)"
    using frame_unwinds [OF u, of "level_c u loc" ?m _ "[txt_b]"] by (simp add: level_b_def)
  then have "steps [say txt_level_a, level_b u loc, say txt_level_a_end] m =
      (put (uart_print txt_level_c @ panic_text loc @ drop_text txt_c @ drop_text txt_b) (resumed 2 ?m), Unwinding)"
    by (simp add: and_then_def printsD [OF prints_basic(1)])
  from frame_unwinds [where body = "steps [say txt_level_a, level_b u loc, say txt_level_a_end]" and m = m,
      OF u this, of "[txt_a1, txt_a2]"] show ?thesis
    by (simp add: level_a_def task_text_def numeral_3_eq_3)
qed

definition recovered_text :: "usize \<Rightarrow> u8 list" where
  "recovered_text n = uart_print txt_landed @ uart_print txt_dropped @ uart_print txt_hook @
     the (uart_usize n) @ uart_print [10]"

lemma task_run_cases:
  assumes "unwinder_ok id u"
    and "task ((put (uart_print txt_registering) m)\<lparr>handlers := handlers m + 1\<rparr>) = (m1, x)"
  shows "task_run u task m =
    (case x of
       Ret _ \<Rightarrow> (put (uart_print txt_normal) (m1\<lparr>handlers := handlers m\<rparr>), Ret ())
     | Unwinding \<Rightarrow> (put (recovered_text (resume_count (mem m1))) (m1\<lparr>handlers := handlers m\<rparr>), Ret ())
     | Halt \<Rightarrow> (m1\<lparr>handlers := handlers m\<rparr>, Halt))"
proof -
  have "catch_unwind u task (put (uart_print txt_registering) m) = (m1\<lparr>handlers := handlers m\<rparr>, caught x)"
    using caught_run [OF assms(1), of task "put (uart_print txt_registering) m" m1 x] assms(2) by simp
  then show ?thesis
    by (cases x) (simp_all add: task_run_def and_then_def caught_def recovered_text_def ret_def
      printsD [OF prints_basic(1)] printsD [OF prints_basic(2)])
qed

section \<open>The whole program\<close>

definition main_text :: "location \<Rightarrow> u8 list" where
  "main_text loc = concat (map uart_print txt_banner) @ uart_print txt_registering @ task_text loc @
     recovered_text 3 @ uart_print txt_main_continues @ uart_print txt_main_done"

lemma main_runs:
  assumes u: "unwinder_ok id u" and h: "handlers m = 0" and z: "resume_count (mem m) = 0"
  shows "main u loc m = (put (main_text loc) (resumed 3 m), Halt)"
proof -
  let ?b = "concat (map uart_print txt_banner)"
  let ?m = "put ?b m"
  let ?m1 = "(put (uart_print txt_registering) ?m)\<lparr>handlers := handlers ?m + 1\<rparr>"
  have "level_a u loc ?m1 = (put (task_text loc) (resumed 3 ?m1), Unwinding)"
    by (rule level_a_unwinds [OF u]) simp
  from task_run_cases [where task = "level_a u loc" and m = ?m, OF u this] have "task_run u (level_a u loc) ?m =
      (put (uart_print txt_registering @ task_text loc @ recovered_text 3) (resumed 3 ?m), Ret ())"
    using h z by (simp del: One_nat_def)
  then show ?thesis
    using printsD [OF prints_map [of txt_banner], of m]
    by (simp add: main_def steps_append and_then_def main_text_def halt_def printsD [OF prints_basic(1)])
qed

section \<open>Backtraces\<close>

definition frame_line :: "usize \<Rightarrow> usize \<Rightarrow> u8 list" where
  "frame_line n ip = uart_print txt_frame @ the (uart_usize n) @ uart_print (ascii ''  '') @
     the (uart_hex ip) @ uart_print [10]"

lemma backtrace_cb_prints: "prints (backtrace_cb n ip) (frame_line n ip)"
  unfolding backtrace_cb_def frame_line_def
  using prints_steps [of "[say txt_frame, say_usize n, say (ascii ''  ''), say_hex ip, say [10]]"
      "[uart_print txt_frame, the (uart_usize n), uart_print (ascii ''  ''), the (uart_hex ip), uart_print [10]]"]
  by (simp add: run_simps del: steps.simps uart_print.simps)

lemma backtrace_from_prints:
  "prints (backtrace_from n ips) (concat (map (\<lambda>(k, ip). frame_line k ip) (zip (ids n (length ips)) ips)))"
proof (induction ips arbitrary: n)
  case Nil
  show ?case by (simp add: run_simps)
next
  case (Cons ip ips)
  from prints_and_then [OF backtrace_cb_prints Cons.IH] show ?case by (simp add: ids_Suc_Cons)
qed

end
