(* ===== verification/UnwindProperties.thy ===== *)
theory UnwindProperties
  imports Unwind
begin

text \<open>
  The properties of the console functions and of the panic recovery. The unwinder is any one with the
  documented behaviour \<open>unwinder_ok\<close>; the witnesses use \<open>plain_unwinder\<close>.
\<close>

section \<open>Numbers on the console\<close>

text \<open>C34: \<open>uart_usize\<close> never indexes outside its 20-byte buffer, prints between 1 and 20 decimal digits without a
  leading zero (except for zero itself), and the digits read back as the number.\<close>

theorem uart_usize_roundtrip:
  "\<exists>out. uart_usize v = Some out \<and> 1 \<le> length out \<and> length out \<le> 20 \<and>
     (\<forall>c\<in>set out. 48 \<le> c \<and> c \<le> 57) \<and> (v \<noteq> 0 \<longrightarrow> hd out \<noteq> 48) \<and>
     value_of 10 (map (\<lambda>c. unat c - 48) out) = unat v"
proof (cases "v = 0")
  case True
  then show ?thesis by (simp add: uart_usize_prints)
next
  case False
  let ?ds = "digits 10 (unat v)"
  have pos: "0 < unat v" using False by (simp add: unat_gt_0)
  have "unat v < 10 ^ 20" using unsigned_less [of v, where 'a = nat] by simp
  then have len: "length ?ds \<le> 20" by (intro digits_length) simp_all
  have u: "unat (dec_char d) = 48 + d" if "d < 10" for d using that by (rule dec_char_unat)
  have less: "d < 10" if "d \<in> set ?ds" for d using digits_less [of 10 d "unat v"] that by simp
  note h = digits_hd [of 10 "unat v", simplified, OF pos [simplified]]
  have "map (\<lambda>c. unat c - 48) (map dec_char ?ds) = ?ds"
    using less u by (simp add: map_idI)
  moreover have "\<forall>c\<in>set (map dec_char ?ds). 48 \<le> c \<and> c \<le> 57"
    using less u by (force simp: word_le_nat_alt)
  moreover have "hd (map dec_char ?ds) \<noteq> 48"
  proof
    assume "hd (map dec_char ?ds) = 48"
    then have "unat (dec_char (hd ?ds)) = 48" using h by (simp add: hd_map)
    then show False using u [OF less [OF hd_in_set]] h by simp
  qed
  moreover have "1 \<le> length ?ds" using h by (cases ?ds) simp_all
  ultimately show ?thesis
    using False len value_of_digits [of 10 "unat v"] by (intro exI [of _ "map dec_char ?ds"]) (simp add: uart_usize_prints)
qed

theorem uart_usize_roundtrip_witness:
  "\<exists>out. uart_usize 271 = Some out \<and> hd out \<noteq> 48 \<and> value_of 10 (map (\<lambda>c. unat c - 48) out) = 271"
  using uart_usize_roundtrip [of 271] by auto

text \<open>C35: \<open>uart_hex\<close> never indexes outside its 16-byte buffer, prints \<open>0x\<close> and between 1 and 16 lower-case
  hexadecimal digits without a leading zero (except for zero itself), and they read back as the number.\<close>

theorem uart_hex_roundtrip:
  "\<exists>out. uart_hex v = Some ([48, 120] @ out) \<and> 1 \<le> length out \<and> length out \<le> 16 \<and>
     (\<forall>c\<in>set out. (48 \<le> c \<and> c \<le> 57) \<or> (97 \<le> c \<and> c \<le> 102)) \<and> (v \<noteq> 0 \<longrightarrow> hd out \<noteq> 48) \<and>
     value_of 16 (map (\<lambda>c. if c \<le> 57 then unat c - 48 else unat c - 87) out) = unat v"
proof (cases "v = 0")
  case True
  then show ?thesis by (simp add: uart_hex_prints)
next
  case False
  let ?ds = "digits 16 (unat v)"
  let ?rd = "\<lambda>c :: u8. if c \<le> 57 then unat c - 48 else unat c - 87"
  have pos: "0 < unat v" using False by (simp add: unat_gt_0)
  have "unat v < 16 ^ 16" using unsigned_less [of v, where 'a = nat] by simp
  then have len: "length ?ds \<le> 16" by (intro digits_length) simp_all
  have less: "d < 16" if "d \<in> set ?ds" for d using digits_less [of 16 d "unat v"] that by simp
  note h = digits_hd [of 16 "unat v", simplified, OF pos [simplified]]
  have "map ?rd (map hex_char ?ds) = ?ds"
    using less by (simp add: map_idI hex_char_reads)
  moreover have "\<forall>c\<in>set (map hex_char ?ds). (48 \<le> c \<and> c \<le> 57) \<or> (97 \<le> c \<and> c \<le> 102)"
    using less hex_char_range by auto
  moreover have "hd (map hex_char ?ds) \<noteq> 48"
  proof
    assume "hd (map hex_char ?ds) = 48"
    then have "?rd (hex_char (hd ?ds)) = 0" using h by (simp add: hd_map)
    then show False using hex_char_reads [OF less [OF hd_in_set]] h by simp
  qed
  moreover have "1 \<le> length ?ds" using h by (cases ?ds) simp_all
  ultimately show ?thesis
    using False len value_of_digits [of 16 "unat v"] by (intro exI [of _ "map hex_char ?ds"]) (simp add: uart_hex_prints)
qed

theorem uart_hex_roundtrip_witness:
  "\<exists>out. uart_hex 0x47fc0000 = Some ([48, 120] @ out) \<and> hd out \<noteq> 48 \<and>
     value_of 16 (map (\<lambda>c. if c \<le> 57 then unat c - 48 else unat c - 87) out) = 0x47fc0000"
  using uart_hex_roundtrip [of "0x47fc0000"] by auto

text \<open>\<open>uart_print\<close> loses nothing: taking out the carriage return before each line feed gives the text
  back, and every line feed it sends is preceded by one.\<close>

lemma uart_print_roundtrip:
  "strip_cr (uart_print t) = t \<and>
   (\<forall>i. i < length (uart_print t) \<and> uart_print t ! i = 10 \<longrightarrow> 0 < i \<and> uart_print t ! (i - 1) = 13)"
  using strip_cr_print print_lf by blast

lemma uart_print_roundtrip_witness:
  "uart_print [104, 10, 105] = [104, 13, 10, 105] \<and> uart_print [104, 10, 105] ! (2 - 1) = 13"
proof -
  have "uart_print [104, 10, 105] = [104, 13, 10, 105]" by (simp add: uart_byte_def)
  with uart_print_roundtrip [of "[104, 10, 105]", THEN conjunct2, rule_format, of 2] show ?thesis by simp
qed

section \<open>Panic and recovery\<close>

text \<open>C30: the program recovers: whatever the location in the \<open>PanicInfo\<close>, \<open>main\<close> runs the task, which panics in
  \<open>level_c\<close>; the destructors run in the order C, B, A's second, A's first, \<open>_Unwind_Resume\<close> is intercepted
  three times, \<open>task_run\<close> lands and prints that count, and \<open>main\<close> continues to its final loop. The
  console shows exactly this text, so the line after the call in \<open>level_a\<close> is never printed.\<close>

theorem main_recovers:
  assumes "unwinder_ok id u"
  shows "\<exists>m. main u loc boot = (m, Halt) \<and> resume_count (mem m) = 3 \<and>
    console (mem m) =
      concat (map uart_print txt_banner) @ uart_print txt_registering @
      uart_print txt_level_a @ uart_print txt_level_c @ panic_text loc @
      concat (map drop_text [txt_c, txt_b, txt_a2, txt_a1]) @
      uart_print txt_landed @ uart_print txt_dropped @ uart_print txt_hook @ [51] @ uart_print [10] @
      uart_print txt_main_continues @ uart_print txt_main_done"
proof -
  have "uart_usize 3 = Some [51]" by (simp add: uart_usize_prints digits_step dec_char_def)
  then show ?thesis
    using main_runs [OF assms, of boot loc]
    by (simp add: boot_def main_text_def task_text_def recovered_text_def)
qed

theorem main_recovers_witness:
  "\<exists>m. main plain_unwinder (Some (ascii ''src/main.rs'', 271)) boot = (m, Halt) \<and> resume_count (mem m) = 3"
  using main_recovers [OF plain_unwinder_ok, of "Some (ascii ''src/main.rs'', 271)"] by blast

text \<open>C32: a panic never leaves \<open>task_run\<close>: for any task, \<open>task_run\<close> returns to its caller with the same number of
  handlers on the stack, whether the task completes or panics; it does not return only if the task
  itself never does. Which of the two messages it prints tells which happened.\<close>

theorem task_run_contains_panics:
  assumes "unwinder_ok id u"
    and "task ((put (uart_print txt_registering) m)\<lparr>handlers := handlers m + 1\<rparr>) = (m1, x)"
  shows "\<exists>m2 y. task_run u task m = (m2, y) \<and> y \<noteq> Unwinding \<and> handlers m2 = handlers m \<and>
    (y = Halt \<longleftrightarrow> x = Halt) \<and>
    (x = Ret () \<longrightarrow> console (mem m2) = console (mem m1) @ uart_print txt_normal) \<and>
    (x = Unwinding \<longrightarrow> console (mem m2) = console (mem m1) @ recovered_text (resume_count (mem m1)))"
  using task_run_cases [where task = task and m = m, OF assms] by (cases x) simp_all

theorem task_run_contains_panics_witness:
  "\<exists>m2. task_run plain_unwinder (\<lambda>m. (m, Unwinding)) boot = (m2, Ret ()) \<and>
     console (mem m2) = uart_print txt_registering @ recovered_text 0"
proof -
  let ?m = "(put (uart_print txt_registering) boot)\<lparr>handlers := handlers boot + 1\<rparr>"
  from task_run_contains_panics [OF plain_unwinder_ok, of "\<lambda>m. (m, Unwinding)" boot ?m Unwinding]
  obtain m2 y where run: "task_run plain_unwinder (\<lambda>m. (m, Unwinding)) boot = (m2, y)" and "y \<noteq> Unwinding" "y \<noteq> Halt"
    and "console (mem m2) = uart_print txt_registering @ recovered_text 0"
    by (auto simp: boot_def)
  moreover from this have "y = Ret ()" by (cases y) simp_all
  ultimately show ?thesis by blast
qed

text \<open>C33: without a \<open>catch_unwind\<close> frame on the stack, the panic handler reports where the panic was, that no
  landing pad was found, and spins for ever; it neither returns nor runs any destructor.\<close>

theorem panic_without_task_halts:
  assumes "unwinder_ok id u" and "handlers m = 0"
  shows "\<exists>m2. panic_handler u loc m = (m2, Halt) \<and>
    console (mem m2) = console (mem m) @ panic_text loc @ uart_print txt_unreachable \<and>
    resume_count (mem m2) = resume_count (mem m)"
  using panic_without_handler [OF assms] by simp

theorem panic_without_task_halts_witness:
  "\<exists>m2. panic_handler plain_unwinder None boot = (m2, Halt) \<and>
     console (mem m2) = panic_text None @ uart_print txt_unreachable"
  using panic_without_task_halts [OF plain_unwinder_ok, of boot None] by (auto simp: boot_def)

text \<open>The backtrace prints one line per frame, numbered from zero, with the frame's address.\<close>

lemma backtrace_lines:
  "prints (print_backtrace ips)
     (uart_print txt_backtrace @ concat (map (\<lambda>(n, ip). frame_line n ip) (zip (ids 0 (length ips)) ips)))"
  unfolding print_backtrace_def by (intro prints_and_then prints_basic(1) backtrace_from_prints)

end
