(* ===== verification/UnwindState.thy ===== *)
theory UnwindState
  imports Unwind BumpAlloc
begin

text \<open>
  The two smaller bare-metal programs, which report through a static instead of a console:
  \<^verbatim>\<open>main_with_unwinding.rs\<close> (\<open>DEMO_UNWIND_STATE\<close>; catches its own panic, with a heap of 16 KiB) and
  \<^verbatim>\<open>main_simple.rs\<close> (\<open>STATE\<close>; its panic handler does not unwind).
\<close>

section \<open>main_with_unwinding.rs\<close>

text \<open>\<open>state_log\<close> lists the values stored so far; the program has only the last of them.\<close>

record unwind_mem =
  demo_unwind_state :: usize
  state_log :: "usize list"
  panic_caught :: bool
  heap :: bump

definition store_state :: "usize \<Rightarrow> (unwind_mem, unit) run" where
  "store_state v m =
     (m\<lparr>mem := (mem m)\<lparr>demo_unwind_state := v, state_log := state_log (mem m) @ [v]\<rparr>\<rparr>, Ret ())"

definition drop_marker :: "(unwind_mem, unit) run" where
  "drop_marker = store_state 2"

text \<open>\<open>Box::new\<close> of a value with layout \<open>l\<close>; \<open>alloc_error\<close> spins for ever. \<open>dealloc\<close> does nothing.\<close>

definition alloc_error :: "(unwind_mem, unit) run" where
  "alloc_error = halt"

definition box_new :: "layout \<Rightarrow> (unwind_mem, unit) run" where
  "box_new l m =
     (case alloc_seq heap_size_unwinding l (heap (mem m)) of
        (h, None) \<Rightarrow> alloc_error m
      | (h, Some _) \<Rightarrow> (m\<lparr>mem := (mem m)\<lparr>heap := h\<rparr>\<rparr>, Ret ()))"

definition dealloc :: "(unwind_mem, unit) run" where
  "dealloc = ret ()"

definition u64_layout :: layout where
  "u64_layout = \<lparr>layout_size = 8, layout_align = 8\<rparr>"

definition my_unwind_start :: "unwind_mem unwinder \<Rightarrow> (unwind_mem, unit) run" where
  "my_unwind_start u =
     and_then (begin_panic u) (\<lambda>code. steps [store_state (100 + scast code), halt])"

definition my_panic :: "unwind_mem unwinder \<Rightarrow> (unwind_mem, unit) run" where
  "my_panic u = my_unwind_start u"

definition run_demo :: "unwind_mem unwinder \<Rightarrow> (unwind_mem, unit) run" where
  "run_demo u =
     steps [store_state 1,
       with_locals (resume_unwind u) [drop_marker, dealloc] (steps [box_new u64_layout, my_panic u])]"

definition is_err_and_mark :: "bool \<Rightarrow> (unwind_mem, bool) run" where
  "is_err_and_mark completed m =
     (if \<not> completed
      then and_then (store_state 3) (\<lambda>_. ret True) (m\<lparr>mem := (mem m)\<lparr>panic_caught := True\<rparr>\<rparr>)
      else (m, Ret False))"

definition unwind_main :: "unwind_mem unwinder \<Rightarrow> (unwind_mem, unit) run" where
  "unwind_main u =
     and_then (catch_unwind u (run_demo u)) (\<lambda>completed.
     and_then (is_err_and_mark completed) (\<lambda>caught_it.
     (\<lambda>m. if caught_it \<and> panic_caught (mem m) then steps [store_state 4, halt] m
          else steps [store_state 200, halt] m)))"

definition unwind_boot :: "unwind_mem cpu" where
  "unwind_boot = \<lparr>mem = \<lparr>demo_unwind_state = 0, state_log = [], panic_caught = False, heap = bump_new\<rparr>,
     handlers = 0\<rparr>"

text \<open>The unwinder allocates from the program's heap, so only the rest is known to stay as it was.\<close>

definition visible :: "unwind_mem \<Rightarrow> usize \<times> usize list \<times> bool" where
  "visible m = (demo_unwind_state m, state_log m, panic_caught m)"

section \<open>How it runs\<close>

lemma first_box: "alloc_seq heap_size_unwinding u64_layout bump_new =
    (\<lparr>stored = [8, 0], given = [(0, u64_layout)]\<rparr>, Some 0)"
  by (simp add: alloc_seq_def candidate_def checked_add_def align_up_def bump_new_def
      u64_layout_def heap_size_unwinding_def)

text \<open>A store, as seen from outside.\<close>

lemma store_obtain:
  assumes "visible (mem m) = (s, lg, c)"
  obtains m1 where "store_state v m = (m1, Ret ())" and "visible (mem m1) = (v, lg @ [v], c)"
    and "handlers m1 = handlers m"
  using assms that by (auto simp: store_state_def visible_def)

lemma run_demo_unwinds:
  assumes u: "unwinder_ok visible u" and h: "0 < handlers m" and v: "visible (mem m) = (s, lg, c)"
    and heap: "heap (mem m) = bump_new"
  obtains m' where "run_demo u m = (m', Unwinding)" and "visible (mem m') = (2, lg @ [1, 2], c)"
proof -
  obtain m1 where m1: "store_state 1 m = (m1, Ret ())" "visible (mem m1) = (1, lg @ [1], c)"
    "handlers m1 = handlers m" by (rule store_obtain [OF v])
  have "heap (mem m1) = bump_new" using m1(1) heap by (auto simp: store_state_def)
  then obtain m2 where m2: "box_new u64_layout m1 = (m2, Ret ())" "visible (mem m2) = (1, lg @ [1], c)"
    "handlers m2 = handlers m" using m1 by (simp add: box_new_def first_box visible_def)
  have "0 < handlers m2" using h m2(3) by simp
  then obtain m3 where "begin_panic u m2 = (m3, Unwinding)" and q: "quiet visible m2 m3"
    using u unfolding unwinder_ok_def by metis
  with m2 have body: "steps [box_new u64_layout, my_panic u] m1 = (m3, Unwinding)"
    by (simp add: and_then_def my_panic_def my_unwind_start_def)
  have v3: "visible (mem m3) = (1, lg @ [1], c)" using q m2(2) by (simp add: quiet_def)
  obtain m4 where m4: "store_state 2 m3 = (m4, Ret ())" "visible (mem m4) = (2, (lg @ [1]) @ [2], c)"
    by (rule store_obtain [OF v3])
  obtain m5 where m5: "resume_unwind u m4 = (m5, Unwinding)" "quiet visible m4 m5"
    using u unfolding unwinder_ok_def by metis
  have "with_locals (resume_unwind u) [drop_marker, dealloc] (steps [box_new u64_layout, my_panic u]) m1 =
      (m5, Unwinding)"
    unfolding with_locals_def body using m4(1) m5(1)
    by (simp add: and_then_def drop_marker_def dealloc_def ret_def)
  then have "run_demo u m = (m5, Unwinding)" by (simp add: run_demo_def and_then_def m1(1))
  moreover have "visible (mem m5) = (2, lg @ [1, 2], c)" using m5(2) m4(2) by (simp add: quiet_def)
  ultimately show ?thesis by (rule that)
qed

lemma unwind_main_runs:
  assumes u: "unwinder_ok visible u"
  obtains m' where "unwind_main u unwind_boot = (m', Halt)" and "visible (mem m') = (4, [1, 2, 3, 4], True)"
proof -
  let ?m = "unwind_boot\<lparr>handlers := handlers unwind_boot + 1\<rparr>"
  have v: "visible (mem ?m) = (0, [], False)" and hp: "heap (mem ?m) = bump_new"
    by (simp_all add: visible_def unwind_boot_def)
  obtain m1 where m1: "run_demo u ?m = (m1, Unwinding)" "visible (mem m1) = (2, [] @ [1, 2], False)"
    by (rule run_demo_unwinds [OF u _ v hp]) simp
  obtain m2 where m2: "catch_unwind u (run_demo u) unwind_boot = (m2, Ret False)"
    "visible (mem m2) = visible (mem m1)"
  proof -
    from u obtain m1' x m2 where "run_demo u ?m = (m1', x)" "catch_unwind u (run_demo u) unwind_boot = (m2, caught x)"
      "visible (mem m2) = visible (mem m1')" unfolding unwinder_ok_def by blast
    with m1(1) that show ?thesis by (simp add: caught_def)
  qed
  have "visible (mem (m2\<lparr>mem := (mem m2)\<lparr>panic_caught := True\<rparr>\<rparr>)) = (2, [1, 2], True)"
    using m1(2) m2(2) by (simp add: visible_def)
  then obtain m3 where m3: "store_state 3 (m2\<lparr>mem := (mem m2)\<lparr>panic_caught := True\<rparr>\<rparr>) = (m3, Ret ())"
    "visible (mem m3) = (3, [1, 2] @ [3], True)" by (rule store_obtain)
  from m3(2) obtain m4 where m4: "store_state 4 m3 = (m4, Ret ())" "visible (mem m4) = (4, ([1, 2] @ [3]) @ [4], True)"
    by (rule store_obtain)
  have "panic_caught (mem m3)" using m3(2) by (simp add: visible_def)
  then have "unwind_main u unwind_boot = (m4, Halt)"
    by (simp add: unwind_main_def and_then_def m2(1) is_err_and_mark_def m3(1) ret_def m4(1) halt_def)
  moreover have "visible (mem m4) = (4, [1, 2, 3, 4], True)" using m4(2) by simp
  ultimately show ?thesis by (rule that)
qed

section \<open>main_simple.rs\<close>

record simple_mem =
  simple_state :: usize
  simple_log :: "usize list"

definition simple_store :: "usize \<Rightarrow> (simple_mem, unit) run" where
  "simple_store v m = (m\<lparr>mem := (mem m)\<lparr>simple_state := v, simple_log := simple_log (mem m) @ [v]\<rparr>\<rparr>, Ret ())"

definition simple_drop :: "(simple_mem, unit) run" where
  "simple_drop = simple_store 2"

definition simple_panic :: "(simple_mem, unit) run" where
  "simple_panic = steps [simple_store 100, halt]"

text \<open>The cleanup pad of the block would end in \<open>resume\<close>; \<open>unreachable!()\<close> panics in its turn.\<close>

definition simple_main :: "(simple_mem, unit) run \<Rightarrow> (simple_mem, unit) run" where
  "simple_main resume = steps [simple_store 1, with_locals resume [simple_drop] simple_panic, simple_panic]"

definition simple_boot :: "simple_mem cpu" where
  "simple_boot = \<lparr>mem = \<lparr>simple_state = 0, simple_log = []\<rparr>, handlers = 0\<rparr>"

end
