(* ===== verification/UnwindStateProperties.thy ===== *)
theory UnwindStateProperties
  imports UnwindState
begin

text \<open>
  The properties of \<^verbatim>\<open>main_with_unwinding.rs\<close> and \<^verbatim>\<open>main_simple.rs\<close>.
\<close>

section \<open>Catching a panic on the bare metal\<close>

text \<open>C36: with an unwinder that behaves as documented, \<^verbatim>\<open>main_with_unwinding.rs\<close> stores exactly the states 1
  (started), 2 (destructor run by the unwinding), 3 (caught), 4 (recovered), in this order, and then
  spins in \<open>main\<close>; neither 200 nor an error code is ever stored.\<close>

theorem unwind_state_sequence:
  assumes "unwinder_ok visible u"
  shows "\<exists>m. unwind_main u unwind_boot = (m, Halt) \<and> state_log (mem m) = [1, 2, 3, 4] \<and>
    demo_unwind_state (mem m) = 4 \<and> panic_caught (mem m)"
proof -
  obtain m where "unwind_main u unwind_boot = (m, Halt)" "visible (mem m) = (4, [1, 2, 3, 4], True)"
    by (rule unwind_main_runs [OF assms])
  then show ?thesis by (simp add: visible_def)
qed

theorem unwind_state_sequence_witness:
  "\<exists>m. unwind_main plain_unwinder unwind_boot = (m, Halt) \<and> state_log (mem m) = [1, 2, 3, 4]"
  using unwind_state_sequence [OF plain_unwinder_ok] by blast



text \<open>When the heap cannot serve the \<open>Box\<close>, the program stops in \<open>alloc_error\<close>: nothing is unwound, no
  destructor runs, the state stays 1.\<close>

lemma unwind_state_out_of_memory:
  assumes "snd (alloc_seq heap_size_unwinding u64_layout (heap (mem m))) = None"
  shows "\<exists>m1. run_demo u m = (m1, Halt) \<and> state_log (mem m1) = state_log (mem m) @ [1] \<and>
    demo_unwind_state (mem m1) = 1 \<and> panic_caught (mem m1) = panic_caught (mem m)"
proof -
  obtain h where "alloc_seq heap_size_unwinding u64_layout (heap (mem m)) = (h, None)"
    using assms by (cases "alloc_seq heap_size_unwinding u64_layout (heap (mem m))") simp
  then show ?thesis
    by (simp add: run_demo_def with_locals_def and_then_def store_state_def box_new_def alloc_error_def halt_def)
qed

definition full_mem :: "unwind_mem cpu" where
  "full_mem = unwind_boot\<lparr>mem := (mem unwind_boot)\<lparr>heap := \<lparr>stored = [0x4000], given = []\<rparr>\<rparr>\<rparr>"

lemma unwind_state_out_of_memory_witness:
  "\<exists>m1. run_demo plain_unwinder full_mem = (m1, Halt) \<and> state_log (mem m1) = [1]"
proof -
  have "snd (alloc_seq heap_size_unwinding u64_layout (heap (mem full_mem))) = None"
    by (simp add: full_mem_def alloc_seq_def candidate_def checked_add_def align_up_def
        u64_layout_def heap_size_unwinding_def)
  from unwind_state_out_of_memory [OF this, of plain_unwinder] show ?thesis
    by (auto simp: full_mem_def unwind_boot_def)
qed

section \<open>Panicking without unwinding\<close>

text \<open>In \<^verbatim>\<open>main_simple.rs\<close> a panic stores 1 and then 100 and spins: since its handler does not unwind, the
  destructor of the live local never runs (2 is never stored) and \<open>unreachable!()\<close> is not reached,
  whatever \<open>_Unwind_Resume\<close> does.\<close>

lemma simple_never_drops:
  "\<exists>m. simple_main resume simple_boot = (m, Halt) \<and> simple_log (mem m) = [1, 100] \<and> simple_state (mem m) = 100"
  by (simp add: simple_main_def with_locals_def and_then_def simple_store_def simple_panic_def halt_def
      simple_boot_def)

end
