(* ===== verification/Boot.thy ===== *)
theory Boot
  imports UnwindState
begin

text \<open>
  From the entry point to \<open>main\<close>: the assembly \<open>_start\<close> of \<^verbatim>\<open>main.rs\<close> and the Rust \<open>_start\<close> of the other two
  programs, on a processor of which only what these instructions touch is modelled. A Rust \<open>_start\<close> is
  an ordinary function: what the compiler puts in front of its body, and whether \<open>main\<close> was compiled to
  FP or SIMD instructions, are parameters. \<^verbatim>\<open>qemu.log\<close> records a run in which this mattered.
\<close>

section \<open>Registers and memory map\<close>

text \<open>
  \<open>cpacr_in_effect\<close> is the value of \<open>CPACR_EL1\<close> that instructions are executed under: a write to the system
  register takes effect at the next context synchronisation.
\<close>

record regs =
  x0 :: u64
  sp :: u64
  cpacr_el1 :: u64
  cpacr_in_effect :: u64

text \<open>\<^verbatim>\<open>memory.x\<close>: \<open>RAM : ORIGIN = 0x40000000, LENGTH = 128M\<close>.\<close>

definition ram_origin :: nat where
  "ram_origin = 0x40000000"

definition ram_length :: nat where
  "ram_length = 128 * 1024 * 1024"

text \<open>
  \<open>faults a\<close>: a store to \<open>a\<close> takes an exception. Which addresses do is a matter of the machine; that RAM can
  be written is all that is assumed of it.
\<close>

definition ram_writable :: "(u64 \<Rightarrow> bool) \<Rightarrow> bool" where
  "ram_writable faults \<longleftrightarrow> (\<forall>a. ram_origin \<le> unat a \<and> unat a < ram_origin + ram_length \<longrightarrow> \<not> faults a)"

text \<open>FPEN, bits 20 and 21: \<open>0b11\<close> traps no floating-point or SIMD instruction.\<close>

definition fp_enabled :: "regs \<Rightarrow> bool" where
  "fp_enabled r \<longleftrightarrow> bit (cpacr_in_effect r) 20 \<and> bit (cpacr_in_effect r) 21"

section \<open>The assembly entry\<close>

text \<open>
  The instructions of the assembly entry, and those of a compiled function before its body: making room
  on the stack and saving registers there (\<open>Str_Sp off\<close> stores to \<open>[sp, #off]\<close>). \<open>Other\<close> stands for
  instructions that touch neither memory nor these registers.
\<close>

datatype instr = Mov_X0 u64 | Msr_Cpacr_X0 | Isb | Ldr_X0 u64 | Mov_Sp_X0 | Bl_Main | Branch_Self
  | Sub_Sp u64 | Str_Sp u64 | Other

text \<open>
  How the boot ends: in code that has the given outcome, in an exception (for which none of the programs
  has a vector), or by running off the end of the code.
\<close>

datatype 'm boot_end = Ends regs "'m cpu" "unit outcome" | Fault | Off_End

text \<open>
  Calling \<open>main\<close>: it saves its return address right below the stack pointer it is given; if it contains
  FP or SIMD instructions (\<open>fp\<close>) and they are not enabled, it traps.
\<close>

definition call_main :: "(u64 \<Rightarrow> bool) \<Rightarrow> bool \<Rightarrow> ('m, unit) run \<Rightarrow> regs \<Rightarrow> 'm cpu \<Rightarrow> 'm boot_end" where
  "call_main faults fp enter r m =
     (if faults (sp r - 16) \<or> fp \<and> \<not> fp_enabled r then Fault
      else case enter m of (m', x) \<Rightarrow> Ends r m' x)"

fun exec_boot :: "(u64 \<Rightarrow> bool) \<Rightarrow> bool \<Rightarrow> ('m, unit) run \<Rightarrow> instr list \<Rightarrow> regs \<Rightarrow> 'm cpu \<Rightarrow> 'm boot_end" where
  "exec_boot faults fp enter [] r m = Off_End"
| "exec_boot faults fp enter (Mov_X0 i # code) r m = exec_boot faults fp enter code (r\<lparr>x0 := i\<rparr>) m"
| "exec_boot faults fp enter (Msr_Cpacr_X0 # code) r m = exec_boot faults fp enter code (r\<lparr>cpacr_el1 := x0 r\<rparr>) m"
| "exec_boot faults fp enter (Isb # code) r m = exec_boot faults fp enter code (r\<lparr>cpacr_in_effect := cpacr_el1 r\<rparr>) m"
| "exec_boot faults fp enter (Ldr_X0 i # code) r m = exec_boot faults fp enter code (r\<lparr>x0 := i\<rparr>) m"
| "exec_boot faults fp enter (Mov_Sp_X0 # code) r m = exec_boot faults fp enter code (r\<lparr>sp := x0 r\<rparr>) m"
| "exec_boot faults fp enter (Bl_Main # code) r m =
     (case call_main faults fp enter r m of
        Ends r' m' (Ret _) \<Rightarrow> exec_boot faults fp enter code r' m'
      | e \<Rightarrow> e)"
| "exec_boot faults fp enter (Branch_Self # code) r m = Ends r m Halt"
| "exec_boot faults fp enter (Sub_Sp n # code) r m = exec_boot faults fp enter code (r\<lparr>sp := sp r - n\<rparr>) m"
| "exec_boot faults fp enter (Str_Sp off # code) r m =
     (if faults (sp r + off) then Fault else exec_boot faults fp enter code r m)"
| "exec_boot faults fp enter (Other # code) r m = exec_boot faults fp enter code r m"

definition start_code :: "instr list" where
  "start_code = [Mov_X0 (push_bit 20 3), Msr_Cpacr_X0, Isb, Ldr_X0 0x47FC0000, Mov_Sp_X0, Bl_Main, Branch_Self]"

section \<open>The Rust entries\<close>

definition stack_size_unwinding :: usize where
  "stack_size_unwinding = 256 * 1024"

definition stack_size_simple :: usize where
  "stack_size_simple = 256 * 1024"

text \<open>
  \<open>prologue\<close> is what the compiler has put before the \<open>asm!\<close> that sets the stack pointer; the register in
  which the operand is passed is \<open>x0\<close> here.
\<close>

definition unwind_start :: "(u64 \<Rightarrow> bool) \<Rightarrow> bool \<Rightarrow> instr list \<Rightarrow> (unwind_mem, unit) run \<Rightarrow> regs \<Rightarrow> unwind_mem cpu
    \<Rightarrow> unwind_mem boot_end" where
  "unwind_start faults fp prologue enter r m =
     (let stack_top = 0x40000000 + 128 * 1024 * 1024 - stack_size_unwinding
      in exec_boot faults fp enter (prologue @ [Mov_X0 stack_top, Mov_Sp_X0, Bl_Main]) r m)"

definition simple_start :: "(u64 \<Rightarrow> bool) \<Rightarrow> bool \<Rightarrow> instr list \<Rightarrow> (simple_mem, unit) run \<Rightarrow> regs \<Rightarrow> simple_mem cpu
    \<Rightarrow> simple_mem boot_end" where
  "simple_start faults fp prologue enter r m =
     (let stack_top = 0x40000000 + 128 * 1024 * 1024 - stack_size_simple
      in exec_boot faults fp enter (prologue @ [Mov_X0 stack_top, Mov_Sp_X0, Bl_Main]) r m)"

text \<open>What a prologue can consist of, and the stores that it makes from a given stack pointer.\<close>

fun is_prologue :: "instr list \<Rightarrow> bool" where
  "is_prologue [] = True"
| "is_prologue (Mov_X0 i # code) = is_prologue code"
| "is_prologue (Sub_Sp n # code) = is_prologue code"
| "is_prologue (Str_Sp off # code) = is_prologue code"
| "is_prologue (Other # code) = is_prologue code"
| "is_prologue _ = False"

fun stack_stores :: "instr list \<Rightarrow> u64 \<Rightarrow> u64 list" where
  "stack_stores [] p = []"
| "stack_stores (Sub_Sp n # code) p = stack_stores code (p - n)"
| "stack_stores (Str_Sp off # code) p = (p + off) # stack_stores code p"
| "stack_stores (_ # code) p = stack_stores code p"

text \<open>What keeps a Rust entry from reaching \<open>main\<close>: nothing it depends on has been set up for it.\<close>

definition unfit :: "(u64 \<Rightarrow> bool) \<Rightarrow> bool \<Rightarrow> instr list \<Rightarrow> regs \<Rightarrow> bool" where
  "unfit faults fp prologue r \<longleftrightarrow>
     (\<exists>a\<in>set (stack_stores prologue (sp r)). faults a) \<or> fp \<and> \<not> fp_enabled r"

section \<open>The recorded run\<close>

text \<open>
  The code bytes of \<open>_start\<close> in \<^verbatim>\<open>qemu.log\<close> (of a Rust entry: the assembly begins otherwise; the constant
  128 KiB in it is not the present stack size, so it is an earlier build), and the encodings in it: \<open>sub sp, sp, #imm\<close>,
  \<open>str xt, [sp, #imm]\<close>, \<open>str wt, [sp, #imm]\<close>, \<open>mov w0, #(imm << 16)\<close>. The two other instructions
  compare and branch on an overflow that does not happen.
\<close>

definition logged_code :: "u8 list" where
  "logged_code =
     [0xFF, 0xC3, 0x00, 0xD1, 0xFE, 0x13, 0x00, 0xF9, 0x40, 0x00, 0xA0, 0x52,
      0xE0, 0x17, 0x00, 0xB9, 0xE8, 0x03, 0x1F, 0x2A, 0x68, 0x01, 0x00, 0x35]"

fun code_words :: "u8 list \<Rightarrow> nat list" where
  "code_words (a # b # c # d # bs) = (unat a + 256 * (unat b + 256 * (unat c + 256 * unat d))) # code_words bs"
| "code_words _ = []"

definition decode :: "nat \<Rightarrow> instr" where
  "decode w =
     (let imm12 = w div 2 ^ 10 mod 2 ^ 12; rn_rd = w mod 2 ^ 10; rn = w div 2 ^ 5 mod 2 ^ 5; op = w div 2 ^ 22
      in if op = 0x344 \<and> rn_rd = 0x3FF then Sub_Sp (of_nat imm12)
         else if op = 0x3E4 \<and> rn = 31 then Str_Sp (of_nat (8 * imm12))
         else if op = 0x2E4 \<and> rn = 31 then Str_Sp (of_nat (4 * imm12))
         else if w div 2 ^ 21 = 0x295 \<and> w mod 2 ^ 5 = 0 then Mov_X0 (of_nat (2 ^ 16 * (w div 2 ^ 5 mod 2 ^ 16)))
         else Other)"

definition logged_prologue :: "instr list" where
  "logged_prologue = map decode (code_words logged_code)"

section \<open>What the entries establish\<close>

text \<open>A stack pointer as the calling convention wants it, and everything below it down to the origin is RAM.\<close>

definition stack_ok :: "regs \<Rightarrow> bool" where
  "stack_ok r \<longleftrightarrow> unat (sp r) mod 16 = 0 \<and> ram_origin < unat (sp r) \<and> unat (sp r) \<le> ram_origin + ram_length"

definition booted :: "regs \<Rightarrow> regs" where
  "booted r = r\<lparr>x0 := 0x47FC0000, sp := 0x47FC0000, cpacr_el1 := 0x300000, cpacr_in_effect := 0x300000\<rparr>"

lemma booted_ok: "fp_enabled (booted r)" "stack_ok (booted r)"
  by (simp_all add: fp_enabled_def stack_ok_def booted_def ram_origin_def ram_length_def bit_iff_odd drop_bit_eq_div)

lemma stack_top_writable: "ram_writable faults \<Longrightarrow> \<not> faults 0x47FBFFF0"
  by (simp add: ram_writable_def ram_origin_def ram_length_def)

lemma start_code_runs:
  assumes "ram_writable faults" and "enter m = (m', Halt)"
  shows "exec_boot faults fp enter start_code r m = Ends (booted r) m' Halt"
proof -
  have "call_main faults fp enter (booted r) m = Ends (booted r) m' Halt"
    using stack_top_writable [OF assms(1)] booted_ok(1) [of r] assms(2) by (simp add: call_main_def booted_def)
  moreover have "r\<lparr>cpacr_el1 := 0x300000, cpacr_in_effect := 0x300000, x0 := 0x47FC0000, sp := 0x47FC0000\<rparr> = booted r"
    by (cases r) (simp add: booted_def)
  ultimately show ?thesis by (simp add: start_code_def push_bit_eq_mult)
qed

text \<open>Behind a prologue, the rest runs with the stack pointer and \<open>x0\<close> that it leaves, or not at all.\<close>

lemma prologue_runs:
  "is_prologue code \<Longrightarrow> \<exists>r'. cpacr_in_effect r' = cpacr_in_effect r \<and>
     exec_boot faults fp enter (code @ rest) r m =
       (if \<exists>a\<in>set (stack_stores code (sp r)). faults a then Fault else exec_boot faults fp enter rest r' m)"
proof (induction code arbitrary: r rule: is_prologue.induct)
  case (2 i code)
  from 2(1) [of "r\<lparr>x0 := i\<rparr>"] 2(2) show ?case by simp
next
  case (3 n code)
  from 3(1) [of "r\<lparr>sp := sp r - n\<rparr>"] 3(2) show ?case by simp
qed auto

lemma rust_start_runs:
  assumes "ram_writable faults" and "is_prologue prologue" and "enter m = (m', Halt)"
  defines "code \<equiv> prologue @ [Mov_X0 0x47FC0000, Mov_Sp_X0, Bl_Main]"
  shows "unfit faults fp prologue r \<Longrightarrow>
      exec_boot faults fp enter code r m = Fault"
    and "\<not> unfit faults fp prologue r \<Longrightarrow>
      \<exists>r'. exec_boot faults fp enter code r m = Ends r' m' Halt \<and> sp r' = 0x47FC0000"
proof -
  obtain r1 where r1: "cpacr_in_effect r1 = cpacr_in_effect r"
    "exec_boot faults fp enter code r m =
       (if \<exists>a\<in>set (stack_stores prologue (sp r)). faults a then Fault
        else exec_boot faults fp enter [Mov_X0 0x47FC0000, Mov_Sp_X0, Bl_Main] r1 m)"
    using prologue_runs [OF assms(2)] unfolding code_def by blast
  let ?r = "r1\<lparr>x0 := 0x47FC0000, sp := 0x47FC0000\<rparr>"
  have "fp_enabled ?r = fp_enabled r" by (simp add: fp_enabled_def r1(1))
  then have "exec_boot faults fp enter [Mov_X0 0x47FC0000, Mov_Sp_X0, Bl_Main] r1 m =
      (if fp \<and> \<not> fp_enabled r then Fault else Ends ?r m' Halt)"
    using stack_top_writable [OF assms(1)] assms(3) by (simp add: call_main_def)
  then show "unfit faults fp prologue r \<Longrightarrow>
      exec_boot faults fp enter code r m = Fault"
    and "\<not> unfit faults fp prologue r \<Longrightarrow>
      \<exists>r'. exec_boot faults fp enter code r m = Ends r' m' Halt \<and> sp r' = 0x47FC0000"
    unfolding r1(2) unfit_def by auto
qed

lemma rust_start_faults:
  assumes "ram_writable faults" and "is_prologue prologue"
  shows "exec_boot faults fp enter (prologue @ [Mov_X0 0x47FC0000, Mov_Sp_X0, Bl_Main]) r m = Fault \<longleftrightarrow>
    unfit faults fp prologue r"
proof -
  obtain r1 where r1: "cpacr_in_effect r1 = cpacr_in_effect r"
    "exec_boot faults fp enter (prologue @ [Mov_X0 0x47FC0000, Mov_Sp_X0, Bl_Main]) r m =
       (if \<exists>a\<in>set (stack_stores prologue (sp r)). faults a then Fault
        else exec_boot faults fp enter [Mov_X0 0x47FC0000, Mov_Sp_X0, Bl_Main] r1 m)"
    using prologue_runs [OF assms(2)] by blast
  let ?r = "r1\<lparr>x0 := 0x47FC0000, sp := 0x47FC0000\<rparr>"
  obtain m' x where "enter m = (m', x)" by (cases "enter m")
  then have "call_main faults fp enter ?r m = (if fp \<and> \<not> fp_enabled r then Fault else Ends ?r m' x)"
    using stack_top_writable [OF assms(1)] r1(1) by (simp add: call_main_def fp_enabled_def)
  then have "exec_boot faults fp enter [Mov_X0 0x47FC0000, Mov_Sp_X0, Bl_Main] r1 m = Fault \<longleftrightarrow> fp \<and> \<not> fp_enabled r"
    by (cases x) auto
  then show ?thesis unfolding r1(2) unfit_def by simp
qed

lemma rust_stack_tops:
  "0x40000000 + 128 * 1024 * 1024 - stack_size_unwinding = 0x47FC0000"
  "0x40000000 + 128 * 1024 * 1024 - stack_size_simple = 0x47FC0000"
  by (simp_all add: stack_size_unwinding_def stack_size_simple_def)

lemma logged_prologue_decoded:
  "logged_prologue = [Sub_Sp 0x30, Str_Sp 0x20, Mov_X0 0x20000, Str_Sp 0x14, Other, Other]"
  by (simp add: logged_prologue_def logged_code_def decode_def)

end
