(* ===== verification/Image.thy ===== *)
theory Image
  imports Boot
begin

text \<open>
  The linker script \<^verbatim>\<open>memory.x\<close>: where the linker places the parts of the program. What it places, the
  input sections of the object files in the order in which they match, is a parameter; the location
  counter, alignment and the limit of the region are those of the script.
\<close>

section \<open>Placing input sections\<close>

text \<open>An input section: its size, and its alignment as a power of two.\<close>

record input =
  in_size :: nat
  in_log :: nat

fun place_inputs :: "nat \<Rightarrow> input list \<Rightarrow> (nat \<times> nat) list \<times> nat" where
  "place_inputs dot [] = ([], dot)"
| "place_inputs dot (i # is) =
     (let a = round_up dot (2 ^ in_log i); (bs, e) = place_inputs (a + in_size i) is
      in ((a, in_size i) # bs, e))"

text \<open>
  An output section starts at a multiple of the strictest alignment of its inputs. \<open>k\<close> is the \<open>ALIGN\<close> at the
  head of its description (1 if there is none); the first result is the location counter behind it.
\<close>

definition strictest :: "input list \<Rightarrow> nat" where
  "strictest is = foldr max (map in_log is) 0"

definition out_section :: "nat \<Rightarrow> nat \<Rightarrow> input list \<Rightarrow> nat \<times> (nat \<times> nat) list \<times> nat" where
  "out_section dot k is = (let d = round_up (round_up dot (2 ^ strictest is)) k in (d, place_inputs d is))"

text \<open>One output section after the other; each has to end inside the region.\<close>

fun place_sections :: "nat \<Rightarrow> (nat \<times> input list) list \<Rightarrow> (nat \<times> (nat \<times> nat) list \<times> nat) list option" where
  "place_sections dot [] = Some []"
| "place_sections dot ((k, is) # rest) =
     (case out_section dot k is of (d, bs, e) \<Rightarrow>
        if e \<le> ram_origin + ram_length
        then map_option ((#) (d, bs, e)) (place_sections e rest)
        else None)"

section \<open>The script\<close>

text \<open>The input sections that the patterns of the script select.\<close>

record objects =
  text_entry :: "input list"
  text_rest :: "input list"
  eh_frame :: "input list"
  eh_frame_hdr :: "input list"
  gcc_except_table :: "input list"
  rodata :: "input list"
  data :: "input list"
  bss :: "input list"

definition script :: "objects \<Rightarrow> (nat \<times> input list) list" where
  "script ob = [(1, text_entry ob @ text_rest ob), (8, eh_frame ob), (1, eh_frame_hdr ob),
     (1, gcc_except_table ob), (1, rodata ob), (1, data ob), (1, bss ob)]"

text \<open>The linked image: the three symbols that the unwinder reads, and the blocks of each output section.\<close>

record linked =
  executable_start :: nat
  etext :: nat
  eh_frame_start :: nat
  blocks :: "(nat \<times> nat) list list"

definition link_image :: "objects \<Rightarrow> linked option" where
  "link_image ob =
     map_option (\<lambda>ss. \<lparr>executable_start = ram_origin, etext = snd (snd (ss ! 0)),
         eh_frame_start = fst (ss ! 1), blocks = map (\<lambda>(d, bs, e). bs) ss\<rparr>)
       (place_sections ram_origin (script ob))"

section \<open>What the placement guarantees\<close>

text \<open>A list of blocks that lies between two addresses, in order and without overlap.\<close>

fun packed :: "nat \<Rightarrow> (nat \<times> nat) list \<Rightarrow> nat \<Rightarrow> bool" where
  "packed lo [] hi = (lo \<le> hi)"
| "packed lo ((a, n) # bs) hi = (lo \<le> a \<and> packed (a + n) bs hi)"

lemma packed_le: "packed lo bs hi \<Longrightarrow> lo \<le> hi"
  by (induction lo bs hi rule: packed.induct) auto

lemma packed_weaken: "packed lo bs hi \<Longrightarrow> lo' \<le> lo \<Longrightarrow> packed lo' bs hi"
  by (cases bs) auto

lemma packed_append: "packed lo bs mid \<Longrightarrow> packed mid bs' hi \<Longrightarrow> packed lo (bs @ bs') hi"
proof (induction lo bs mid rule: packed.induct)
  case (1 lo hi)
  then show ?case by (auto intro: packed_weaken)
qed simp

lemma packed_within: "packed lo bs hi \<Longrightarrow> (a, n) \<in> set bs \<Longrightarrow> lo \<le> a \<and> a + n \<le> hi"
  by (induction lo bs hi rule: packed.induct) (auto dest: packed_le)

lemma packed_apart: "packed lo bs hi \<Longrightarrow> sorted_wrt (\<lambda>x y. fst x + snd x \<le> fst y) bs"
  by (induction lo bs hi rule: packed.induct) (auto dest: packed_within)

lemma place_inputs_packed:
  "place_inputs dot is = (bs, e) \<Longrightarrow> packed dot bs e \<and> map snd bs = map in_size is \<and>
     list_all2 (\<lambda>(a, n) i. 2 ^ in_log i dvd a) bs is"
proof (induction "is" arbitrary: dot bs e)
  case (Cons i "is")
  let ?a = "round_up dot (2 ^ in_log i)"
  obtain bs1 where r: "place_inputs (?a + in_size i) is = (bs1, e)" and bs: "bs = (?a, in_size i) # bs1"
    using Cons.prems by (auto simp: Let_def split: prod.splits)
  from Cons.IH [OF r] round_up_ge [of "2 ^ in_log i" dot] show ?case
    by (simp add: bs round_up_dvd)
qed simp

lemma strictest_ge: "i \<in> set is \<Longrightarrow> in_log i \<le> strictest is"
  unfolding strictest_def by (induction "is") auto

lemma round_up_same: "a dvd x \<Longrightarrow> 0 < a \<Longrightarrow> round_up x a = x"
  using round_up_least [of a x x] round_up_ge [of a x] by simp

lemma round_up_dvd_smaller: "(2 :: nat) ^ k dvd x \<Longrightarrow> j \<le> k \<Longrightarrow> round_up x (2 ^ j) = x"
  by (meson dvd_trans le_imp_power_dvd round_up_same zero_less_numeral zero_less_power)

text \<open>With a power of two as \<open>ALIGN\<close>, the first input stands where the location counter was.\<close>

lemma first_input_at:
  assumes "out_section dot (2 ^ k) (i # is) = (d, bs, e)"
  shows "fst (hd bs) = d" and "2 ^ k dvd d"
proof -
  let ?m = "strictest (i # is)"
  let ?s = "round_up dot (2 ^ ?m)"
  have d: "d = round_up ?s (2 ^ k)" and bs: "hd bs = (round_up d (2 ^ in_log i), in_size i)"
    using assms by (auto simp: out_section_def Let_def split: prod.splits)
  have i: "in_log i \<le> ?m" by (rule strictest_ge) simp
  have s: "2 ^ ?m dvd ?s" by (rule round_up_dvd)
  show "2 ^ k dvd d" unfolding d by (rule round_up_dvd)
  have "round_up d (2 ^ in_log i) = d"
  proof (cases "k \<le> ?m")
    case True
    with s have "d = ?s" unfolding d by (rule round_up_dvd_smaller)
    with round_up_dvd_smaller [OF s i] show ?thesis by simp
  next
    case False
    with i have "in_log i \<le> k" by simp
    with \<open>2 ^ k dvd d\<close> show ?thesis by (rule round_up_dvd_smaller)
  qed
  then show "fst (hd bs) = d" by (simp add: bs)
qed

lemma out_section_packed:
  assumes "out_section dot k is = (d, bs, e)" and "0 < k"
  shows "dot \<le> d" and "packed d bs e" and "map snd bs = map in_size is"
    and "list_all2 (\<lambda>(a, n) i. 2 ^ in_log i dvd a) bs is"
proof -
  have d: "d = round_up (round_up dot (2 ^ strictest is)) k" and p: "place_inputs d is = (bs, e)"
    using assms(1) by (auto simp: out_section_def Let_def)
  show "dot \<le> d"
    unfolding d using round_up_ge [OF assms(2)] round_up_ge [of "2 ^ strictest is" dot] order_trans by force
  show "packed d bs e" and "map snd bs = map in_size is"
    and "list_all2 (\<lambda>(a, n) i. 2 ^ in_log i dvd a) bs is"
    using place_inputs_packed [OF p] by simp_all
qed

lemma place_sections_packed:
  assumes "place_sections dot secs = Some ss" and "\<forall>(k, is)\<in>set secs. 0 < k" and "dot \<le> ram_origin + ram_length"
  shows "packed dot (concat (map (\<lambda>(d, bs, e). bs) ss)) (ram_origin + ram_length) \<and>
    list_all2 (\<lambda>(d, bs, e) (k, is). map snd bs = map in_size is \<and>
      list_all2 (\<lambda>(a, n) i. 2 ^ in_log i dvd a) bs is) ss secs"
  using assms
proof (induction dot secs arbitrary: ss rule: place_sections.induct)
  case (1 dot)
  then show ?case by simp
next
  case (2 dot k "is" rest)
  obtain d bs e where o: "out_section dot k is = (d, bs, e)" by (cases "out_section dot k is") auto
  with 2(2) obtain ss1 where e: "e \<le> ram_origin + ram_length" and r: "place_sections e rest = Some ss1"
    and ss: "ss = (d, bs, e) # ss1" by (auto split: if_splits)
  have "0 < k" using 2(3) by simp
  note p = out_section_packed [OF o this]
  have "\<forall>(k, is)\<in>set rest. 0 < k" using 2(3) by simp
  from 2(1) [OF o [symmetric] refl e r this e] p packed_weaken [OF p(2,1)] show ?case
    by (simp add: ss packed_append)
qed

text \<open>The sections of a linked image: \<open>.text\<close>, \<open>.eh_frame\<close> and the others.\<close>

lemma link_image_cases:
  assumes "link_image ob = Some im"
  obtains d0 b0 e0 d1 b1 e1 and ss :: "(nat \<times> (nat \<times> nat) list \<times> nat) list" where
    "out_section ram_origin 1 (text_entry ob @ text_rest ob) = (d0, b0, e0)"
    and "out_section e0 8 (eh_frame ob) = (d1, b1, e1)"
    and "im = \<lparr>executable_start = ram_origin, etext = e0, eh_frame_start = d1,
      blocks = b0 # b1 # map (\<lambda>(d, bs, e). bs) ss\<rparr>"
proof -
  from assms obtain ts where ts: "place_sections ram_origin (script ob) = Some ts"
    and im: "im = \<lparr>executable_start = ram_origin, etext = snd (snd (ts ! 0)), eh_frame_start = fst (ts ! 1),
      blocks = map (\<lambda>(d, bs, e). bs) ts\<rparr>" by (auto simp: link_image_def)
  obtain d0 b0 e0 where o0: "out_section ram_origin 1 (text_entry ob @ text_rest ob) = (d0, b0, e0)"
    by (metis prod_cases3)
  obtain d1 b1 e1 where o1: "out_section e0 8 (eh_frame ob) = (d1, b1, e1)" by (metis prod_cases3)
  from ts obtain ss where ss: "ts = (d0, b0, e0) # (d1, b1, e1) # ss"
    by (auto simp: script_def o0 o1 simp del: One_nat_def split: if_splits)
  show ?thesis by (rule that [OF o0 o1, of ss]) (simp add: im ss)
qed

lemma link_image_packed:
  assumes "link_image ob = Some im"
  shows "packed ram_origin (concat (blocks im)) (ram_origin + ram_length)"
    and "list_all2 (\<lambda>bs (k, is). map snd bs = map in_size is \<and>
      list_all2 (\<lambda>(a, n) i. 2 ^ in_log i dvd a) bs is) (blocks im) (script ob)"
proof -
  from assms obtain ts where ts: "place_sections ram_origin (script ob) = Some ts"
    and im: "blocks im = map (\<lambda>(d, bs, e). bs) ts" by (auto simp: link_image_def)
  have "\<forall>(k, is)\<in>set (script ob). 0 < k" by (simp add: script_def)
  from place_sections_packed [OF ts this] show "packed ram_origin (concat (blocks im)) (ram_origin + ram_length)"
    and "list_all2 (\<lambda>bs (k, is). map snd bs = map in_size is \<and>
      list_all2 (\<lambda>(a, n) i. 2 ^ in_log i dvd a) bs is) (blocks im) (script ob)"
    by (simp_all add: im list_all2_map1 case_prod_unfold)
qed

lemma link_image_symbols:
  assumes "link_image ob = Some im"
  shows "executable_start im = ram_origin"
    and "(a, n) \<in> set (blocks im ! 0) \<Longrightarrow> ram_origin \<le> a \<and> a + n \<le> etext im"
    and "etext im \<le> eh_frame_start im" and "8 dvd eh_frame_start im"
    and "eh_frame ob \<noteq> [] \<Longrightarrow> fst (hd (blocks im ! 1)) = eh_frame_start im"
    and "text_entry ob \<noteq> [] \<Longrightarrow> \<forall>i\<in>set (text_entry ob @ text_rest ob). in_log i \<le> 30 \<Longrightarrow>
      fst (hd (blocks im ! 0)) = ram_origin"
proof -
  from assms obtain d0 b0 e0 d1 b1 e1 and ss :: "(nat \<times> (nat \<times> nat) list \<times> nat) list" where
    o0: "out_section ram_origin 1 (text_entry ob @ text_rest ob) = (d0, b0, e0)"
    and o1: "out_section e0 8 (eh_frame ob) = (d1, b1, e1)"
    and im: "im = \<lparr>executable_start = ram_origin, etext = e0, eh_frame_start = d1,
      blocks = b0 # b1 # map (\<lambda>(d, bs, e). bs) ss\<rparr>" by (rule link_image_cases)
  show "executable_start im = ram_origin" by (simp add: im)
  note p0 = out_section_packed [OF o0] and p1 = out_section_packed [OF o1]
  show "ram_origin \<le> a \<and> a + n \<le> etext im" if "(a, n) \<in> set (blocks im ! 0)"
    using that p0(1) packed_within [OF p0(2)] by (fastforce simp: im)
  show "etext im \<le> eh_frame_start im" using p1(1) by (simp add: im)
  have "d1 = round_up (round_up e0 (2 ^ strictest (eh_frame ob))) 8"
    using o1 by (simp add: out_section_def Let_def)
  then show "8 dvd eh_frame_start im" by (simp add: im round_up_dvd)
  show "fst (hd (blocks im ! 1)) = eh_frame_start im" if "eh_frame ob \<noteq> []"
    using that first_input_at(1) [of e0 3 _ _ d1 b1 e1] o1 by (cases "eh_frame ob") (simp_all add: im)
  show "fst (hd (blocks im ! 0)) = ram_origin"
    if ne: "text_entry ob \<noteq> []" and small: "\<forall>i\<in>set (text_entry ob @ text_rest ob). in_log i \<le> 30"
  proof -
    have "strictest is \<le> 30" if "\<forall>i\<in>set is. in_log i \<le> 30" for "is"
      using that unfolding strictest_def by (induction "is") auto
    with small have s: "strictest (text_entry ob @ text_rest ob) \<le> 30" by blast
    have "ram_origin = 2 ^ 30" by (simp add: ram_origin_def)
    then have "round_up ram_origin (2 ^ strictest (text_entry ob @ text_rest ob)) = ram_origin"
      using round_up_dvd_smaller [OF _ s, of ram_origin] by simp
    moreover have "round_up x 1 = x" for x by (simp add: round_up_def)
    ultimately have "d0 = ram_origin" using o0 by (simp add: out_section_def Let_def)
    with ne first_input_at(1) [of ram_origin 0 _ _ d0 b0 e0] o0 show ?thesis
      by (cases "text_entry ob") (simp_all add: im)
  qed
qed

end
