(* ===== verification/BootProperties.thy ===== *)
theory BootProperties
  imports Boot Image
begin

text \<open>
  The image that the linker script lays out, and the three bare-metal programs from their entry points on.
\<close>

section \<open>The image\<close>

text \<open>C40: an image that links is laid out as the script intends: every input section is placed with its size
  at a multiple of its alignment, in the order of the script, inside RAM and without overlap. The
  symbols that the unwinder starts from are exact: all code lies between \<open>__executable_start\<close> and \<open>__etext\<close>,
  and \<open>__eh_frame\<close> is a multiple of 8 and the address of the first unwind table. The entry section,
  if the program has one, is at the first address of RAM.\<close>

theorem image_layout:
  assumes "link_image ob = Some im"
  shows "sorted_wrt (\<lambda>x y. fst x + snd x \<le> fst y) (concat (blocks im)) \<and>
    (\<forall>(a, n)\<in>set (concat (blocks im)). ram_origin \<le> a \<and> a + n \<le> ram_origin + ram_length) \<and>
    list_all2 (\<lambda>bs (k, is). map snd bs = map in_size is \<and> list_all2 (\<lambda>(a, n) i. 2 ^ in_log i dvd a) bs is)
      (blocks im) (script ob) \<and>
    (\<forall>(a, n)\<in>set (blocks im ! 0). executable_start im \<le> a \<and> a + n \<le> etext im) \<and>
    etext im \<le> eh_frame_start im \<and> 8 dvd eh_frame_start im \<and>
    (eh_frame ob \<noteq> [] \<longrightarrow> fst (hd (blocks im ! 1)) = eh_frame_start im) \<and>
    (text_entry ob \<noteq> [] \<and> (\<forall>i\<in>set (text_entry ob @ text_rest ob). in_log i \<le> 30) \<longrightarrow>
       fst (hd (blocks im ! 0)) = ram_origin)"
  using packed_apart [OF link_image_packed(1) [OF assms]] packed_within [OF link_image_packed(1) [OF assms]]
    link_image_packed(2) [OF assms] link_image_symbols [OF assms]
  by auto

definition tiny_objects :: objects where
  "tiny_objects = \<lparr>text_entry = [\<lparr>in_size = 28, in_log = 0\<rparr>], text_rest = [\<lparr>in_size = 6, in_log = 2\<rparr>],
     eh_frame = [\<lparr>in_size = 20, in_log = 2\<rparr>], eh_frame_hdr = [], gcc_except_table = [],
     rodata = [], data = [], bss = [\<lparr>in_size = 16, in_log = 4\<rparr>]\<rparr>"

lemma tiny_image: "link_image tiny_objects = Some \<lparr>executable_start = 0x40000000, etext = 0x40000022,
  eh_frame_start = 0x40000028,
  blocks = [[(0x40000000, 28), (0x4000001C, 6)], [(0x40000028, 20)], [], [], [], [], [(0x40000040, 16)]]\<rparr>"
  by (simp add: link_image_def script_def tiny_objects_def out_section_def strictest_def round_up_def
      ram_origin_def ram_length_def Let_def)

theorem image_layout_witness:
  "\<exists>im. link_image tiny_objects = Some im \<and> etext im = 0x40000022 \<and> eh_frame_start im = 0x40000028 \<and>
     8 dvd eh_frame_start im \<and> fst (hd (blocks im ! 1)) = eh_frame_start im"
  using image_layout [OF tiny_image] tiny_image by (simp add: tiny_objects_def)

text \<open>
  But the script reserves no room for the stack: it accepts an image whose \<open>.bss\<close> reaches over the address
  that the entries load into the stack pointer.
\<close>

definition big_bss :: objects where
  "big_bss = \<lparr>text_entry = [\<lparr>in_size = 28, in_log = 2\<rparr>], text_rest = [], eh_frame = [], eh_frame_hdr = [],
     gcc_except_table = [], rodata = [], data = [], bss = [\<lparr>in_size = 0x7FD0000, in_log = 4\<rparr>]\<rparr>"

lemma image_over_stack:
  "\<exists>im. link_image big_bss = Some im \<and>
     (\<exists>(a, n)\<in>set (concat (blocks im)). a < unat (sp (booted r)) \<and> unat (sp (booted r)) < a + n)"
  by (simp add: link_image_def script_def big_bss_def out_section_def strictest_def round_up_def
      ram_origin_def ram_length_def Let_def booted_def)

section \<open>The entries\<close>

lemma simple_main_runs:
  "simple_main resume simple_boot =
     (\<lparr>mem = \<lparr>simple_state = 100, simple_log = [1, 100]\<rparr>, handlers = 0\<rparr>, Halt)"
  by (simp add: simple_main_def with_locals_def and_then_def simple_store_def simple_panic_def halt_def
      simple_boot_def)

text \<open>C39: how the three programs get from their entry points to the end of \<open>main\<close>, on any machine whose RAM can be
  written, whether or not the compiler has used FP or SIMD instructions (\<open>fp\<close>). The assembly entry
  gets there from any register contents: it stores nothing before it has set the stack pointer, and
  it has enabled FP and SIMD. A Rust entry gets there exactly if the stores that the compiler's prologue
  makes through the stack pointer that it finds do not fault and, when \<open>main\<close> uses FP or SIMD, it was
  enabled already; otherwise it ends in an exception. All three set the same stack pointer, aligned
  and inside RAM with 256 KiB of RAM left above it, and end with the result stated for their \<open>main\<close>.\<close>

theorem entries_reach_main:
  assumes "unwinder_ok id u" and "unwinder_ok visible v" and "ram_writable faults" and "is_prologue pro"
  shows "(\<exists>r1 m1. exec_boot faults fp (main u loc) start_code r boot = Ends r1 m1 Halt \<and> main u loc boot = (m1, Halt) \<and>
      fp_enabled r1 \<and> stack_ok r1 \<and> sp r1 = 0x47FC0000 \<and> unat (sp r1) + 256 * 1024 = ram_origin + ram_length) \<and>
    (if unfit faults fp pro r then unwind_start faults fp pro (unwind_main v) r unwind_boot = Fault
     else \<exists>r2 m2. unwind_start faults fp pro (unwind_main v) r unwind_boot = Ends r2 m2 Halt \<and>
       sp r2 = 0x47FC0000 \<and> state_log (mem m2) = [1, 2, 3, 4]) \<and>
    (if unfit faults fp pro r then simple_start faults fp pro (simple_main resume) r simple_boot = Fault
     else \<exists>r3 m3. simple_start faults fp pro (simple_main resume) r simple_boot = Ends r3 m3 Halt \<and>
       sp r3 = 0x47FC0000 \<and> simple_log (mem m3) = [1, 100])"
proof -
  have main: "main u loc boot = (put (main_text loc) (resumed 3 boot), Halt)"
    by (rule main_runs [OF assms(1)]) (simp_all add: boot_def)
  obtain m2 where m2: "unwind_main v unwind_boot = (m2, Halt)" "state_log (mem m2) = [1, 2, 3, 4]"
    by (rule unwind_main_runs [OF assms(2)]) (simp add: visible_def)
  note asm = start_code_runs [where enter = "main u loc" and m = boot and r = r and fp = fp, OF assms(3) main]
  have top: "sp (booted r) = 0x47FC0000" "unat (sp (booted r)) + 256 * 1024 = ram_origin + ram_length"
    by (simp_all add: booted_def ram_origin_def ram_length_def)
  show ?thesis
  proof (intro conjI)
    show "\<exists>r1 m1. exec_boot faults fp (main u loc) start_code r boot = Ends r1 m1 Halt \<and> main u loc boot = (m1, Halt) \<and>
      fp_enabled r1 \<and> stack_ok r1 \<and> sp r1 = 0x47FC0000 \<and> unat (sp r1) + 256 * 1024 = ram_origin + ram_length"
      using asm main booted_ok [of r] top by blast
    show "if unfit faults fp pro r then unwind_start faults fp pro (unwind_main v) r unwind_boot = Fault
     else \<exists>r2 m2. unwind_start faults fp pro (unwind_main v) r unwind_boot = Ends r2 m2 Halt \<and>
       sp r2 = 0x47FC0000 \<and> state_log (mem m2) = [1, 2, 3, 4]"
      using rust_start_runs [where enter = "unwind_main v" and m = unwind_boot and r = r and fp = fp, OF assms(3,4) m2(1)] m2(2)
      unfolding unwind_start_def Let_def rust_stack_tops by auto
    show "if unfit faults fp pro r then simple_start faults fp pro (simple_main resume) r simple_boot = Fault
     else \<exists>r3 m3. simple_start faults fp pro (simple_main resume) r simple_boot = Ends r3 m3 Halt \<and>
       sp r3 = 0x47FC0000 \<and> simple_log (mem m3) = [1, 100]"
      using rust_start_runs [where enter = "simple_main resume" and m = simple_boot and r = r and fp = fp, OF assms(3,4) simple_main_runs]
      unfolding simple_start_def Let_def rust_stack_tops by auto
  qed
qed

text \<open>The machine of the witnesses: nothing but the RAM of \<^verbatim>\<open>memory.x\<close> can be written; registers as after a reset.\<close>

definition only_ram :: "u64 \<Rightarrow> bool" where
  "only_ram a \<longleftrightarrow> \<not> (ram_origin \<le> unat a \<and> unat a < ram_origin + ram_length)"

definition reset_regs :: regs where
  "reset_regs = \<lparr>x0 = 0, sp = 0, cpacr_el1 = 0, cpacr_in_effect = 0\<rparr>"

lemma only_ram_writable: "ram_writable only_ram"
  by (simp add: ram_writable_def only_ram_def)

theorem entries_reach_main_witness:
  "(\<exists>r1 m1. exec_boot only_ram True (main plain_unwinder None) start_code reset_regs boot = Ends r1 m1 Halt \<and>
     stack_ok r1 \<and> fp_enabled r1) \<and>
   (\<exists>r2 m2. unwind_start only_ram False [Mov_X0 1] (unwind_main plain_unwinder) reset_regs unwind_boot = Ends r2 m2 Halt)"
proof -
  have "is_prologue [Mov_X0 1]" by simp
  note reach = entries_reach_main [OF plain_unwinder_ok plain_unwinder_ok only_ram_writable this]
  have "\<not> unfit only_ram False [Mov_X0 1] reset_regs" by (simp add: unfit_def)
  with reach [of False None reset_regs] reach [of True None reset_regs] show ?thesis by (simp del: fun_upd_apply) blast
qed



end
