(* ===== verification/Spec2Isabelle.thy ===== *)
theory Spec2Isabelle
  imports ProgramProperties ServiceProperties SoftInterrupts SoftRounds MutexFair MutexOverflow BumpProperties UnwindProperties UnwindStateProperties BootProperties
begin

text \<open>
  A verification development for the two Rust programs under \<^verbatim>\<open>src/hopter/\<close>: the soft-lock demo
  \<^verbatim>\<open>softlock-std-demo\<close> and the bare-metal panic-recovery demo \<^verbatim>\<open>aarch64-baremetal-unwind\<close>. Both
  demonstrate mechanisms of the Hopter embedded operating system.

  \<^bold>\<open>The soft-lock.\<close> A \<open>SoftLock<T>\<close> hands out Full access to whoever wins a compare-and-exchange; the
  others get PendOnly access, record an intent in the content and raise a pending flag. The Full owner
  executes recorded intents when it lets go. \<open>run_softlock_bench\<close> runs producers and a consumer over a
  \<open>SoftLock<DemoInner>\<close>; \<open>run_mutex_bench\<close> does the same work with a plain mutex.

  \<^item> \<open>SoftLock\<close>: \<open>struct SoftLock\<close> (\<open>soft_lock\<close>), \<open>AccessGuard::guard\<close> (\<open>guard\<close>), \<open>with_access\<close>
    (\<open>guard_step\<close>, with \<open>enum Access\<close> as \<open>access\<close>) and \<open>AccessGuard::drop\<close> (\<open>drop_step\<close>), for any content and any closures, one atomic
    operation per step. A thread's place in the call is a \<open>guard_pc\<close>. The contract of the traits
    \<open>AllowPendOp\<close> and \<open>RunPendedOp\<close> is the locale \<open>pend_op\<close>.
  \<^item> \<open>SoftLockThreads\<close>: any number of threads, any scheduler (\<open>access_step\<close>, \<open>access_reach\<close>); mutual
    exclusion of Full access; what the flag promises; the locales \<open>exclusive\<close> (data that belongs to
    the Full owner) and \<open>accounted\<close> (counters updated one after the other).
  \<^item> \<open>SoftLockInterrupts\<close>: the discipline that Hopter assumes, where the accesses in progress form a stack
    and only its top runs (\<open>isr_step\<close>, \<open>isr_reach\<close>).
  \<^item> \<open>DemoInner\<close>: \<open>struct DemoInner\<close>, both accessors, each function as code (\<open>_code\<close>, one atomic operation
    or queue operation per step) and as what it computes undisturbed (\<open>_spec\<close>).
  \<^item> \<open>Scenario\<close>: \<open>struct Scenario\<close>, the table in \<open>main\<close>, and the bound \<open>fits\<close>.
  \<^item> \<open>SoftOps\<close>: the three closures that the benchmark passes to \<open>with_access\<close>; here \<open>pend_op\<close> and \<open>exclusive\<close>
    are interpreted on the code. \<open>SoftAccounts\<close>: the counters of \<open>DemoInner\<close> as five interpretations of
    \<open>accounted\<close>.
  \<^item> \<open>SoftBench\<close>: the main, consumer and producer threads (\<open>main_step\<close>, \<open>consumer_step\<close>, \<open>producer_step\<close>),
    interleaved by \<open>bench_step\<close>; \<open>SoftBenchInv\<close>, \<open>SoftBenchAcc\<close>, \<open>SoftBatches\<close>, \<open>SoftBenchFinal\<close>: spawning and
    joining, who is in which access, that the benchmark refines the generic lock, the accounts of all
    counters, that no counter wraps around (\<open>SoftCounters\<close>), that no batch is empty (so the printed average is 0.0 without a batch and otherwise of
    at least one item per batch), why the consumer's decision to stop is right, and the final report.
  \<^item> \<open>MutexBench\<close>, \<open>MutexBenchInv\<close>, \<open>MutexBenchFinal\<close>: the same for \<open>run_mutex_bench\<close>, with poisoning and the
    panics of its \<open>expect\<close>s, since its \<open>processed_now\<close> is an \<open>i32\<close> that can overflow. \<open>MutexCount\<close>: no thread
    panics if the items of a critical section can be counted (\<open>fits_i32\<close>); \<open>MutexOverflow\<close>: in every other scenario
    there is a schedule after which the benchmark cannot return any more.
  \<^item> \<open>Schedules\<close>: the states a scheduler can bring about (\<open>leads_to\<close>) and the principle for liveness, rounds that
    lower a measure; the locale \<open>interleaving\<close> is interpreted on both benchmarks and on the program. \<open>SoftBenchLive\<close>, \<open>MutexBenchLive\<close>: from every reachable state of a benchmark its end can
    be reached (an access that runs alone ends; the producers finish; each iteration of the consumer
    leaves less to serve; the main thread returns).
  \<^item> \<open>Service\<close>: the abstract contract of both benchmarks, a queue that numbers the items it accepts, serves them
    in order and may take over promised submissions (intents) later; the locale \<open>implements_service\<close> extends
    \<open>interleaving\<close> by an abstraction function and the event that an instruction is. \<open>SoftService\<close> and
    \<open>MutexService\<close> interpret it: an operation takes effect at the push, the pop, or the increment of
    \<open>pending_submit\<close>, and intents that \<open>run_pended_op\<close> carries in its locals stay promised.
    \<open>ServiceProperties\<close>: every step refines the service, every call takes effect exactly once. The history
    \<open>served\<close> is what an observer sees leaving the queue (\<open>taken\<close>, \<open>served_is_taken\<close>), and so the two benchmarks
    serve the same items in the same order.
  \<^item> \<open>Program\<close>: \<open>run_scenario\<close>, \<open>main\<close> and the lines they print, over the two benchmarks (\<open>scenario_step\<close>,
    \<open>program_step\<close>). Durations and \<open>f64\<close> are type parameters; their arithmetic and formatting is the record
    \<open>io\<close>, of which nothing is assumed.
  \<^item> \<open>SoftInterrupts\<close>: the demo's content under nested interrupts; from every state of the stack all accesses in
    progress return and no intent is left (\<open>nest_runs\<close>).
  \<^item> \<open>Budget\<close>: the boundary of the consumer's budget. With 0 no item is ever served (\<open>idle_reach\<close>,
    \<open>mutex_idle_reach\<close>), so a benchmark can be brought to its end exactly if the budget is not 0 or there
    is nothing to serve (\<open>bench_returns_iff\<close>, \<open>mutex_returns_iff\<close>).
  \<^item> \<open>SoftRounds\<close>: bounds on the instructions of an access, whatever the other threads do: the loser of the
    lock returns within three, the winner gives the lock back within \<open>round_bound\<close>, which is linear in the
    number of operations, the budget and the spin count.
  \<^item> \<open>Fairness\<close>: infinite runs and strong fairness (\<open>fair_run\<close>). \<open>MutexFair\<close>: the mutex benchmark ends under every
    strongly fair scheduler. \<open>SoftLivelock\<close>: the soft-lock benchmark does not; a round of the release loop
    and the polling consumer leads back to the same state and makes an infinite fair run.
  \<^item> \<open>SoftProperties\<close>, \<open>MutexProperties\<close>, \<open>ProgramProperties\<close>: the properties, with concrete schedules as
    witnesses. \<open>SoftProperties\<close> also has the typing judgement of program points (\<open>access_typed\<close>) and its
    soundness: progress, preservation, and the frame of the PendOnly accessor.

  All atomics of these programs that carry the protocol are \<open>SeqCst\<close>, so an interleaving of steps is
  their meaning. Counters are 64-bit words and wrap; \<open>fits\<close> (the number of operations stays below
  \<open>2 ^ 64 - 2\<close>) is the one condition under which the safety properties of the benchmarks are stated, and the
  three scenarios of \<open>main\<close> satisfy it (\<open>main_scenarios_fit\<close>). Under it no other arithmetic of the programs
  overflows than that of \<open>processed_now\<close> in the mutex benchmark. The build is that of \<open>cargo run\<close> (profile \<open>dev\<close>), which
  checks for overflow; the count wraps in a release build, which differs only beyond \<open>fits_i32\<close>, the
  additional hypothesis of the liveness of the mutex benchmark. Liveness also needs \<open>can_serve\<close>, a consumer
  budget other than 0 or no operations at all, and \<open>Budget\<close> shows that it needs exactly that.
  \<open>total_ops\<close> is computed with the source's wrapping product and shown equal to the mathematical one
  under \<open>fits\<close>.

  \<^bold>\<open>Panic recovery on bare metal.\<close> A task panics three calls deep; the panic handler starts the
  unwinder, which runs the destructors of the frames and lands in the \<open>catch_unwind\<close> of \<open>task_run\<close>.

  \<^item> \<open>BumpAlloc\<close>: \<open>BumpAllocator\<close>, which occurs twice in the sources, with 256 KiB in \<^verbatim>\<open>main.rs\<close> and 16 KiB in
    \<^verbatim>\<open>main_with_unwinding.rs\<close>. \<open>alloc_step\<close> is \<open>alloc\<close> one atomic operation at a time for any number of
    callers; since the first load is \<open>Relaxed\<close>, it may return any value that \<open>next\<close> ever had, and a failing exchange
    observes any later write than the one read before (coherence). \<open>alloc_during\<close> is a stretch of a run inside
    one call; each failed exchange has seen a larger \<open>next\<close>, which bounds the call. The locale \<open>bump_heap\<close> carries the proofs and is interpreted for both heap sizes. \<open>alloc_seq\<close> is an
    undisturbed call. \<open>BumpProperties\<close>: its properties.
  \<^item> \<open>Uart\<close>: \<open>uart_byte\<close>, \<open>uart_print\<close>, \<open>uart_hex\<close>, \<open>uart_usize\<close> as the bytes they send; an index out of the
    digit buffer is \<open>None\<close>. \<open>UnwindTexts\<close>: the printed literals as UTF-8 bytes.
  \<^item> \<open>Unwind\<close>: \<^verbatim>\<open>main.rs\<close>. A call returns, unwinds or never comes back (\<open>outcome\<close>); \<open>with_locals\<close> is a
    function body with locals that have destructors, which end their cleanup pad in \<open>_Unwind_Resume\<close>; a frame
    with nothing to drop has no cleanup pad.
    The crate \<open>unwinding\<close> is not part of the repository: it is the parameter \<open>u\<close>, and \<open>unwinder_ok\<close>
    states what its documentation promises (raising finds a landing pad exactly if a \<open>catch_unwind\<close>
    frame is on the stack, resuming continues the walk, catching stops it).
  \<^item> \<open>UnwindState\<close>: \<^verbatim>\<open>main_with_unwinding.rs\<close> and \<^verbatim>\<open>main_simple.rs\<close>, which report through a static. Their
    properties are in \<open>UnwindStateProperties\<close>, those of \<^verbatim>\<open>main.rs\<close> in \<open>UnwindProperties\<close>.
  \<^item> \<open>Boot\<close>: the three entry points. The assembly \<open>_start\<close> of \<^verbatim>\<open>main.rs\<close> is the instruction list \<open>start_code\<close>,
    executed by \<open>exec_boot\<close> on the registers it touches; the Rust \<open>_start\<close> of the others is \<open>unwind_start\<close> and
    \<open>simple_start\<close>. What the compiler decides is a parameter: the prologue in front of a Rust \<open>_start\<close> and
    whether \<open>main\<close> contains FP or SIMD instructions; so is the set of addresses at which a store faults. The code
    bytes recorded in \<^verbatim>\<open>qemu.log\<close> are decoded to such a prologue (\<open>decode\<close>, \<open>logged_code\<close>). \<open>Image\<close>: the linker script \<^verbatim>\<open>memory.x\<close>; \<open>link_image\<close> places the input sections, which are a
    parameter, and defines the symbols from which the unwinder starts; \<open>None\<close> is the linker's error that a
    section does not fit. \<open>BootProperties\<close>: the layout of the image, and from the entry to the end of \<open>main\<close>.

  \<^bold>\<open>Loops.\<close> No fuel is used: loops inside a call are program points of a step function, and the theorems
  about runs say that they end (\<open>runs\<close>, \<open>guard_runs\<close> hold of the computed result); \<open>hex_loop\<close> and \<open>dec_loop\<close>
  are total by the measure of the number that is left.

  \<^bold>\<open>Not modelled.\<close> The clock (a measured duration is whatever the environment supplies); exhausted
  resources of the host, which are a failure of \<open>thread::spawn\<close> or of the allocation of a vector (the join handles, with
  \<open>Vec::with_capacity\<close>, and the queue); poisoning of the mutex in \<open>DemoInner\<close>, which needs a panic inside
  its critical sections, and these contain none under \<open>fits\<close>; input sections that no pattern of the linker script selects; how deep the stack
  grows (the script reserves no room for it, \<open>image_over_stack\<close>); the unwinder itself. What the Rust files have beyond this is imports, attributes, trait and impl headers and
  comments. The split-stack plugin is C++ and C. The rest of the repository is documentation.
\<close>

end
